(* ===== verification/Malloc_Prelude.thy ===== *)
theory Malloc_Prelude
  imports "HOL-Library.Word" "HOL-Library.Monad_Syntax"
begin

text \<open>
  Shared vocabulary of the development: the machine types of the 32-bit build (\<open>-m32\<close> in the
  \<open>Makefile\<close>), the theorem collections the component theories feed and use, the little-endian
  view of four bytes as a word, and generic facts on 32-bit words that are small multiples of
  the word size.
\<close>

section \<open>Types and theorem collections\<close>

unbundle bit_operations_syntax

type_synonym byte = "8 word"

type_synonym addr = "32 word"   \<comment> \<open>pointers, \<open>size_t\<close>, \<open>unsigned int\<close>: all 4 bytes wide\<close>

type_synonym cint = "32 word"   \<comment> \<open>the bits of an \<open>int\<close>; \<open>sint\<close> reads its value\<close>

abbreviation NULL :: addr where "NULL \<equiv> 0"

named_theorems ptr_simps \<open>pointer arithmetic on word-indexed heap addresses\<close>
named_theorems heap_exec \<open>symbolic execution of heap reads and writes\<close>
named_theorems tag_frame \<open>tags and links are unaffected by writes elsewhere\<close>

section \<open>Natural numbers below \<open>2 ^ 32\<close> as words\<close>

lemma unat_of_nat32: "a < 2 ^ 32 \<Longrightarrow> unat (of_nat a :: 32 word) = a"
  by (simp add: unsigned_of_nat take_bit_nat_eq_self)

lemma unat_lt32: "unat (x :: addr) < 2 ^ 32"
proof -
  have "unat x < 2 ^ LENGTH(32)" by (rule unsigned_less)
  then show ?thesis by simp
qed

lemma of_nat32_eq_iff:
  "a < 2 ^ 32 \<Longrightarrow> b < 2 ^ 32 \<Longrightarrow> (of_nat a :: 32 word) = of_nat b \<longleftrightarrow> a = b"
  by (metis unat_of_nat32)

lemma of_nat32_le_iff:
  "a < 2 ^ 32 \<Longrightarrow> b < 2 ^ 32 \<Longrightarrow> (of_nat a :: 32 word) \<le> of_nat b \<longleftrightarrow> a \<le> b"
  by (simp add: word_le_nat_alt unat_of_nat32)

lemma unat_add_of_nat32:
  "unat b + a < 2 ^ 32 \<Longrightarrow> unat (b + of_nat a :: 32 word) = unat b + a"
  by (simp add: unat_word_ariths unsigned_of_nat take_bit_nat_eq_self)

lemma add_of_nat32_cancel:
  "a < 2 ^ 32 \<Longrightarrow> c < 2 ^ 32 \<Longrightarrow> (b :: 32 word) + of_nat a = b + of_nat c \<longleftrightarrow> a = c"
  by (simp add: of_nat32_eq_iff)

text \<open>Words read as signed.\<close>

lemma sint_small: "unat (w :: cint) < 2 ^ 31 \<Longrightarrow> sint w = int (unat w)"
proof -
  assume "unat w < 2 ^ 31"
  then have "signed_take_bit 31 (uint w) = uint w"
    unfolding uint_nat by (intro signed_take_bit_int_eq_self) (simp_all del: of_nat_unat)
  then show ?thesis by (simp add: sint_uint)
qed

lemma uint_word_of_int_small: "0 \<le> k \<Longrightarrow> k < 2 ^ 31 \<Longrightarrow> uint (word_of_int k :: cint) = k"
  by (simp add: unsigned_of_int take_bit_int_eq_self)

lemma sint_nonneg: "0 \<le> sint (w :: cint) \<Longrightarrow> sint w = int (unat w)"
proof -
  assume "0 \<le> sint w"
  then have "uint w = sint w" using uint_word_of_int_small [of "sint w"] sint_less [of w] by simp
  then show ?thesis unfolding uint_nat by (rule sym)
qed

section \<open>Sizes with an allocation bit\<close>

text \<open>
  A tag word holds a byte size that is a multiple of eight in its upper bits and the allocation
  flag in bit 0. Sizes are counted in 4-byte words: \<open>n\<close> even gives the byte size \<open>4 * n\<close>.
\<close>

lemma of_nat_even_push_bit:
  assumes "even n"
  shows "(of_nat (4 * n) :: 32 word) = push_bit 3 (of_nat (n div 2))"
proof -
  from assms obtain k where "n = 2 * k" by blast
  then show ?thesis by (simp add: push_bit_eq_mult)
qed

lemma not7_mask: "NOT 7 = (NOT (mask 3) :: 32 word)"
  by (simp add: mask_eq_exp_minus_1)

lemma size_of_tag:
  assumes "even n" and "x = 0 \<or> x = 1"
  shows "(of_nat (4 * n) OR x) AND NOT 7 = (of_nat (4 * n) :: 32 word)"
  unfolding of_nat_even_push_bit [OF \<open>even n\<close>] not7_mask
  using assms(2) by (intro bit_word_eqI) (auto simp: bit_simps bit_1_iff)

lemma alloc_of_tag:
  assumes "even n"
  shows "(of_nat (4 * n) OR x) AND 1 = (x AND 1 :: 32 word)"
  unfolding of_nat_even_push_bit [OF assms]
  by (intro bit_word_eqI) (auto simp: bit_simps bit_1_iff)

section \<open>Little-endian words in byte memory\<close>

definition ld32 :: "(addr \<Rightarrow> byte) \<Rightarrow> addr \<Rightarrow> 32 word" where
  "ld32 m p = ucast (m p) OR push_bit 8 (ucast (m (p + 1)))
     OR push_bit 16 (ucast (m (p + 2))) OR push_bit 24 (ucast (m (p + 3)))"

definition st32 :: "(addr \<Rightarrow> byte) \<Rightarrow> addr \<Rightarrow> 32 word \<Rightarrow> (addr \<Rightarrow> byte)" where
  "st32 m p v = m(p := ucast v, p + 1 := ucast (drop_bit 8 v),
     p + 2 := ucast (drop_bit 16 v), p + 3 := ucast (drop_bit 24 v))"

definition word_bytes :: "32 word \<Rightarrow> byte list" where
  "word_bytes v = [ucast v, ucast (drop_bit 8 v), ucast (drop_bit 16 v), ucast (drop_bit 24 v)]"

lemma length_word_bytes [simp]: "length (word_bytes v) = 4"
  by (simp add: word_bytes_def)

lemma word_bit_quarters:
  "n < (32::nat) \<Longrightarrow> n < 8 \<or> (8 \<le> n \<and> n < 16) \<or> (16 \<le> n \<and> n < 24) \<or> (24 \<le> n \<and> n < 32)"
  by arith

lemma byte_high_bit: "8 \<le> n \<Longrightarrow> \<not> bit (b :: byte) n"
  using bit_imp_le_length [of b n] by auto

lemma st32_bytes:
  "st32 m p v p = ucast v" "st32 m p v (p + 1) = ucast (drop_bit 8 v)"
  "st32 m p v (p + 2) = ucast (drop_bit 16 v)" "st32 m p v (p + 3) = ucast (drop_bit 24 v)"
  by (simp_all add: st32_def)

lemma bytes_to_word:
  "ucast (ucast v :: byte) OR push_bit 8 (ucast (ucast (drop_bit 8 v) :: byte))
     OR push_bit 16 (ucast (ucast (drop_bit 16 v) :: byte))
     OR push_bit 24 (ucast (ucast (drop_bit 24 v) :: byte)) = (v :: 32 word)"
proof (rule bit_word_eqI)
  fix n
  assume "n < LENGTH(32)"
  then consider "n < 8" | "8 \<le> n" "n < 16" | "16 \<le> n" "n < 24" | "24 \<le> n" "n < 32"
    using word_bit_quarters [of n] by auto
  then show "bit (ucast (ucast v :: byte) OR push_bit 8 (ucast (ucast (drop_bit 8 v) :: byte))
     OR push_bit 16 (ucast (ucast (drop_bit 16 v) :: byte))
     OR push_bit 24 (ucast (ucast (drop_bit 24 v) :: byte)) :: 32 word) n \<longleftrightarrow> bit v n"
    by cases (auto simp add: bit_simps)
qed

lemma ld32_st32_same [simp]: "ld32 (st32 m p v) p = v"
  unfolding ld32_def st32_bytes by (rule bytes_to_word)

lemma less_4_cases: "k < (4::nat) \<Longrightarrow> k = 0 \<or> k = 1 \<or> k = 2 \<or> k = 3"
  by arith

lemma word_bytes_ld32: "k < 4 \<Longrightarrow> word_bytes (ld32 m p) ! k = m (p + of_nat k)"
  by (drule less_4_cases, rule bit_word_eqI)
    (auto simp add: word_bytes_def ld32_def bit_simps byte_high_bit)

lemma st32_other:
  assumes "\<And>k. k < 4 \<Longrightarrow> q \<noteq> p + of_nat k"
  shows "st32 m p v q = m q"
  using assms [of 0] assms [of 1] assms [of 2] assms [of 3] by (simp add: st32_def)

lemma st32_byte: "k < 4 \<Longrightarrow> st32 m p v (p + of_nat k) = word_bytes v ! k"
  using word_bytes_ld32 [of k "st32 m p v" p] by simp

lemma ld32_cong:
  assumes "\<And>k. k < 4 \<Longrightarrow> m (p + of_nat k) = m' (p + of_nat k)"
  shows "ld32 m p = ld32 m' p"
  using assms [of 0] assms [of 1] assms [of 2] assms [of 3] by (simp add: ld32_def)

section \<open>Lists and parity\<close>

lemma even_Suc_neq: "even a \<Longrightarrow> even c \<Longrightarrow> Suc a \<noteq> c"
  by auto


lemma nth_concat_word_bytes:
  "k < 4 * length ws \<Longrightarrow> concat (map word_bytes ws) ! k = word_bytes (ws ! (k div 4)) ! (k mod 4)"
proof (induction ws arbitrary: k)
  case Nil
  then show ?case by simp
next
  case (Cons w ws)
  show ?case
  proof (cases "k < 4")
    case True
    then show ?thesis by (simp add: nth_append)
  next
    case False
    then obtain j where j: "k = 4 + j" by (metis le_Suc_ex not_less)
    then have "k div 4 = Suc (j div 4)" and "k mod 4 = j mod 4" by simp_all
    with Cons j show ?thesis by (simp add: nth_append)
  qed
qed

lemma length_concat_word_bytes [simp]: "length (concat (map word_bytes ws)) = 4 * length ws"
  by (induction ws) simp_all

end
