(* ===== verification/Memlib.thy ===== *)
theory Memlib
  imports Malloc_Prelude
begin

text \<open>
  The memory system of \<open>src/memlib.c\<close>: the three private pointers into the storage obtained
  from libc's \<open>malloc(MAX_HEAP)\<close>, the simulated break, and the bytes of that storage.
  An access is defined when it lies inside the storage; anything else is undefined behaviour of
  the C program and is \<open>None\<close> here.
\<close>

section \<open>State\<close>

record mem =
  mem_start_brk :: addr
  mem_brk :: addr
  mem_max_addr :: addr
  bytes :: "addr \<Rightarrow> byte"

definition MAX_HEAP :: nat where "MAX_HEAP = 20 * 2 ^ 20"

section \<open>Operations of \<open>memlib.c\<close>\<close>

text \<open>The pointer \<open>p\<close> is what libc's \<open>malloc(MAX_HEAP)\<close> returned; \<open>Inl 1\<close> is \<open>exit(1)\<close>.\<close>

definition mem_init :: "addr \<Rightarrow> 'a mem_scheme \<Rightarrow> nat + 'a mem_scheme" where
  "mem_init p s =
     (if p = NULL then Inl 1
      else Inr (s\<lparr>mem_start_brk := p, mem_max_addr := p + of_nat MAX_HEAP, mem_brk := p\<rparr>))"

text \<open>\<open>free(mem_start_brk)\<close>: libc's \<open>free\<close> on libc's state.\<close>

definition mem_deinit :: "(addr \<Rightarrow> 'l \<Rightarrow> 'l) \<Rightarrow> 'a mem_scheme \<Rightarrow> 'l \<Rightarrow> 'l" where
  "mem_deinit libc_free s l = libc_free (mem_start_brk s) l"

definition mem_reset_brk :: "'a mem_scheme \<Rightarrow> 'a mem_scheme" where
  "mem_reset_brk s = s\<lparr>mem_brk := mem_start_brk s\<rparr>"

definition mem_sbrk :: "'a mem_scheme \<Rightarrow> cint \<Rightarrow> addr \<times> 'a mem_scheme" where
  "mem_sbrk s incr =
     (let old_brk = mem_brk s in
      if sint incr < 0 \<or> mem_brk s + incr > mem_max_addr s then (- 1, s)
      else (old_brk, s\<lparr>mem_brk := mem_brk s + incr\<rparr>))"

definition mem_heap_lo :: "'a mem_scheme \<Rightarrow> addr" where
  "mem_heap_lo s = mem_start_brk s"

definition mem_heap_hi :: "'a mem_scheme \<Rightarrow> addr" where
  "mem_heap_hi s = mem_brk s - 1"

definition mem_heapsize :: "'a mem_scheme \<Rightarrow> addr" where
  "mem_heapsize s = mem_brk s - mem_start_brk s"

section \<open>Accesses to the storage\<close>

definition in_storage :: "'a mem_scheme \<Rightarrow> addr \<Rightarrow> nat \<Rightarrow> bool" where
  "in_storage s p n \<longleftrightarrow> mem_start_brk s \<le> p \<and> unat p + n \<le> unat (mem_max_addr s)"

definition memset :: "'a mem_scheme \<Rightarrow> addr \<Rightarrow> byte \<Rightarrow> addr \<Rightarrow> 'a mem_scheme option" where
  "memset s p c n =
     (if in_storage s p (unat n)
      then Some (s\<lparr>bytes := (\<lambda>a. if a - p < n then c else bytes s a)\<rparr>) else None)"

text \<open>\<open>memcpy\<close> is defined for disjoint ranges inside the storage only.\<close>

definition memcpy :: "'a mem_scheme \<Rightarrow> addr \<Rightarrow> addr \<Rightarrow> addr \<Rightarrow> 'a mem_scheme option" where
  "memcpy s d p n =
     (if in_storage s d (unat n) \<and> in_storage s p (unat n)
         \<and> (unat d + unat n \<le> unat p \<or> unat p + unat n \<le> unat d)
      then Some (s\<lparr>bytes := (\<lambda>a. if a - d < n then bytes s (p + (a - d)) else bytes s a)\<rparr>)
      else None)"

section \<open>Geometry\<close>

text \<open>
  What \<open>mem_init\<close> establishes when libc hands out 8-aligned storage that does not wrap round
  the address space, and every later operation keeps.
\<close>

definition geom :: "'a mem_scheme \<Rightarrow> bool" where
  "geom s \<longleftrightarrow> mem_start_brk s \<noteq> 0 \<and> 8 dvd unat (mem_start_brk s)
     \<and> unat (mem_start_brk s) + MAX_HEAP < 2 ^ 32
     \<and> mem_max_addr s = mem_start_brk s + of_nat MAX_HEAP
     \<and> mem_start_brk s \<le> mem_brk s \<and> mem_brk s \<le> mem_max_addr s"

lemma geom_brk_le: "geom s \<Longrightarrow> unat (mem_brk s) \<le> unat (mem_max_addr s)"
  unfolding geom_def word_le_nat_alt by blast

definition same_storage :: "'a mem_scheme \<Rightarrow> 'b mem_scheme \<Rightarrow> bool" where
  "same_storage s s' \<longleftrightarrow> mem_start_brk s' = mem_start_brk s \<and> mem_max_addr s' = mem_max_addr s"

lemma same_storage_refl [simp]: "same_storage s s"
  by (simp add: same_storage_def)

lemma same_storage_trans: "same_storage s s' \<Longrightarrow> same_storage s' s'' \<Longrightarrow> same_storage s s''"
  by (simp add: same_storage_def)

lemma same_storage_bytes [simp]:
  "same_storage s (s'\<lparr>bytes := m\<rparr>) \<longleftrightarrow> same_storage s s'"
  "same_storage (s\<lparr>bytes := m\<rparr>) s' \<longleftrightarrow> same_storage s s'"
  by (simp_all add: same_storage_def)

lemma geom_bytes [simp]: "geom (s\<lparr>bytes := m\<rparr>) = geom s"
  unfolding geom_def by simp

end
