(* ===== verification/Boundary_Tags.thy ===== *)
theory Boundary_Tags
  imports Memlib
begin

text \<open>
  The macros every list allocator of the repository shares (\<open>mm.c\<close>, \<open>malloc/implicit-53.c\<close>,
  \<open>malloc/refer/refer.c\<close>, \<open>malloc/segregated_list-85.c\<close>): words read and written through
  casted pointers, sizes packed with an allocation bit, and the arithmetic that walks from block
  to block by their header and footer tags. On top of them the view the proofs use: the heap as a
  sequence of 32-bit words, and the layout of a heap that is tiled by tagged blocks.
\<close>

section \<open>The macros\<close>

definition WSIZE :: addr where "WSIZE = 4"
definition DSIZE :: addr where "DSIZE = 8"
definition CHUNKSIZE :: addr where "CHUNKSIZE = push_bit 12 1"

definition MAX_C :: "addr \<Rightarrow> addr \<Rightarrow> addr" where
  "MAX_C x y = (if x > y then x else y)"

definition ALIGN :: "addr \<Rightarrow> addr" where
  "ALIGN sz = (sz + (8 - 1)) AND NOT 7"

definition PACK :: "32 word \<Rightarrow> 32 word \<Rightarrow> 32 word" where
  "PACK sz alloc = sz OR alloc"

definition GET :: "'a mem_scheme \<Rightarrow> addr \<Rightarrow> 32 word option" where
  "GET s p = (if in_storage s p 4 then Some (ld32 (bytes s) p) else None)"

definition PUT :: "'a mem_scheme \<Rightarrow> addr \<Rightarrow> 32 word \<Rightarrow> 'a mem_scheme option" where
  "PUT s p v = (if in_storage s p 4 then Some (s\<lparr>bytes := st32 (bytes s) p v\<rparr>) else None)"

definition GET_SIZE :: "'a mem_scheme \<Rightarrow> addr \<Rightarrow> addr option" where
  "GET_SIZE s p = do { w \<leftarrow> GET s p; Some (w AND NOT 7) }"

definition GET_ALLOC :: "'a mem_scheme \<Rightarrow> addr \<Rightarrow> addr option" where
  "GET_ALLOC s p = do { w \<leftarrow> GET s p; Some (w AND 1) }"

definition HDRP :: "addr \<Rightarrow> addr" where
  "HDRP bp = bp - WSIZE"

definition FTRP :: "'a mem_scheme \<Rightarrow> addr \<Rightarrow> addr option" where
  "FTRP s bp = do { n \<leftarrow> GET_SIZE s (HDRP bp); Some (bp + n - DSIZE) }"

definition NEXT_BLKP :: "'a mem_scheme \<Rightarrow> addr \<Rightarrow> addr option" where
  "NEXT_BLKP s bp = do { n \<leftarrow> GET_SIZE s (bp - WSIZE); Some (bp + n) }"

definition PREV_BLKP :: "'a mem_scheme \<Rightarrow> addr \<Rightarrow> addr option" where
  "PREV_BLKP s bp = do { n \<leftarrow> GET_SIZE s (bp - DSIZE); Some (bp - n) }"

text \<open>
  The two link words of a free block; the macros are used on both sides of assignments. \<open>refer.c\<close> and
  \<open>segregated_list-85.c\<close> call them \<open>PREV_FREE\<close> and \<open>NEXT_FREE\<close>.
\<close>

definition PRED_P :: "'a mem_scheme \<Rightarrow> addr \<Rightarrow> addr option" where
  "PRED_P s bp = GET s bp"

definition SUCC_P :: "'a mem_scheme \<Rightarrow> addr \<Rightarrow> addr option" where
  "SUCC_P s bp = GET s (bp + WSIZE)"

definition SET_PRED_P :: "'a mem_scheme \<Rightarrow> addr \<Rightarrow> addr \<Rightarrow> 'a mem_scheme option" where
  "SET_PRED_P s bp v = PUT s bp v"

definition SET_SUCC_P :: "'a mem_scheme \<Rightarrow> addr \<Rightarrow> addr \<Rightarrow> 'a mem_scheme option" where
  "SET_SUCC_P s bp v = PUT s (bp + WSIZE) v"

section \<open>The heap as a sequence of words\<close>

definition HEAPW :: nat where "HEAPW = MAX_HEAP div 4"

lemma HEAPW_eq: "HEAPW = 5242880"
  by (simp add: HEAPW_def MAX_HEAP_def)

text \<open>\<open>ptr b i\<close> is the address of word \<open>i\<close> of a heap that starts at \<open>b\<close>.\<close>

definition ptr :: "addr \<Rightarrow> nat \<Rightarrow> addr" where
  "ptr b i = b + of_nat (4 * i)"

definition bsize :: "nat \<Rightarrow> addr" where
  "bsize n = of_nat (4 * n)"

definition hdr :: "nat \<Rightarrow> bool \<Rightarrow> 32 word" where
  "hdr n a = bsize n OR (if a then 1 else 0)"

definition tag_size :: "32 word \<Rightarrow> addr" where
  "tag_size w = w AND NOT 7"

definition tag_alloc :: "32 word \<Rightarrow> addr" where
  "tag_alloc w = w AND 1"

definition hw :: "'a mem_scheme \<Rightarrow> nat \<Rightarrow> 32 word" where
  "hw s i = (if i < HEAPW then ld32 (bytes s) (ptr (mem_start_brk s) i) else 0)"

definition put_word :: "'a mem_scheme \<Rightarrow> nat \<Rightarrow> 32 word \<Rightarrow> 'a mem_scheme" where
  "put_word s i v = s\<lparr>bytes := st32 (bytes s) (ptr (mem_start_brk s) i) v\<rparr>"

lemma ptr_minus_WSIZE [ptr_simps]: "1 \<le> i \<Longrightarrow> ptr b i - WSIZE = ptr b (i - 1)"
  by (simp add: ptr_def WSIZE_def algebra_simps)

lemma ptr_minus_DSIZE [ptr_simps]: "2 \<le> i \<Longrightarrow> ptr b i - DSIZE = ptr b (i - 2)"
  by (simp add: ptr_def DSIZE_def algebra_simps)

lemma ptr_plus_WSIZE [ptr_simps]: "ptr b i + WSIZE = ptr b (i + 1)"
  by (simp add: ptr_def WSIZE_def algebra_simps)

lemma ptr_plus_bsize [ptr_simps]: "ptr b i + bsize n = ptr b (i + n)"
  by (simp add: ptr_def bsize_def algebra_simps)

lemma ptr_minus_bsize [ptr_simps]: "n \<le> i \<Longrightarrow> ptr b i - bsize n = ptr b (i - n)"
  by (simp add: ptr_def bsize_def of_nat_diff algebra_simps)

lemma bsize_add [ptr_simps]: "bsize m + bsize n = bsize (m + n)"
  by (simp add: bsize_def algebra_simps)

lemma bsize_diff [ptr_simps]: "n \<le> m \<Longrightarrow> bsize m - bsize n = bsize (m - n)"
  by (simp add: bsize_def of_nat_diff algebra_simps)

lemma HDRP_ptr [ptr_simps]: "1 \<le> i \<Longrightarrow> HDRP (ptr b i) = ptr b (i - 1)"
  by (simp add: HDRP_def ptr_simps)

lemma bsize_le_iff: "m < 2 ^ 30 \<Longrightarrow> n < 2 ^ 30 \<Longrightarrow> bsize m \<le> bsize n \<longleftrightarrow> m \<le> n"
  unfolding bsize_def by (subst of_nat32_le_iff) auto

lemma unat_bsize: "n < 2 ^ 30 \<Longrightarrow> unat (bsize n) = 4 * n"
  unfolding bsize_def by (rule unat_of_nat32) simp

lemma PACK_bsize [ptr_simps]: "PACK (bsize n) 0 = hdr n False" "PACK (bsize n) 1 = hdr n True"
  by (simp_all add: PACK_def hdr_def)

lemma PACK_0_1 [ptr_simps]: "PACK 0 1 = hdr 0 True"
  by (simp add: PACK_def hdr_def bsize_def)

lemma tag_size_hdr [ptr_simps]: "even n \<Longrightarrow> tag_size (hdr n a) = bsize n"
  unfolding tag_size_def hdr_def bsize_def by (rule size_of_tag) auto

lemma tag_alloc_hdr [ptr_simps]: "even n \<Longrightarrow> tag_alloc (hdr n a) = (if a then 1 else 0)"
  unfolding tag_alloc_def hdr_def bsize_def by (subst alloc_of_tag) auto

lemma ptr_add_lt: "i < HEAPW \<Longrightarrow> k < 4 \<Longrightarrow> 4 * i + k < MAX_HEAP"
  by (simp add: HEAPW_eq MAX_HEAP_def)

lemma ptr_add_of_nat: "ptr b i + of_nat k = b + of_nat (4 * i + k)"
  by (simp add: ptr_def)

lemma ptr_byte_eq_iff:
  assumes "i < HEAPW" "j < HEAPW" "k < 4" "l < 4"
  shows "ptr b i + of_nat k = ptr b j + of_nat l \<longleftrightarrow> i = j \<and> k = l"
proof -
  have "4 * i + k < 2 ^ 32" "4 * j + l < 2 ^ 32"
    using assms by (simp_all add: HEAPW_eq)
  then have "ptr b i + of_nat k = ptr b j + of_nat l \<longleftrightarrow> 4 * i + k = 4 * j + l"
    unfolding ptr_add_of_nat by (rule add_of_nat32_cancel)
  also have "\<dots> \<longleftrightarrow> i = j \<and> k = l"
    using assms by presburger
  finally show ?thesis .
qed

lemma ptr_eq_iff: "i < HEAPW \<Longrightarrow> j < HEAPW \<Longrightarrow> ptr b i = ptr b j \<longleftrightarrow> i = j"
  using ptr_byte_eq_iff [of i j 0 0 b] by simp

lemma unat_ptr:
  assumes "geom s" "4 * i \<le> MAX_HEAP"
  shows "unat (ptr (mem_start_brk s) i) = unat (mem_start_brk s) + 4 * i"
  unfolding ptr_def using assms by (intro unat_add_of_nat32) (simp add: geom_def)

lemma unat_max_addr:
  "geom s \<Longrightarrow> unat (mem_max_addr s) = unat (mem_start_brk s) + MAX_HEAP"
  by (simp add: geom_def unat_add_of_nat32)

lemma in_storage_ptr:
  assumes "geom s" "4 * i + n \<le> MAX_HEAP"
  shows "in_storage s (ptr (mem_start_brk s) i) n"
  using assms unat_ptr [of s i] unat_max_addr [of s]
  by (simp add: in_storage_def word_le_nat_alt)

lemma ptr_not_NULL: "geom s \<Longrightarrow> i \<le> HEAPW \<Longrightarrow> ptr (mem_start_brk s) i \<noteq> 0"
  using unat_ptr [of s i] by (auto simp: geom_def HEAPW_eq MAX_HEAP_def unat_eq_0)

lemma geom_put_word [simp]: "geom (put_word s i v) = geom s"
  by (simp add: geom_def put_word_def)

lemma fields_put_word [simp]:
  "mem_start_brk (put_word s i v) = mem_start_brk s"
  "mem_brk (put_word s i v) = mem_brk s"
  "mem_max_addr (put_word s i v) = mem_max_addr s"
  by (simp_all add: put_word_def)

lemma GET_ptr [heap_exec]:
  "geom s \<Longrightarrow> mem_start_brk s = b \<Longrightarrow> i < HEAPW \<Longrightarrow> GET s (ptr b i) = Some (hw s i)"
  using in_storage_ptr [of s i 4] by (simp add: GET_def hw_def HEAPW_eq MAX_HEAP_def)

lemma PUT_ptr [heap_exec]:
  "geom s \<Longrightarrow> mem_start_brk s = b \<Longrightarrow> i < HEAPW \<Longrightarrow> PUT s (ptr b i) v = Some (put_word s i v)"
  using in_storage_ptr [of s i 4] by (simp add: PUT_def put_word_def HEAPW_eq MAX_HEAP_def)

lemma GET_SIZE_ptr [heap_exec]:
  "geom s \<Longrightarrow> mem_start_brk s = b \<Longrightarrow> i < HEAPW \<Longrightarrow> GET_SIZE s (ptr b i) = Some (tag_size (hw s i))"
  by (simp add: GET_SIZE_def GET_ptr tag_size_def)

lemma GET_ALLOC_ptr [heap_exec]:
  "geom s \<Longrightarrow> mem_start_brk s = b \<Longrightarrow> i < HEAPW \<Longrightarrow> GET_ALLOC s (ptr b i) = Some (tag_alloc (hw s i))"
  by (simp add: GET_ALLOC_def GET_ptr tag_alloc_def)

lemma hw_put_word [heap_exec]:
  assumes "i < HEAPW"
  shows "hw (put_word s i v) = (hw s)(i := v)"
proof
  fix j
  consider "HEAPW \<le> j" | "j = i" | "j < HEAPW" "j \<noteq> i" by linarith
  then show "hw (put_word s i v) j = ((hw s)(i := v)) j"
  proof cases
    case 1
    with assms show ?thesis by (simp add: hw_def)
  next
    case 2
    with assms show ?thesis by (simp add: hw_def put_word_def)
  next
    case 3
    then have "ld32 (st32 (bytes s) (ptr (mem_start_brk s) i) v) (ptr (mem_start_brk s) j)
        = ld32 (bytes s) (ptr (mem_start_brk s) j)"
      using assms by (intro ld32_cong st32_other) (simp add: ptr_byte_eq_iff)
    with 3 show ?thesis by (simp add: hw_def put_word_def)
  qed
qed

lemma byte_of_hw:
  "i < HEAPW \<Longrightarrow> k < 4 \<Longrightarrow> bytes s (ptr (mem_start_brk s) i + of_nat k) = word_bytes (hw s i) ! k"
  by (simp add: hw_def word_bytes_ld32)

end
