(* ===== verification/Block_Layout.thy ===== *)
theory Block_Layout
  imports Boundary_Tags
begin

text \<open>
  The abstract view of a boundary-tag heap: the list of its blocks in address order, each free
  block by its size and each allocated block by its payload words. \<open>tags\<close> says that a word
  sequence carries exactly these blocks; \<open>heap_blocks\<close> adds the prologue, the epilogue and the
  break. Payload words are part of the view, so a step that keeps a \<open>Used\<close> block in the list
  has kept every byte of its payload.
\<close>

section \<open>Blocks\<close>

datatype blk = Used "32 word list" | Free nat

primrec bwords :: "blk \<Rightarrow> nat" where
  "bwords (Used ws) = length ws + 2"
| "bwords (Free n) = n"

primrec is_used :: "blk \<Rightarrow> bool" where
  "is_used (Used ws) = True"
| "is_used (Free n) = False"

definition btag :: "blk \<Rightarrow> 32 word" where
  "btag b = hdr (bwords b) (is_used b)"

lemma btag_simps [simp]: "btag (Free n) = hdr n False" "btag (Used ws) = hdr (length ws + 2) True"
  by (simp_all add: btag_def)

definition wf_blk :: "blk \<Rightarrow> bool" where
  "wf_blk b \<longleftrightarrow> even (bwords b) \<and> 4 \<le> bwords b"

lemma wf_blk_simps [simp]:
  "wf_blk (Free n) \<longleftrightarrow> even n \<and> 4 \<le> n"
  "wf_blk (Used ws) \<longleftrightarrow> even (length ws) \<and> 2 \<le> length ws"
  by (simp_all add: wf_blk_def)

definition twords :: "blk list \<Rightarrow> nat" where
  "twords bs = sum_list (map bwords bs)"

lemma twords_simps [simp]:
  "twords [] = 0" "twords (b # bs) = bwords b + twords bs" "twords (xs @ ys) = twords xs + twords ys"
  by (simp_all add: twords_def)

lemma even_twords: "\<forall>b \<in> set bs. wf_blk b \<Longrightarrow> even (twords bs)"
  by (induction bs) (auto simp: wf_blk_def)

text \<open>Payload indices of the blocks, and of the free ones.\<close>

primrec starts :: "nat \<Rightarrow> blk list \<Rightarrow> (nat \<times> blk) list" where
  "starts j [] = []"
| "starts j (b # bs) = (j, b) # starts (j + bwords b) bs"

primrec frees :: "nat \<Rightarrow> blk list \<Rightarrow> nat list" where
  "frees j [] = []"
| "frees j (b # bs) = (if is_used b then [] else [j]) @ frees (j + bwords b) bs"

lemma starts_append: "starts j (xs @ ys) = starts j xs @ starts (j + twords xs) ys"
  by (induction xs arbitrary: j) (simp_all add: add.assoc)

lemma frees_append [simp]: "frees j (xs @ ys) = frees j xs @ frees (j + twords xs) ys"
  by (induction xs arbitrary: j) (simp_all add: add.assoc)

lemma frees_range: "i \<in> set (frees j bs) \<Longrightarrow> j \<le> i \<and> i \<le> j + twords bs"
  by (induction bs arbitrary: j) (force split: if_splits)+

lemma frees_range_wf:
  "i \<in> set (frees j bs) \<Longrightarrow> \<forall>b \<in> set bs. wf_blk b \<Longrightarrow> j \<le> i \<and> i + 4 \<le> j + twords bs"
proof (induction bs arbitrary: j)
  case (Cons b bs)
  then show ?case by (force simp: wf_blk_def split: if_splits)
qed simp

lemma frees_even:
  "i \<in> set (frees j bs) \<Longrightarrow> \<forall>b \<in> set bs. wf_blk b \<Longrightarrow> even j \<Longrightarrow> even i"
proof (induction bs arbitrary: j)
  case (Cons b bs)
  then have "even (j + bwords b)" by (simp add: wf_blk_def)
  with Cons show ?case by (auto split: if_splits)
qed simp

lemma distinct_frees: "\<forall>b \<in> set bs. wf_blk b \<Longrightarrow> distinct (frees j bs)"
proof (induction bs arbitrary: j)
  case (Cons b bs)
  have "j \<notin> set (frees (j + bwords b) bs)"
    using frees_range [of j "j + bwords b" bs] Cons.prems by (auto simp: wf_blk_def)
  with Cons show ?case by auto
qed simp

lemma starts_split:
  "(i, b) \<in> set (starts j bs) \<Longrightarrow> \<exists>xs ys. bs = xs @ b # ys \<and> i = j + twords xs"
proof (induction bs arbitrary: j)
  case (Cons c bs)
  show ?case
  proof (cases "(i, b) = (j, c)")
    case True
    then show ?thesis by (intro exI [of _ "[]"] exI [of _ bs]) simp
  next
    case False
    with Cons.prems have "(i, b) \<in> set (starts (j + bwords c) bs)" by auto
    then obtain xs ys where "bs = xs @ b # ys" "i = j + bwords c + twords xs"
      using Cons.IH by blast
    then show ?thesis by (intro exI [of _ "c # xs"] exI [of _ ys]) simp
  qed
qed simp

lemma frees_split:
  "i \<in> set (frees j bs) \<Longrightarrow> \<exists>xs n ys. bs = xs @ Free n # ys \<and> i = j + twords xs"
proof (induction bs arbitrary: j)
  case (Cons c bs)
  show ?case
  proof (cases "i = j \<and> \<not> is_used c")
    case True
    then show ?thesis by (cases c) (auto intro!: exI [of _ "[]"])
  next
    case False
    with Cons.prems have "i \<in> set (frees (j + bwords c) bs)" by (auto split: if_splits)
    then obtain xs n ys where "bs = xs @ Free n # ys" "i = j + bwords c + twords xs"
      using Cons.IH by blast
    then show ?thesis by (intro exI [of _ "c # xs"] exI [of _ n] exI [of _ ys]) simp
  qed
qed simp

section \<open>Tags in a word sequence\<close>

definition blk_at :: "(nat \<Rightarrow> 32 word) \<Rightarrow> nat \<Rightarrow> blk \<Rightarrow> bool" where
  "blk_at h j b \<longleftrightarrow> h (j - 1) = btag b \<and> h (j + bwords b - 2) = btag b
     \<and> (case b of Used ws \<Rightarrow> (\<forall>k < length ws. h (j + k) = ws ! k) | Free n \<Rightarrow> True)"

primrec tags :: "(nat \<Rightarrow> 32 word) \<Rightarrow> nat \<Rightarrow> blk list \<Rightarrow> bool" where
  "tags h j [] \<longleftrightarrow> True"
| "tags h j (b # bs) \<longleftrightarrow> blk_at h j b \<and> tags h (j + bwords b) bs"

lemma tags_append [simp]: "tags h j (xs @ ys) \<longleftrightarrow> tags h j xs \<and> tags h (j + twords xs) ys"
  by (induction xs arbitrary: j) (simp_all add: add.assoc)

lemma blk_at_cong:
  assumes "\<And>k. j \<le> Suc k \<Longrightarrow> Suc k < j + bwords b \<Longrightarrow> h k = h' k" "2 \<le> bwords b" "1 \<le> j"
  shows "blk_at h j b \<longleftrightarrow> blk_at h' j b"
proof -
  have "h (j - 1) = h' (j - 1)" "h (j + bwords b - 2) = h' (j + bwords b - 2)"
    by (rule assms(1); use assms in simp)+
  moreover have "k < length ws \<Longrightarrow> h (j + k) = h' (j + k)" if "b = Used ws" for k ws
    using that by (intro assms(1)) auto
  ultimately show ?thesis by (auto simp: blk_at_def split: blk.splits)
qed

lemma tags_cong:
  assumes "\<And>k. j \<le> Suc k \<Longrightarrow> Suc k < j + twords bs \<Longrightarrow> h k = h' k"
    and "\<forall>b \<in> set bs. wf_blk b" "1 \<le> j"
  shows "tags h j bs \<longleftrightarrow> tags h' j bs"
  using assms
proof (induction bs arbitrary: j)
  case (Cons b bs)
  have "blk_at h j b \<longleftrightarrow> blk_at h' j b"
    using Cons.prems by (intro blk_at_cong) (auto simp: wf_blk_def)
  moreover have "tags h (j + bwords b) bs \<longleftrightarrow> tags h' (j + bwords b) bs"
    using Cons.prems by (intro Cons.IH) (auto simp: wf_blk_def)
  ultimately show ?case by simp
qed simp

text \<open>
  The workhorse of every update proof: exchanging the middle of a heap for blocks of the same
  total size, by a step that changes no word outside the exchanged area.
\<close>

lemma tags_replace:
  assumes "tags h j (xs @ mid @ ys)" "tags h' i new" "twords new = twords mid" "i = j + twords xs"
    and "\<And>k. Suc k < i \<or> i + twords mid \<le> Suc k \<Longrightarrow> h' k = h k"
    and "\<forall>b \<in> set (xs @ ys). wf_blk b" "1 \<le> j"
  shows "tags h' j (xs @ new @ ys)"
proof -
  have "tags h j xs \<longleftrightarrow> tags h' j xs"
    using assms by (intro tags_cong) auto
  moreover have "tags h (i + twords mid) ys \<longleftrightarrow> tags h' (i + twords mid) ys"
    using assms by (intro tags_cong) auto
  ultimately show ?thesis using assms by (simp add: add.assoc)
qed

text \<open>Words in the interior of a free block are nobody's tag and nobody's payload.\<close>

lemma tags_upd_interior:
  assumes "i \<in> set (frees j bs)" "\<forall>b \<in> set bs. wf_blk b" "k = i \<or> k = Suc i" "1 \<le> j"
  shows "tags (h(k := v)) j bs \<longleftrightarrow> tags h j bs"
proof -
  obtain xs n ys where bs: "bs = xs @ Free n # ys" and i: "i = j + twords xs"
    using frees_split [OF assms(1)] by blast
  have "4 \<le> n" using assms(2) bs by simp
  have "tags (h(k := v)) j xs \<longleftrightarrow> tags h j xs"
    using assms bs i by (intro tags_cong) auto
  moreover have "tags (h(k := v)) (i + n) ys \<longleftrightarrow> tags h (i + n) ys"
    using assms bs i \<open>4 \<le> n\<close> by (intro tags_cong) auto
  moreover have "blk_at (h(k := v)) i (Free n) \<longleftrightarrow> blk_at h i (Free n)"
    using assms(3,4) i \<open>4 \<le> n\<close> by (auto simp: blk_at_def)
  ultimately show ?thesis by (simp add: bs i add.assoc)
qed

lemma tags_last: "tags h j xs \<Longrightarrow> xs \<noteq> [] \<Longrightarrow> h (j + twords xs - 2) = btag (last xs)"
  by (induction xs rule: rev_induct) (simp_all add: blk_at_def add.assoc)

section \<open>A whole heap\<close>

text \<open>
  Word 0 is padding, words 1 to \<open>pn\<close> are the prologue block (\<open>pn = 2\<close> for the implicit and the
  segregated list, \<open>pn = 4\<close> for the explicit ones, whose prologue has two link words), the blocks
  follow, and the word below the break is the epilogue header.
\<close>

definition heap_blocks :: "'a mem_scheme \<Rightarrow> nat \<Rightarrow> blk list \<Rightarrow> bool" where
  "heap_blocks s pn bs \<longleftrightarrow> geom s \<and> even pn \<and> 2 \<le> pn
     \<and> hw s 1 = hdr pn True \<and> hw s pn = hdr pn True
     \<and> tags (hw s) (pn + 2) bs
     \<and> hw s (pn + 1 + twords bs) = hdr 0 True
     \<and> mem_brk s = ptr (mem_start_brk s) (pn + 2 + twords bs)
     \<and> (\<forall>b \<in> set bs. wf_blk b) \<and> pn + 2 + twords bs \<le> HEAPW"

definition prev_tag :: "nat \<Rightarrow> blk list \<Rightarrow> 32 word" where
  "prev_tag pn xs = (if xs = [] then hdr pn True else btag (last xs))"

definition next_tag :: "blk list \<Rightarrow> 32 word" where
  "next_tag ys = (case ys of [] \<Rightarrow> hdr 0 True | y # _ \<Rightarrow> btag y)"

lemma heap_blocksD:
  assumes "heap_blocks s pn bs"
  shows "geom s" "even pn" "2 \<le> pn" "hw s 1 = hdr pn True" "hw s pn = hdr pn True"
    "tags (hw s) (pn + 2) bs" "hw s (pn + 1 + twords bs) = hdr 0 True"
    "mem_brk s = ptr (mem_start_brk s) (pn + 2 + twords bs)"
    "\<forall>b \<in> set bs. wf_blk b" "pn + 2 + twords bs \<le> HEAPW"
  using assms by (simp_all add: heap_blocks_def)

text \<open>Everything an operation reads around the block at index \<open>j\<close>.\<close>

lemma heap_block_view:
  assumes "heap_blocks s pn (xs @ b # ys)" and j: "j = pn + 2 + twords xs"
  shows "hw s (j - 1) = btag b" "hw s (j + bwords b - 2) = btag b"
    "hw s (j - 2) = prev_tag pn xs" "hw s (j + bwords b - 1) = next_tag ys"
    "even j" "4 \<le> j" "wf_blk b" "even (bwords b)" "4 \<le> bwords b" "j + bwords b \<le> HEAPW"
proof -
  note D = heap_blocksD [OF assms(1)]
  have xs: "\<forall>b \<in> set xs. wf_blk b" and b: "wf_blk b" using D(9) by auto
  from D(6) j show "hw s (j - 1) = btag b" "hw s (j + bwords b - 2) = btag b"
    by (simp_all add: blk_at_def)
  from D(3) D(5) tags_last [of "hw s" "pn + 2" xs] D(6) j
  show "hw s (j - 2) = prev_tag pn xs" by (auto simp: prev_tag_def)
  show "hw s (j + bwords b - 1) = next_tag ys"
  proof (cases ys)
    case Nil
    then show ?thesis using D(7) j by (simp add: next_tag_def add.assoc)
  next
    case (Cons y ys')
    then show ?thesis using D(6) j by (simp add: next_tag_def blk_at_def add.assoc)
  qed
  show "even j" "4 \<le> j" using D(2,3) even_twords [OF xs] j by simp_all
  show "wf_blk b" by (rule b)
  then show "even (bwords b)" "4 \<le> bwords b" by (simp_all add: wf_blk_def)
  show "j + bwords b \<le> HEAPW" using D(10) j by simp
qed

lemma heap_blocks_replace:
  assumes "heap_blocks s pn (xs @ mid @ ys)" "geom s'"
    and "mem_start_brk s' = mem_start_brk s" "mem_brk s' = mem_brk s"
    and i: "i = pn + 2 + twords xs" and new: "tags (hw s') i new" "twords new = twords mid"
    and "\<forall>b \<in> set new. wf_blk b"
    and out: "\<And>k. Suc k < i \<or> i + twords mid \<le> Suc k \<Longrightarrow> hw s' k = hw s k"
  shows "heap_blocks s' pn (xs @ new @ ys)"
proof -
  note D = heap_blocksD [OF assms(1)]
  have "tags (hw s') (pn + 2) (xs @ new @ ys)"
    by (rule tags_replace [OF D(6) new i out]) (use D(9) in auto)
  moreover have "hw s' 1 = hw s 1" "hw s' pn = hw s pn"
    using D(3) i by (intro out; simp)+
  moreover have "hw s' (pn + 1 + twords (xs @ mid @ ys)) = hw s (pn + 1 + twords (xs @ mid @ ys))"
    using i by (intro out) simp
  ultimately show ?thesis using D assms(2-4,8) new(2) by (simp add: heap_blocks_def ball_Un)
qed

text \<open>A write into the interior of a free block leaves the layout as it is.\<close>

lemma heap_blocks_upd_interior:
  assumes "heap_blocks s pn bs" "i \<in> set (frees (pn + 2) bs)" "k = i \<or> k = Suc i"
  shows "heap_blocks (put_word s k v) pn bs"
proof -
  note D = heap_blocksD [OF assms(1)]
  have r: "pn + 2 \<le> i" "i + 4 \<le> pn + 2 + twords bs"
    using frees_range_wf [OF assms(2) D(9)] by auto
  then have "hw (put_word s k v) = (hw s)(k := v)"
    using assms(3) D(10) by (intro hw_put_word) auto
  moreover have "tags ((hw s)(k := v)) (pn + 2) bs"
    using tags_upd_interior [OF assms(2) D(9) assms(3)] D(6) by simp
  ultimately show ?thesis using D r assms(3) by (auto simp: heap_blocks_def)
qed

end
