(* ===== verification/Block_Updates.thy ===== *)
theory Block_Updates
  imports Block_Layout
begin

text \<open>
  How the steps of a boundary-tag allocator change the layout: reading a block and its two
  neighbours (\<open>nbhd\<close>), retagging a stretch of blocks as one, splitting a block, merging a free
  block with its free neighbours (\<open>coalesced\<close>), and growing the heap at the break.
\<close>

section \<open>The neighbourhood of a block\<close>

definition prev_words :: "nat \<Rightarrow> blk list \<Rightarrow> nat" where
  "prev_words pn xs = (if xs = [] then pn else bwords (last xs))"

definition prev_used :: "blk list \<Rightarrow> bool" where
  "prev_used xs \<longleftrightarrow> xs = [] \<or> is_used (last xs)"

definition next_words :: "blk list \<Rightarrow> nat" where
  "next_words ys = (if ys = [] then 0 else bwords (hd ys))"

definition next_used :: "blk list \<Rightarrow> bool" where
  "next_used ys \<longleftrightarrow> ys = [] \<or> is_used (hd ys)"

definition nbhd :: "'a mem_scheme \<Rightarrow> nat \<Rightarrow> nat \<Rightarrow> bool \<Rightarrow> nat \<Rightarrow> bool \<Rightarrow> nat \<Rightarrow> bool \<Rightarrow> bool" where
  "nbhd s j p pa n a q qa \<longleftrightarrow> geom s \<and> even j \<and> even p \<and> even n \<and> even q
     \<and> 2 \<le> p \<and> p + 2 \<le> j \<and> 4 \<le> n \<and> j + n + q \<le> HEAPW
     \<and> hw s (j - 2) = hdr p pa \<and> hw s (j - p - 1) = hdr p pa
     \<and> hw s (j - 1) = hdr n a \<and> hw s (j + n - 2) = hdr n a
     \<and> hw s (j + n - 1) = hdr q qa \<and> (\<not> qa \<longrightarrow> 4 \<le> q \<and> hw s (j + n + q - 2) = hdr q qa)"

lemma nbhd_heap_blocks:
  assumes H: "heap_blocks s pn (xs @ b # ys)" and j: "j = pn + 2 + twords xs"
  shows "nbhd s j (prev_words pn xs) (prev_used xs) (bwords b) (is_used b) (next_words ys) (next_used ys)"
proof -
  note D = heap_blocksD [OF H] and V = heap_block_view [OF H j]
  have prev: "hw s (j - 2) = hdr (prev_words pn xs) (prev_used xs)"
    using V(3) by (simp add: prev_tag_def prev_words_def prev_used_def btag_def)
  have next_hdr: "hw s (j + bwords b - 1) = hdr (next_words ys) (next_used ys)"
    using V(4) by (cases ys) (simp_all add: next_tag_def next_words_def next_used_def btag_def)
  have prev_hdr: "hw s (j - prev_words pn xs - 1) = hdr (prev_words pn xs) (prev_used xs)
      \<and> even (prev_words pn xs) \<and> 2 \<le> prev_words pn xs \<and> prev_words pn xs + 2 \<le> j"
  proof (cases xs rule: rev_cases)
    case Nil
    then show ?thesis using D j by (simp add: prev_words_def prev_used_def)
  next
    case (snoc xs' c)
    have H': "heap_blocks s pn (xs' @ c # b # ys)" using H snoc by simp
    show ?thesis using heap_block_view [OF H' refl] snoc j
      by (simp add: prev_words_def prev_used_def btag_def)
  qed
  have next_ftr: "even (next_words ys) \<and> j + bwords b + next_words ys \<le> HEAPW
      \<and> (\<not> next_used ys \<longrightarrow> 4 \<le> next_words ys
          \<and> hw s (j + bwords b + next_words ys - 2) = hdr (next_words ys) (next_used ys))"
  proof (cases ys)
    case Nil
    then show ?thesis using V by (simp add: next_words_def next_used_def)
  next
    case (Cons c ys')
    have H': "heap_blocks s pn ((xs @ [b]) @ c # ys')" using H Cons by simp
    show ?thesis using heap_block_view [OF H' refl] Cons j
      by (simp add: next_words_def next_used_def btag_def add.assoc)
  qed
  show ?thesis
    using prev next_hdr prev_hdr next_ftr V D(1) by (simp add: nbhd_def btag_def)
qed

lemma nbhdD:
  assumes "nbhd s j p pa n a q qa"
  shows "geom s" "even j" "even p" "even n" "even q" "2 \<le> p" "p + 2 \<le> j" "4 \<le> n" "j + n + q \<le> HEAPW"
    "hw s (j - 2) = hdr p pa" "hw s (j - p - 1) = hdr p pa" 
    "hw s (j - 1) = hdr n a" "hw s (j + n - 2) = hdr n a" "hw s (j + n - 1) = hdr q qa"
    "\<not> qa \<Longrightarrow> 4 \<le> q" "\<not> qa \<Longrightarrow> hw s (j + n + q - 2) = hdr q qa"
  using assms by (simp_all add: nbhd_def)

lemmas blk_macros = PREV_BLKP_def NEXT_BLKP_def FTRP_def

text \<open>What the macros read around the block.\<close>

lemma nbhd_reads:
  assumes N: "nbhd s j p pa n a q qa" and b: "mem_start_brk s = b"
  shows "HDRP (ptr b j) = ptr b (j - 1)" "HDRP (ptr b (j - p)) = ptr b (j - p - 1)"
    "HDRP (ptr b (j + n)) = ptr b (j + n - 1)"
    "PREV_BLKP s (ptr b j) = Some (ptr b (j - p))" "FTRP s (ptr b (j - p)) = Some (ptr b (j - 2))"
    "NEXT_BLKP s (ptr b j) = Some (ptr b (j + n))" "FTRP s (ptr b j) = Some (ptr b (j + n - 2))"
    "GET_ALLOC s (ptr b (j - 2)) = Some (if pa then 1 else 0)"
    "GET_ALLOC s (ptr b (j + n - 1)) = Some (if qa then 1 else 0)"
    "GET_SIZE s (ptr b (j - 1)) = Some (bsize n)"
    "GET_SIZE s (ptr b (j - p - 1)) = Some (bsize p)"
    "GET_SIZE s (ptr b (j + n - 1)) = Some (bsize q)"
    "\<not> qa \<Longrightarrow> FTRP s (ptr b (j + n)) = Some (ptr b (j + n + q - 2))"
    "\<not> qa \<Longrightarrow> GET_SIZE s (ptr b (j + n + q - 2)) = Some (bsize q)"
  using nbhdD [OF N] b by (simp_all add: blk_macros ptr_simps heap_exec)

section \<open>Retagging\<close>

lemma heap_blocks_retag_free:
  assumes H: "heap_blocks s pn (xs @ mid @ ys)" and i: "i = pn + 2 + twords xs"
    and m: "twords mid = m" "even m" "4 \<le> m"
  shows "heap_blocks (put_word (put_word s (i - 1) (hdr m False)) (i + m - 2) (hdr m False)) pn (xs @ Free m # ys)"
    and "heap_blocks (put_word (put_word s (i + m - 2) (hdr m False)) (i - 1) (hdr m False)) pn (xs @ Free m # ys)"
proof -
  have lt: "i - 1 < HEAPW" "i + m - 2 < HEAPW" and "2 \<le> i"
    using heap_blocksD(10) [OF H] i m by simp_all
  have "heap_blocks s' pn (xs @ [Free m] @ ys)"
    if "geom s' = geom s" "mem_start_brk s' = mem_start_brk s" "mem_brk s' = mem_brk s"
      "hw s' = (hw s)(i - 1 := hdr m False, i + m - 2 := hdr m False)" for s' :: "'a mem_scheme"
    using H heap_blocksD(1) [OF H] i m that \<open>2 \<le> i\<close>
    by (intro heap_blocks_replace [OF H]) (auto simp: blk_at_def)
  from this [of "put_word (put_word s (i - 1) (hdr m False)) (i + m - 2) (hdr m False)"]
    this [of "put_word (put_word s (i + m - 2) (hdr m False)) (i - 1) (hdr m False)"]
  show "heap_blocks (put_word (put_word s (i - 1) (hdr m False)) (i + m - 2) (hdr m False)) pn (xs @ Free m # ys)"
    and "heap_blocks (put_word (put_word s (i + m - 2) (hdr m False)) (i - 1) (hdr m False)) pn (xs @ Free m # ys)"
    using lt m \<open>2 \<le> i\<close> by (simp_all add: hw_put_word fun_upd_twist)
qed

text \<open>Retagging \<open>m\<close> words from \<open>i\<close> on changes no word outside them.\<close>

lemma retag_frame:
  assumes "2 \<le> i" "4 \<le> m" "i + m \<le> HEAPW" "Suc k < i \<or> i + m \<le> Suc k"
  shows "hw (put_word (put_word s (i - 1) v) (i + m - 2) w) k = hw s k"
    and "hw (put_word (put_word s (i + m - 2) v) (i - 1) w) k = hw s k"
proof -
  have "k \<noteq> i - 1" "k \<noteq> i + m - 2" "i - 1 < HEAPW" "i + m - 2 < HEAPW" using assms by linarith+
  then show "hw (put_word (put_word s (i - 1) v) (i + m - 2) w) k = hw s k"
    and "hw (put_word (put_word s (i + m - 2) v) (i - 1) w) k = hw s k"
    by (simp_all add: hw_put_word)
qed

lemma Suc_Suc_minus2 [simp]: "2 \<le> n \<Longrightarrow> Suc (Suc (n - 2)) = n"
  by simp

lemma blk_at_used:
  assumes "h' (j - 1) = hdr (m + 2) True" "h' (j + m) = hdr (m + 2) True"
    and "\<And>k. k < m \<Longrightarrow> h' (j + k) = h (j + k)"
  shows "blk_at h' j (Used (map h [j..<j + m]))"
  using assms by (simp add: blk_at_def del: upt_Suc)

lemma blk_at_free:
  "h (j - 1) = hdr n False \<Longrightarrow> h (j + n - 2) = hdr n False \<Longrightarrow> blk_at h j (Free n)"
  by (simp add: blk_at_def)

lemma heap_blocks_retag_used:
  assumes H: "heap_blocks s pn (xs @ b # ys)" and i: "i = pn + 2 + twords xs" and m: "m = bwords b"
  shows "heap_blocks (put_word (put_word s (i - 1) (hdr m True)) (i + m - 2) (hdr m True)) pn
      (xs @ Used (map (hw s) [i..<i + m - 2]) # ys)"
proof -
  let ?s = "put_word (put_word s (i - 1) (hdr m True)) (i + m - 2) (hdr m True)"
  note V = heap_block_view(6,8,9,10) [OF H i, folded m]
  define l k where "l = i - 2" and "k = m - 2"
  then have ik: "i = l + 2" "m = k + 2" using V(1,3) by simp_all
  have hws: "hw ?s = (hw s)(l + 1 := hdr (k + 2) True, l + k + 2 := hdr (k + 2) True)"
    using V(4) by (simp add: hw_put_word ik)
  have "heap_blocks s pn (xs @ [b] @ ys)" using H by simp
  then have "heap_blocks ?s pn (xs @ [Used (map (hw s) [i..<i + k])] @ ys)"
  proof (rule heap_blocks_replace)
    have "blk_at (hw ?s) i (Used (map (hw s) [i..<i + k]))"
      unfolding hws by (rule blk_at_used) (simp_all add: ik)
    then show "tags (hw ?s) i [Used (map (hw s) [i..<i + k])]" by simp
    show "hw ?s j = hw s j" if "Suc j < i \<or> i + twords [b] \<le> Suc j" for j
      unfolding hws using that by (auto simp: ik simp flip: m)
  qed (use V heap_blocksD(1) [OF H] i ik in \<open>simp_all flip: m\<close>)
  then show ?thesis by (simp add: ik)
qed

lemma heap_blocks_split:
  assumes H: "heap_blocks s pn (xs @ Free n # ys)" and i: "i = pn + 2 + twords xs"
    and m: "even m" "4 \<le> m" "m + 4 \<le> n"
  shows "heap_blocks (put_word (put_word (put_word (put_word s (i - 1) (hdr m True)) (i + m - 2) (hdr m True))
      (i + m - 1) (hdr (n - m) False)) (i + n - 2) (hdr (n - m) False)) pn
      (xs @ Used (map (hw s) [i..<i + m - 2]) # Free (n - m) # ys)"
proof -
  let ?s = "put_word (put_word (put_word (put_word s (i - 1) (hdr m True)) (i + m - 2) (hdr m True))
      (i + m - 1) (hdr (n - m) False)) (i + n - 2) (hdr (n - m) False)"
  note V = heap_block_view(6,8,9,10) [OF H i, simplified]
  define l k r where "l = i - 2" and "k = m - 2" and "r = n - m - 2"
  then have ik: "i = l + 2" "m = k + 2" "n = k + r + 4" using V(1) m by simp_all
  have hws: "hw ?s = (hw s)(l + 1 := hdr (k + 2) True, l + k + 2 := hdr (k + 2) True,
      l + k + 3 := hdr (r + 2) False, l + k + r + 4 := hdr (r + 2) False)"
    using V(4) by (simp add: hw_put_word ik eval_nat_numeral add.assoc)
  have "heap_blocks s pn (xs @ [Free n] @ ys)" using H by simp
  then have "heap_blocks ?s pn (xs @ [Used (map (hw s) [i..<i + k]), Free (n - m)] @ ys)"
  proof (rule heap_blocks_replace)
    have "blk_at (hw ?s) i (Used (map (hw s) [i..<i + k]))"
      unfolding hws by (rule blk_at_used) (simp_all add: ik)
    moreover have "blk_at (hw ?s) (i + k + 2) (Free (n - m))"
      unfolding hws by (rule blk_at_free) (simp_all add: ik)
    ultimately show "tags (hw ?s) i [Used (map (hw s) [i..<i + k]), Free (n - m)]" by simp
    show "\<forall>b \<in> set [Used (map (hw s) [i..<i + k]), Free (n - m)]. wf_blk b"
      using V m ik by simp
    show "hw ?s j = hw s j" if "Suc j < i \<or> i + twords [Free n] \<le> Suc j" for j
      unfolding hws using that by (auto simp: ik)
  qed (use V m heap_blocksD(1) [OF H] i ik in simp_all)
  then show ?thesis by (simp add: ik)
qed

section \<open>Coalescing\<close>

text \<open>
  The frame of every allocator operation: only the break and the bytes of the storage change,
  never the bounds of the storage or the allocator's own variables.
\<close>

definition only_heap :: "'a mem_scheme \<Rightarrow> 'a mem_scheme \<Rightarrow> bool" where
  "only_heap s s' \<longleftrightarrow> s'\<lparr>mem_brk := 0, bytes := (\<lambda>_. 0)\<rparr> = s\<lparr>mem_brk := 0, bytes := (\<lambda>_. 0)\<rparr>"

lemma only_heap_refl [simp]: "only_heap s s"
  by (simp add: only_heap_def)

lemma only_heap_trans: "only_heap s s' \<Longrightarrow> only_heap s' s'' \<Longrightarrow> only_heap s s''"
  by (simp add: only_heap_def)

lemma only_heap_simps [simp]:
  "only_heap s (put_word s' i v) \<longleftrightarrow> only_heap s s'"
  "only_heap s (s'\<lparr>mem_brk := b\<rparr>) \<longleftrightarrow> only_heap s s'"
  "only_heap s (s'\<lparr>bytes := m\<rparr>) \<longleftrightarrow> only_heap s s'"
  by (simp_all add: only_heap_def put_word_def)

lemma only_heap_left [simp]:
  "only_heap (put_word s i v) s' \<longleftrightarrow> only_heap s s'"
  "only_heap (s\<lparr>mem_brk := b\<rparr>) s' \<longleftrightarrow> only_heap s s'"
  "only_heap (s\<lparr>bytes := m\<rparr>) s' \<longleftrightarrow> only_heap s s'"
  by (simp_all add: only_heap_def put_word_def)

lemma only_heap_bounds:
  assumes "only_heap s s'"
  shows "mem_start_brk s' = mem_start_brk s" "mem_max_addr s' = mem_max_addr s"
  using assms [unfolded only_heap_def, THEN arg_cong, of mem_start_brk]
    assms [unfolded only_heap_def, THEN arg_cong, of mem_max_addr] by simp_all

definition join_prev :: "blk list \<Rightarrow> nat \<Rightarrow> blk list \<times> nat" where
  "join_prev xs n = (if prev_used xs then (xs, n) else (butlast xs, bwords (last xs) + n))"

definition join_next :: "nat \<Rightarrow> blk list \<Rightarrow> nat \<times> blk list" where
  "join_next n ys = (if next_used ys then (n, ys) else (n + bwords (hd ys), tl ys))"

definition coalesced :: "blk list \<Rightarrow> nat \<Rightarrow> blk list \<Rightarrow> blk list \<times> nat \<times> blk list" where
  "coalesced xs n ys = (let (xs', m) = join_prev xs n; (k, ys') = join_next m ys in (xs', k, ys'))"

lemma not_is_used: "\<not> is_used b \<Longrightarrow> \<exists>n. b = Free n"
  by (cases b) simp_all

lemma not_prev_used: "\<not> prev_used xs \<Longrightarrow> \<exists>zs p. xs = zs @ [Free p]"
  by (cases xs rule: rev_cases) (auto simp: prev_used_def dest: not_is_used)

lemma not_next_used: "\<not> next_used ys \<Longrightarrow> \<exists>q zs. ys = Free q # zs"
  by (cases ys) (auto simp: next_used_def dest: not_is_used)

lemma coalesced_simps:
  "prev_used xs \<Longrightarrow> next_used ys \<Longrightarrow> coalesced xs n ys = (xs, n, ys)"
  "prev_used xs \<Longrightarrow> coalesced xs n (Free q # ys) = (xs, n + q, ys)"
  "next_used ys \<Longrightarrow> coalesced (xs @ [Free p]) n ys = (xs, p + n, ys)"
  "coalesced (xs @ [Free p]) n (Free q # ys) = (xs, p + n + q, ys)"
  by (simp_all add: coalesced_def join_prev_def join_next_def prev_used_def next_used_def)

lemma twords_coalesced:
  assumes c: "coalesced xs n ys = (xs', m, ys')"
  shows "twords (xs' @ Free m # ys') = twords xs + n + twords ys"
proof -
  consider (TT) "prev_used xs" "next_used ys" | (TF) q zs where "prev_used xs" "ys = Free q # zs"
    | (FT) p us where "xs = us @ [Free p]" "next_used ys"
    | (FF) p us q zs where "xs = us @ [Free p]" "ys = Free q # zs"
    using not_prev_used [of xs] not_next_used [of ys] by blast
  then show ?thesis by cases (use c in \<open>simp_all add: coalesced_simps\<close>)
qed

text \<open>Coalescing at every free keeps free blocks from ever being neighbours.\<close>

fun spaced :: "blk list \<Rightarrow> bool" where
  "spaced (x # y # zs) \<longleftrightarrow> (is_used x \<or> is_used y) \<and> spaced (y # zs)"
| "spaced _ \<longleftrightarrow> True"

lemma spaced_Cons: "spaced (x # ys) \<longleftrightarrow> (is_used x \<or> next_used ys) \<and> spaced ys"
  by (cases ys) (auto simp: next_used_def)

lemma spaced_append: "spaced (xs @ ys) \<longleftrightarrow> spaced xs \<and> spaced ys \<and> (prev_used xs \<or> next_used ys)"
proof (induction xs)
  case (Cons x xs)
  have "next_used (xs @ ys) \<longleftrightarrow> (if xs = [] then next_used ys else next_used xs)"
    by (cases xs) (simp_all add: next_used_def)
  moreover have "prev_used (x # xs) \<longleftrightarrow> (if xs = [] then is_used x else prev_used xs)"
    by (auto simp: prev_used_def)
  ultimately show ?case
    using Cons by (auto simp: spaced_Cons next_used_def)
qed (simp add: prev_used_def)

lemma spaced_middle:
  "spaced (xs @ Free n # ys) \<longleftrightarrow> spaced xs \<and> spaced ys \<and> prev_used xs \<and> next_used ys"
  "spaced (xs @ Used ws # ys) \<longleftrightarrow> spaced xs \<and> spaced ys"
  by (auto simp: spaced_append spaced_Cons next_used_def)

lemma spaced_coalesced:
  assumes "spaced xs" "spaced ys" "coalesced xs n ys = (xs', m, ys')"
  shows "spaced (xs' @ Free m # ys')"
proof -
  consider (TT) "prev_used xs" "next_used ys" | (TF) q zs where "prev_used xs" "ys = Free q # zs"
    | (FT) p us where "xs = us @ [Free p]" "next_used ys"
    | (FF) p us q zs where "xs = us @ [Free p]" "ys = Free q # zs"
    using not_prev_used [of xs] not_next_used [of ys] by blast
  then show ?thesis
    by cases (use assms in \<open>auto simp: coalesced_simps spaced_middle spaced_Cons\<close>)
qed

section \<open>Sizes by index, and the blocks a merge takes\<close>

definition block_words :: "nat \<Rightarrow> blk list \<Rightarrow> nat \<Rightarrow> nat" where
  "block_words j bs i = (case map_of (starts j bs) i of Some b \<Rightarrow> bwords b | None \<Rightarrow> 0)"

lemma map_of_starts:
  "\<forall>c \<in> set xs. wf_blk c \<Longrightarrow> map_of (starts j (xs @ b # ys)) (j + twords xs) = Some b"
proof (induction xs arbitrary: j)
  case (Cons c xs)
  then have "0 < bwords c" by (simp add: wf_blk_def)
  then show ?case using Cons.IH [of "j + bwords c"] Cons.prems by (simp add: add.assoc)
qed simp

lemma block_words_middle:
  "\<forall>c \<in> set xs. wf_blk c \<Longrightarrow> block_words j (xs @ b # ys) (j + twords xs) = bwords b"
  by (simp add: block_words_def map_of_starts)

text \<open>Exchanging a stretch of blocks keeps the sizes of the blocks outside it.\<close>

lemma block_words_replace:
  assumes w: "\<forall>c \<in> set (xs @ mid @ new). wf_blk c" and t: "twords new = twords mid"
    and k: "k \<in> set (frees j xs) \<or> k \<in> set (frees (j + twords xs + twords mid) ys)"
  shows "block_words j (xs @ new @ ys) k = block_words j (xs @ mid @ ys) k"
  using k
proof
  assume "k \<in> set (frees j xs)"
  then obtain us n vs where "xs = us @ Free n # vs" "k = j + twords us" using frees_split by blast
  then show ?thesis
    using w block_words_middle [of us j "Free n" "vs @ new @ ys"] block_words_middle [of us j "Free n" "vs @ mid @ ys"]
    by simp
next
  assume "k \<in> set (frees (j + twords xs + twords mid) ys)"
  then obtain us n vs where ys: "ys = us @ Free n # vs" and k: "k = j + twords xs + twords mid + twords us"
    using frees_split by blast
  have m: "map_of (starts i (zs @ us')) l = map_of (starts (i + twords zs) us') l"
    if "\<forall>c \<in> set zs. wf_blk c" "i + twords zs \<le> l" for i l zs us'
    using that
  proof (induction zs arbitrary: i)
    case (Cons z zs)
    then have "i \<noteq> l" by (auto simp: wf_blk_def)
    with Cons show ?case by (simp add: add.assoc)
  qed simp
  show ?thesis
    using m [of "xs @ new" j k ys] m [of "xs @ mid" j k ys] w k t
    by (simp add: block_words_def add.assoc ball_Un)
qed

text \<open>Payloads do not matter.\<close>

lemma block_words_payload:
  "length us = length ws \<Longrightarrow> block_words j (xs @ Used us # ys) i = block_words j (xs @ Used ws # ys) i"
  by (induction xs arbitrary: j) (simp_all add: block_words_def)

text \<open>What \<open>coalesced\<close> takes from both sides.\<close>

lemma coalesced_split:
  assumes c: "coalesced xs n ys = (xs', m, ys')"
  shows "xs = xs' @ (if prev_used xs then [] else [Free (prev_words pn xs)])"
    and "ys = (if next_used ys then [] else [Free (next_words ys)]) @ ys'"
    and "m = (if prev_used xs then 0 else prev_words pn xs) + n + (if next_used ys then 0 else next_words ys)"
proof -
  consider (TT) "prev_used xs" "next_used ys" | (TF) q zs where "prev_used xs" "ys = Free q # zs"
    | (FT) p us where "xs = us @ [Free p]" "next_used ys"
    | (FF) p us q zs where "xs = us @ [Free p]" "ys = Free q # zs"
    using not_prev_used [of xs] not_next_used [of ys] by blast
  then have "xs = xs' @ (if prev_used xs then [] else [Free (prev_words pn xs)])
    \<and> ys = (if next_used ys then [] else [Free (next_words ys)]) @ ys'
    \<and> m = (if prev_used xs then 0 else prev_words pn xs) + n + (if next_used ys then 0 else next_words ys)"
    by cases (use c in \<open>simp_all add: coalesced_simps prev_used_def next_used_def prev_words_def next_words_def\<close>)
  then show "xs = xs' @ (if prev_used xs then [] else [Free (prev_words pn xs)])"
    and "ys = (if next_used ys then [] else [Free (next_words ys)]) @ ys'"
    and "m = (if prev_used xs then 0 else prev_words pn xs) + n + (if next_used ys then 0 else next_words ys)"
    by simp_all
qed

section \<open>The break\<close>

lemma mem_sbrk_ptr:
  assumes "geom s" "mem_brk s = ptr (mem_start_brk s) m" "m \<le> HEAPW" "n < 2 ^ 30"
    and "unat (mem_max_addr s) + 4 * n < 2 ^ 32"
  shows "mem_sbrk s (bsize n) =
    (if m + n \<le> HEAPW then (ptr (mem_start_brk s) m, s\<lparr>mem_brk := ptr (mem_start_brk s) (m + n)\<rparr>)
     else (- 1, s))"
proof -
  have sint: "sint (bsize n) < 0 \<longleftrightarrow> 2 ^ 29 \<le> n"
  proof (cases "n < 2 ^ 29")
    case True
    then have "sint (bsize n) = int (4 * n)"
      unfolding bsize_def signed_of_nat by (simp add: signed_take_bit_int_eq_self)
    with True show ?thesis by simp
  next
    case False
    then have "int (4 * n) div 2 ^ 31 = 1" using assms(4) by simp
    then have "bit (int (4 * n)) 31" by (simp add: bit_iff_odd del: of_nat_mult)
    then have "sint (bsize n) = int (4 * n) - 2 ^ 32"
      using False assms(4) unfolding bsize_def signed_of_nat
      by (simp add: signed_take_bit_eq_take_bit_minus take_bit_int_eq_self del: of_nat_mult)
    with False assms(4) show ?thesis by simp
  qed
  have "unat (ptr (mem_start_brk s) (m + n)) = unat (mem_start_brk s) + 4 * (m + n)"
    unfolding ptr_def using assms(1,3,5) unat_max_addr [OF assms(1)]
    by (intro unat_add_of_nat32) (simp add: HEAPW_eq MAX_HEAP_def)
  then have "mem_brk s + bsize n > mem_max_addr s \<longleftrightarrow> \<not> m + n \<le> HEAPW"
    using unat_max_addr [OF assms(1)]
    by (auto simp: assms(2) ptr_simps word_less_nat_alt HEAPW_eq MAX_HEAP_def)
  with sint show ?thesis
    by (auto simp: mem_sbrk_def assms(2) ptr_simps HEAPW_eq)
qed

lemma ptr_not_m1:
  assumes "geom s" "i \<le> HEAPW"
  shows "ptr (mem_start_brk s) i \<noteq> - 1"
proof
  assume "ptr (mem_start_brk s) i = - 1"
  then have "ptr (mem_start_brk s) i + of_nat 1 = 0" by simp
  with unat_add_of_nat32 [of "ptr (mem_start_brk s) i" 1] unat_ptr [OF assms(1), of i] assms
  show False by (auto simp: geom_def HEAPW_eq MAX_HEAP_def elim!: dvdE)
qed

lemma geom_brk:
  assumes g: "geom s" and m: "m \<le> HEAPW"
  shows "geom (s\<lparr>mem_brk := ptr (mem_start_brk s) m\<rparr>)"
proof -
  have m': "4 * m \<le> MAX_HEAP" using m by (simp add: HEAPW_eq MAX_HEAP_def)
  have "mem_start_brk s \<le> ptr (mem_start_brk s) m" "ptr (mem_start_brk s) m \<le> mem_max_addr s"
    using m' by (simp_all add: word_le_nat_alt unat_ptr [OF g m'] unat_max_addr [OF g])
  with g show ?thesis by (simp add: geom_def)
qed

lemma hw_brk [simp]: "hw (s\<lparr>mem_brk := x\<rparr>) = hw s"
  by (rule ext) (simp add: hw_def)

lemma bsize_div_WSIZE: "n < 2 ^ 30 \<Longrightarrow> bsize n div WSIZE = of_nat n"
  by (rule word_unat_eq_iff [THEN iffD2]) (simp add: unat_div unat_bsize unat_of_nat32 WSIZE_def)

lemma of_nat_odd_word: "n < 2 ^ 30 \<Longrightarrow> (of_nat n :: 32 word) mod 2 \<noteq> 0 \<longleftrightarrow> odd n"
  by (simp add: word_unat_eq_iff unat_mod unat_of_nat32 odd_iff_mod_2_eq_one)

text \<open>Rounding an even number of words up to an even number of words is the identity.\<close>

lemma even_words_size:
  "even n \<Longrightarrow> n < 2 ^ 30 \<Longrightarrow>
   (if (bsize n div WSIZE) mod 2 \<noteq> 0 then (bsize n div WSIZE + 1) * WSIZE
    else bsize n div WSIZE * WSIZE) = bsize n"
  by (simp only: bsize_div_WSIZE of_nat_odd_word) (simp add: bsize_def WSIZE_def)

lemma heap_blocks_extend:
  assumes H: "heap_blocks s pn bs" and e: "e = pn + 2 + twords bs"
    and n: "even n" "4 \<le> n" "e + n \<le> HEAPW"
  shows "heap_blocks (put_word (put_word (put_word (s\<lparr>mem_brk := ptr (mem_start_brk s) (e + n)\<rparr>)
      (e - 1) (hdr n False)) (e + n - 2) (hdr n False)) (e + n - 1) (hdr 0 True)) pn (bs @ [Free n])"
    (is "heap_blocks ?s' pn _")
proof -
  note D = heap_blocksD [OF H]
  have hws: "hw ?s' = (hw s)(e - 1 := hdr n False, e + n - 2 := hdr n False, e + n - 1 := hdr 0 True)"
    using n by (simp add: hw_put_word)
  have "tags (hw ?s') (pn + 2) bs \<longleftrightarrow> tags (hw s) (pn + 2) bs"
    unfolding hws using D(9) e n(2) by (intro tags_cong) auto
  moreover have "blk_at (hw ?s') e (Free n)"
    unfolding hws using e n(2) by (intro blk_at_free) auto
  moreover have "geom ?s'"
    using geom_brk [OF D(1) n(3)] by simp
  moreover have "hw ?s' 1 = hdr pn True" "hw ?s' pn = hdr pn True"
    unfolding hws using D(3-5) e n(2) by auto
  moreover have "hw ?s' (pn + 1 + twords (bs @ [Free n])) = hdr 0 True"
    unfolding hws using e n(2) by simp
  ultimately show ?thesis
    using D e n by (simp add: heap_blocks_def ball_Un ac_simps)
qed

end
