(* ===== verification/Requests.thy ===== *)
theory Requests
  imports Block_Updates
begin

text \<open>
  What the list allocators make of a request: the rounded block size, the first-fit search as a
  function of the block list, and the split of the block that is found.
\<close>

section \<open>Requests\<close>

definition req_words :: "addr \<Rightarrow> nat" where
  "req_words sz = 2 * ((unat sz + 15) div 8)"

lemma req_words_facts:
  assumes "0 < sz"
  shows "even (req_words sz)" "4 \<le> req_words sz" "unat sz + 8 \<le> 4 * req_words sz" "4 * req_words sz \<le> unat sz + 15"
proof -
  have "1 \<le> unat sz" using assms by (simp add: word_less_nat_alt)
  then show "even (req_words sz)" "4 \<le> req_words sz" "unat sz + 8 \<le> 4 * req_words sz" "4 * req_words sz \<le> unat sz + 15"
    by (simp_all add: req_words_def)
qed

lemma asize_eq:
  assumes "0 < sz" "unat sz + 15 < 2 ^ 32"
  shows "(if sz \<le> DSIZE then 2 * DSIZE else DSIZE * ((sz + DSIZE + (DSIZE - 1)) div DSIZE)) = bsize (req_words sz)"
proof (cases "sz \<le> DSIZE")
  case True
  then have "1 \<le> unat sz" "unat sz \<le> 8" using assms by (simp_all add: word_less_nat_alt word_le_nat_alt DSIZE_def)
  then have "(unat sz + 15) div 8 = 2" by arith
  with True show ?thesis by (simp add: req_words_def bsize_def DSIZE_def)
next
  case False
  have "sz + DSIZE + (DSIZE - 1) = of_nat (unat sz + 15)" by (simp add: DSIZE_def)
  moreover have "(of_nat (unat sz + 15) :: addr) div DSIZE = of_nat ((unat sz + 15) div 8)"
    using assms(2) by (intro word_unat_eq_iff [THEN iffD2])
      (simp add: unat_div unat_of_nat32 DSIZE_def del: of_nat_add)
  ultimately show ?thesis using False
    by (simp add: req_words_def bsize_def DSIZE_def add.commute)
qed

lemma ALIGN_eq:
  assumes "unat sz + 15 < 2 ^ 32"
  shows "ALIGN (sz + DSIZE) = bsize (req_words sz)"
proof -
  have "ALIGN (sz + DSIZE) = (sz + 15) AND NOT (mask 3)"
    by (simp add: ALIGN_def DSIZE_def mask_eq_exp_minus_1 add.commute)
  also have "\<dots> = push_bit 3 (drop_bit 3 (sz + 15))" by (rule bit_word_eqI) (auto simp: bit_simps)
  also have "\<dots> = of_nat (8 * (unat (sz + 15) div 8))"
  proof -
    have "drop_bit 3 (sz + 15) = of_nat (unat (sz + 15) div 8)"
      by (rule word_unat_eq_iff [THEN iffD2])
        (use unat_lt32 [of "sz + 15"] in \<open>simp add: unat_drop_bit_eq drop_bit_eq_div unat_div unat_of_nat32\<close>)
    then show ?thesis by (simp add: push_bit_eq_mult)
  qed
  also have "unat (sz + 15) = unat sz + 15"
    using assms unat_add_of_nat32 [of sz 15] by simp
  finally show ?thesis by (simp add: bsize_def req_words_def)
qed

lemma MAX_CHUNKSIZE: "m < 2 ^ 30 \<Longrightarrow> MAX_C (bsize m) CHUNKSIZE = bsize (max m 1024)"
proof -
  assume m: "m < 2 ^ 30"
  have c: "CHUNKSIZE = bsize 1024" by (simp add: CHUNKSIZE_def bsize_def push_bit_eq_mult)
  have "bsize m \<le> bsize 1024 \<longleftrightarrow> m \<le> 1024" using m by (intro bsize_le_iff) simp_all
  then show ?thesis by (simp add: MAX_C_def c max_def not_le [symmetric])
qed

definition request_fits :: "'a mem_scheme \<Rightarrow> addr \<Rightarrow> bool" where
  "request_fits s sz \<longleftrightarrow> unat (mem_max_addr s) + unat sz + 4112 < 2 ^ 32"

lemma request_fitsD:
  assumes "request_fits s sz" "0 < sz"
  shows "unat sz + 15 < 2 ^ 32" "req_words sz < 2 ^ 30"
    "max (req_words sz) 1024 < 2 ^ 30" "unat (mem_max_addr s) + 4 * max (req_words sz) 1024 < 2 ^ 32"
  using assms(1) req_words_facts [OF assms(2)] by (auto simp: request_fits_def max_def)

section \<open>First fit\<close>

lemma bsize_pos: "0 < n \<Longrightarrow> n < 2 ^ 30 \<Longrightarrow> 0 < bsize n"
  by (simp add: word_less_nat_alt unat_bsize)

primrec first_fit :: "nat \<Rightarrow> nat \<Rightarrow> blk list \<Rightarrow> nat option" where
  "first_fit m j [] = None"
| "first_fit m j (b # bs) =
     (if \<not> is_used b \<and> m \<le> bwords b then Some j else first_fit m (j + bwords b) bs)"

lemma first_fit_Some:
  "first_fit m j bs = Some i \<Longrightarrow> \<exists>xs n ys. bs = xs @ Free n # ys \<and> i = j + twords xs \<and> m \<le> n"
proof (induction bs arbitrary: j)
  case (Cons b bs)
  show ?case
  proof (cases "\<not> is_used b \<and> m \<le> bwords b")
    case True
    with Cons.prems show ?thesis by (cases b) (auto intro: exI [of _ "[]"])
  next
    case False
    with Cons.prems have "first_fit m (j + bwords b) bs = Some i" by simp
    then obtain xs n ys where "bs = xs @ Free n # ys" "i = j + bwords b + twords xs" "m \<le> n"
      using Cons.IH by blast
    then show ?thesis by (intro exI [of _ "b # xs"] exI [of _ n] exI [of _ ys]) simp
  qed
qed simp

lemma first_fit_None: "first_fit m j bs = None \<longleftrightarrow> (\<forall>n. Free n \<in> set bs \<longrightarrow> n < m)"
proof (induction bs arbitrary: j)
  case (Cons b bs)
  then show ?case by (cases b) auto
qed simp

definition opt_ptr :: "addr \<Rightarrow> nat option \<Rightarrow> addr" where
  "opt_ptr b r = (case r of None \<Rightarrow> NULL | Some i \<Rightarrow> ptr b i)"

lemma opt_ptr_simps [simp]: "opt_ptr b None = NULL" "opt_ptr b (Some i) = ptr b i"
  by (simp_all add: opt_ptr_def)

section \<open>Splitting\<close>

definition place_gets :: "nat \<Rightarrow> nat \<Rightarrow> nat" where
  "place_gets n m = (if m + 4 \<le> n then m else n)"

definition place_rest :: "nat \<Rightarrow> nat \<Rightarrow> blk list" where
  "place_rest n m = (if m + 4 \<le> n then [Free (n - m)] else [])"

lemma bsize_ge_2DSIZE: "k < 2 ^ 30 \<Longrightarrow> 2 * DSIZE \<le> bsize k \<longleftrightarrow> 4 \<le> k"
  by (simp add: word_le_nat_alt unat_bsize DSIZE_def)

lemma spaced_place:
  "spaced (xs @ Free n # ys) \<Longrightarrow> spaced (xs @ Used ws # place_rest n m @ ys)"
  by (simp add: spaced_middle place_rest_def spaced_Cons)

end
