(* ===== verification/Live_View.thy ===== *)
theory Live_View
  imports Requests
begin

text \<open>
  What a client of an allocator sees of a heap: the map from the pointers it holds to the payload
  bytes behind them. Allocation adds an entry, freeing removes one, writing through a pointer
  changes its entry; splitting, merging and growing leave the map alone.
\<close>

section \<open>The live map\<close>

primrec live :: "addr \<Rightarrow> nat \<Rightarrow> blk list \<Rightarrow> (addr \<rightharpoonup> byte list)" where
  "live b j [] = Map.empty"
| "live b j (c # bs) = (case c of
     Used ws \<Rightarrow> (live b (j + bwords c) bs)(ptr b j \<mapsto> concat (map word_bytes ws))
   | Free n \<Rightarrow> live b (j + bwords c) bs)"

lemma live_append: "live b j (xs @ ys) = live b (j + twords xs) ys ++ live b j xs"
proof (induction xs arbitrary: j)
  case (Cons c xs)
  then show ?case
    by (cases c) (auto simp: add.assoc map_add_def fun_eq_iff split: option.splits)
qed simp

lemma live_at:
  assumes "live b j bs p = Some cs"
  shows "\<exists>xs ws ys. bs = xs @ Used ws # ys \<and> p = ptr b (j + twords xs) \<and> cs = concat (map word_bytes ws)"
  using assms
proof (induction bs arbitrary: j)
  case (Cons c bs)
  show ?case
  proof (cases "\<exists>ws. c = Used ws \<and> p = ptr b j")
    case True
    then obtain ws where "c = Used ws" "p = ptr b j" by blast
    with Cons.prems show ?thesis
      by (intro exI [of _ "[]"] exI [of _ ws] exI [of _ bs]) simp
  next
    case False
    with Cons.prems have "live b (j + bwords c) bs p = Some cs" by (cases c) auto
    then obtain xs ws ys where "bs = xs @ Used ws # ys" "p = ptr b (j + bwords c + twords xs)"
      "cs = concat (map word_bytes ws)" using Cons.IH by blast
    then show ?thesis by (intro exI [of _ "c # xs"] exI [of _ ws] exI [of _ ys]) (simp add: add.assoc)
  qed
qed simp

lemma live_outside:
  assumes "i < j \<or> j + twords bs \<le> i" "i < HEAPW" "j + twords bs \<le> HEAPW" "\<forall>c \<in> set bs. wf_blk c"
  shows "live b j bs (ptr b i) = None"
proof (rule ccontr)
  assume "live b j bs (ptr b i) \<noteq> None"
  then obtain cs where "live b j bs (ptr b i) = Some cs" by blast
  from live_at [OF this] obtain xs ws ys where
    bs: "bs = xs @ Used ws # ys" and p: "ptr b i = ptr b (j + twords xs)" by blast
  have "i = j + twords xs" using p assms(2,3) bs by (subst (asm) ptr_eq_iff) auto
  with assms(1) bs show False by simp
qed

lemma live_mid:
  assumes "\<forall>c \<in> set (xs @ ys). wf_blk c" "4 \<le> n" "j + twords xs + n + twords ys \<le> HEAPW"
  shows "live b j (xs @ Free n # ys) (ptr b (j + twords xs)) = None"
    and "n = length ws + 2 \<Longrightarrow> live b j (xs @ Used ws # ys)
      = (live b j (xs @ Free n # ys))(ptr b (j + twords xs) \<mapsto> concat (map word_bytes ws))"
proof -
  have xs: "live b j xs (ptr b (j + twords xs)) = None"
    using assms by (intro live_outside) auto
  have "live b (j + twords xs + n) ys (ptr b (j + twords xs)) = None"
    using assms by (intro live_outside) auto
  with xs show "live b j (xs @ Free n # ys) (ptr b (j + twords xs)) = None"
    by (simp add: live_append map_add_def)
  from xs show "n = length ws + 2 \<Longrightarrow> live b j (xs @ Used ws # ys)
      = (live b j (xs @ Free n # ys))(ptr b (j + twords xs) \<mapsto> concat (map word_bytes ws))"
    by (auto simp: live_append map_add_def fun_eq_iff split: option.splits)
qed

lemma live_place:
  assumes "\<forall>c \<in> set (xs @ ys). wf_blk c" "4 \<le> m" "m \<le> n" "j + twords xs + n + twords ys \<le> HEAPW"
    and "length ws = place_gets n m - 2"
  shows "live b j (xs @ Used ws # place_rest n m @ ys)
      = (live b j (xs @ Free n # ys))(ptr b (j + twords xs) \<mapsto> concat (map word_bytes ws))"
proof -
  have "live b j xs (ptr b (j + twords xs)) = None"
    using assms by (intro live_outside) auto
  then show ?thesis using assms(2,3,5)
    by (cases "m + 4 \<le> n")
      (auto simp: place_gets_def place_rest_def live_append map_add_def fun_eq_iff add.assoc
          split: option.splits)
qed

lemma live_coalesced:
  assumes "coalesced xs n ys = (xs', m, ys')"
  shows "live b j (xs' @ Free m # ys') = live b j (xs @ Free n # ys)"
proof -
  consider (TT) "prev_used xs" "next_used ys" | (TF) q zs where "prev_used xs" "ys = Free q # zs"
    | (FT) p us where "xs = us @ [Free p]" "next_used ys"
    | (FF) p us q zs where "xs = us @ [Free p]" "ys = Free q # zs"
    using not_prev_used [of xs] not_next_used [of ys] by blast
  then show ?thesis
    using assms by cases (auto simp: coalesced_simps live_append add.assoc)
qed

section \<open>Writing through a live pointer\<close>

lemma unat_diff_less_iff:
  fixes a p :: addr
  assumes "unat p + n \<le> 2 ^ 32"
  shows "unat (a - p) < n \<longleftrightarrow> unat p \<le> unat a \<and> unat a < unat p + n"
proof -
  have "unat a < 2 ^ 32" using unsigned_less [of a] by simp
  with assms show ?thesis by (auto simp: unat_sub_if' split: if_splits)
qed

lemma unat_ptr_byte:
  assumes "geom s" "k < HEAPW" "l < 4"
  shows "unat (ptr (mem_start_brk s) k + of_nat l) = unat (mem_start_brk s) + 4 * k + l"
proof -
  have "4 * k + l < MAX_HEAP" using assms(2,3) by (rule ptr_add_lt)
  with assms(1) show ?thesis
    unfolding ptr_add_of_nat by (subst unat_add_of_nat32) (simp_all add: geom_def)
qed

lemma hw_agree:
  assumes g: "geom s" and m: "\<And>a. \<not> unat (a - ptr (mem_start_brk s) j) < 4 * l \<Longrightarrow> m a = bytes s a"
    and jl: "j + l \<le> HEAPW" and k: "k < j \<or> j + l \<le> k"
  shows "hw (s\<lparr>bytes := m\<rparr>) k = hw s k"
proof (cases "k < HEAPW")
  case True
  have p: "unat (ptr (mem_start_brk s) j) = unat (mem_start_brk s) + 4 * j"
    using jl by (intro unat_ptr [OF g]) (simp add: HEAPW_eq MAX_HEAP_def)
  have b: "unat (ptr (mem_start_brk s) j) + 4 * l \<le> 2 ^ 32"
    using g jl by (simp add: p geom_def HEAPW_eq MAX_HEAP_def)
  have "m (ptr (mem_start_brk s) k + of_nat i) = bytes s (ptr (mem_start_brk s) k + of_nat i)"
    if "i < 4" for i
  proof (rule m)
    have "\<not> (4 * j \<le> 4 * k + i \<and> 4 * k + i < 4 * j + 4 * l)" using k that by linarith
    then show "\<not> unat (ptr (mem_start_brk s) k + of_nat i - ptr (mem_start_brk s) j) < 4 * l"
      unfolding unat_diff_less_iff [OF b] unat_ptr_byte [OF g True that] p by linarith
  qed
  with True show ?thesis by (simp add: hw_def) (rule ld32_cong, simp)
qed (simp add: hw_def)

lemma heap_blocks_write:
  assumes H: "heap_blocks s pn (xs @ Used ws # ys)" and j: "j = pn + 2 + twords xs"
    and m: "\<And>a. \<not> unat (a - ptr (mem_start_brk s) j) < 4 * length ws \<Longrightarrow> m a = bytes s a"
  defines "s' \<equiv> s\<lparr>bytes := m\<rparr>"
  shows "heap_blocks s' pn (xs @ Used (map (hw s') [j..<j + length ws]) # ys)"
proof -
  note V = heap_block_view [OF H j]
  have g: "geom s" "geom s'" using heap_blocksD(1) [OF H] by (simp_all add: s'_def)
  have out: "hw s' k = hw s k" if "k < j \<or> j + length ws \<le> k" for k
    unfolding s'_def using V(10) that by (intro hw_agree [OF g(1) m]) auto
  have "heap_blocks s pn (xs @ [Used ws] @ ys)" using H by simp
  then have "heap_blocks s' pn (xs @ [Used (map (hw s') [j..<j + length ws])] @ ys)"
  proof (rule heap_blocks_replace)
    have "blk_at (hw s') j (Used (map (hw s') [j..<j + length ws]))"
      using V(1,2,6) out by (intro blk_at_used) simp_all
    then show "tags (hw s') j [Used (map (hw s') [j..<j + length ws])]" by simp
    show "hw s' k = hw s k" if "Suc k < j \<or> j + twords [Used ws] \<le> Suc k" for k
      by (rule out) (use that in auto)
  qed (use g V j in \<open>simp_all add: s'_def\<close>)
  then show ?thesis by simp
qed

lemma payload_bytes:
  assumes "j + n \<le> HEAPW"
  shows "concat (map word_bytes (map (hw s) [j..<j + n]))
      = map (\<lambda>k. bytes s (ptr (mem_start_brk s) j + of_nat k)) [0..<4 * n]"
proof (rule nth_equalityI)
  fix k
  assume "k < length (concat (map word_bytes (map (hw s) [j..<j + n])))"
  then have k: "k < 4 * n" unfolding length_concat_word_bytes by simp
  have "concat (map word_bytes (map (hw s) [j..<j + n])) ! k = word_bytes (hw s (j + k div 4)) ! (k mod 4)"
    using k by (subst nth_concat_word_bytes) auto
  also have "\<dots> = bytes s (ptr (mem_start_brk s) (j + k div 4) + of_nat (k mod 4))"
    using k assms by (subst byte_of_hw) auto
  also have "ptr (mem_start_brk s) (j + k div 4) + of_nat (k mod 4) = ptr (mem_start_brk s) j + of_nat k"
  proof -
    have "4 * (j + k div 4) + k mod 4 = 4 * j + k" by simp
    then show ?thesis unfolding ptr_add_of_nat by simp
  qed
  finally show "concat (map word_bytes (map (hw s) [j..<j + n])) ! k
      = map (\<lambda>k. bytes s (ptr (mem_start_brk s) j + of_nat k)) [0..<4 * n] ! k"
    using k by (simp del: upt_Suc map_map)
qed (simp only: length_concat_word_bytes, simp)

lemma payload_bytes_used:
  assumes H: "heap_blocks s pn (xs @ Used ws # ys)" and j: "j = pn + 2 + twords xs" and k: "k < 4 * length ws"
  shows "bytes s (ptr (mem_start_brk s) j + of_nat k) = concat (map word_bytes ws) ! k"
proof -
  have "\<forall>i < length ws. hw s (j + i) = ws ! i"
    using heap_blocksD(6) [OF H] j by (simp add: blk_at_def)
  then have "map (hw s) [j..<j + length ws] = ws"
    by (intro nth_equalityI) (simp_all del: upt_Suc)
  then show ?thesis
    using payload_bytes [of j "length ws" s] heap_block_view(10) [OF H j] k by simp
qed

section \<open>The client's guarantees\<close>

lemma live_in_heap:
  assumes H: "heap_blocks s pn bs" and p: "live (mem_start_brk s) (pn + 2) bs p = Some cs"
  shows "8 \<le> length cs" "8 dvd unat p" "unat (mem_start_brk s) \<le> unat p"
    "unat p + length cs + 8 \<le> unat (mem_brk s)"
    "GET_SIZE s (HDRP p) = Some (of_nat (length cs + 8))"
    "k < length cs \<Longrightarrow> bytes s (p + of_nat k) = cs ! k"
proof -
  obtain xs ws ys where bs: "bs = xs @ Used ws # ys"
    and p: "p = ptr (mem_start_brk s) (pn + 2 + twords xs)" and cs: "cs = concat (map word_bytes ws)"
    using live_at [OF p] by blast
  define j where "j = pn + 2 + twords xs"
  note H' = H [unfolded bs] and p' = p [folded j_def]
  note D = heap_blocksD [OF H'] and V = heap_block_view [OF H' j_def]
  have up: "unat p = unat (mem_start_brk s) + 4 * j"
    unfolding p' using V(10) by (intro unat_ptr D) (simp add: HEAPW_eq MAX_HEAP_def)
  have uk: "unat (mem_brk s) = unat (mem_start_brk s) + 4 * (pn + 2 + twords (xs @ Used ws # ys))"
    unfolding D(8) using D(10) by (intro unat_ptr D) (simp add: HEAPW_eq MAX_HEAP_def)
  show "8 \<le> length cs" using V(9) by (simp add: cs)
  have "8 dvd 4 * j" using V(5) by (auto elim!: evenE)
  with D(1) show "8 dvd unat p" unfolding up by (simp add: geom_def)
  show "unat (mem_start_brk s) \<le> unat p" unfolding up by simp
  show "unat p + length cs + 8 \<le> unat (mem_brk s)"
    unfolding up uk cs by (simp add: j_def)
  have e: "even (length ws + 2)" using V(8) by simp
  show "GET_SIZE s (HDRP p) = Some (of_nat (length cs + 8))"
    unfolding p' using D(1) V(1,6,10) tag_size_hdr [OF e, of True]
    by (simp add: ptr_simps heap_exec) (simp add: cs bsize_def)
  show "bytes s (p + of_nat k) = cs ! k" if "k < length cs"
    unfolding p' using payload_bytes_used [OF H' j_def, of k] that by (simp add: cs)
qed

lemma live_apart:
  assumes "live b j bs p = Some cs" "live b j bs q = Some ds" "p \<noteq> q"
    and b: "unat b + MAX_HEAP < 2 ^ 32" and "j + twords bs \<le> HEAPW"
  shows "unat p + length cs + 8 \<le> unat q \<or> unat q + length ds + 8 \<le> unat p"
  using assms(1-3,5)
proof (induction bs arbitrary: j)
  case (Cons c bs)
  have up: "unat (ptr b i) = unat b + 4 * i" if "i \<le> HEAPW" for i
    unfolding ptr_def using b that by (intro unat_add_of_nat32) (simp add: HEAPW_eq MAX_HEAP_def)
  have later: "unat b + 4 * (j + bwords c) \<le> unat r"
    if "live b (j + bwords c) bs r = Some es" for r es
    using live_at [OF that] Cons.prems(4) by (auto simp: up)
  show ?case
  proof (cases c)
    case (Free n)
    with Cons show ?thesis by simp
  next
    case (Used ws)
    have j: "unat (ptr b j) = unat b + 4 * j" using Cons.prems(4) by (simp add: up)
    have IH: "live b (j + bwords c) bs p = Some cs \<Longrightarrow> live b (j + bwords c) bs q = Some ds \<Longrightarrow> ?thesis"
      using Cons.IH Cons.prems(3,4) by simp
    have "live b (j + bwords c) bs p = Some cs \<or> p = ptr b j \<and> cs = concat (map word_bytes ws)"
      "live b (j + bwords c) bs q = Some ds \<or> q = ptr b j \<and> ds = concat (map word_bytes ws)"
      using Cons.prems(1,2) Used by (auto split: if_splits)
    then show ?thesis
      using IH later [of p cs] later [of q ds] Cons.prems(3) j Used by auto
  qed
qed simp

text \<open>The obligations of \<open>live_heap\<close>, for the heaps of every list allocator.\<close>

lemma heap_live_block:
  assumes H: "heap_blocks s pn bs" and p: "live (mem_start_brk s) (pn + 2) bs p = Some cs"
  shows "0 < length cs \<and> 8 dvd unat p
    \<and> unat (mem_start_brk s) \<le> unat p \<and> unat p + length cs \<le> unat (mem_brk s)"
  using live_in_heap(1) [OF assms] live_in_heap(2) [OF assms] live_in_heap(3) [OF assms]
    live_in_heap(4) [OF assms] by linarith

lemma heap_live_apart:
  assumes H: "heap_blocks s pn bs" and "live (mem_start_brk s) (pn + 2) bs p = Some cs"
    "live (mem_start_brk s) (pn + 2) bs q = Some ds" "p \<noteq> q"
  shows "unat p + length cs + 8 \<le> unat q \<or> unat q + length ds + 8 \<le> unat p"
proof (rule live_apart [OF assms(2-4)])
  show "unat (mem_start_brk s) + MAX_HEAP < 2 ^ 32"
    using heap_blocksD(1) [OF H] unfolding geom_def by blast
qed (rule heap_blocksD(10) [OF H])

lemma heap_live_size:
  assumes H: "heap_blocks s pn bs" and p: "live (mem_start_brk s) (pn + 2) bs p = Some cs"
  shows "GET_SIZE s (HDRP p) = Some (of_nat (length cs + 8)) \<and> unat p + length cs + 8 \<le> unat (mem_brk s)"
  using live_in_heap(4,5) [OF assms] by blast

lemma live_write:
  assumes H: "heap_blocks s pn bs" and p: "live (mem_start_brk s) (pn + 2) bs p = Some cs"
    and m: "\<And>a. \<not> unat (a - p) < length cs \<Longrightarrow> m a = bytes s a"
  shows "\<exists>bs'. heap_blocks (s\<lparr>bytes := m\<rparr>) pn bs' \<and> frees (pn + 2) bs' = frees (pn + 2) bs \<and> spaced bs' = spaced bs
    \<and> (\<forall>i \<in> set (frees (pn + 2) bs). hw (s\<lparr>bytes := m\<rparr>) i = hw s i \<and> hw (s\<lparr>bytes := m\<rparr>) (Suc i) = hw s (Suc i))
    \<and> (\<forall>i. block_words (pn + 2) bs' i = block_words (pn + 2) bs i)
    \<and> (\<forall>i < pn. hw (s\<lparr>bytes := m\<rparr>) i = hw s i)
    \<and> live (mem_start_brk s) (pn + 2) bs' = (live (mem_start_brk s) (pn + 2) bs)
        (p \<mapsto> map (\<lambda>k. m (p + of_nat k)) [0..<length cs])"
proof -
  obtain xs ws ys where bs: "bs = xs @ Used ws # ys"
    and p: "p = ptr (mem_start_brk s) (pn + 2 + twords xs)" and cs: "cs = concat (map word_bytes ws)"
    using live_at [OF p] by blast
  define j where "j = pn + 2 + twords xs"
  define s' where "s' = s\<lparr>bytes := m\<rparr>"
  define us where "us = map (hw s') [j..<j + length ws]"
  note H' = H [unfolded bs] and p' = p [folded j_def]
  note D = heap_blocksD [OF H'] and V = heap_block_view [OF H' j_def]
  have m': "\<And>a. \<not> unat (a - ptr (mem_start_brk s) j) < 4 * length ws \<Longrightarrow> m a = bytes s a"
    using m unfolding p' cs by simp
  have H1: "heap_blocks s' pn (xs @ Used us # ys)"
    unfolding s'_def us_def using heap_blocks_write [OF H' j_def m'] .
  have out: "hw s' k = hw s k" if "k < j \<or> j + length ws \<le> k" for k
    unfolding s'_def using V(10) that by (intro hw_agree [OF D(1) m']) auto
  have len: "length us = length ws" by (simp add: us_def)
  have frees: "i + 4 \<le> j \<or> j + length ws + 2 \<le> i" if "i \<in> set (frees (pn + 2) bs)" for i
    using that frees_range_wf [of i "pn + 2" xs] frees_range_wf [of i "j + length ws + 2" ys] D(9)
    by (auto simp: bs j_def add.assoc)
  have fr: "\<forall>i \<in> set (frees (pn + 2) bs). hw s' i = hw s i \<and> hw s' (Suc i) = hw s (Suc i)"
  proof
    fix i
    assume "i \<in> set (frees (pn + 2) bs)"
    from frees [OF this] have "i < j \<and> Suc i < j \<or> j + length ws \<le> i" by linarith
    then show "hw s' i = hw s i \<and> hw s' (Suc i) = hw s (Suc i)" using out by auto
  qed
  have "\<forall>i < pn. hw s' i = hw s i" using out by (simp add: j_def)
  moreover have "frees (pn + 2) (xs @ Used us # ys) = frees (pn + 2) bs"
    using len by (simp add: bs)
  moreover have "spaced (xs @ Used us # ys) = spaced bs"
    by (simp add: bs spaced_middle)
  moreover have "concat (map word_bytes us) = map (\<lambda>k. m (p + of_nat k)) [0..<length cs]"
    using payload_bytes [of j "length ws" s'] V(10) by (simp add: us_def p' cs s'_def)
  moreover have "live (mem_start_brk s) (pn + 2) (xs @ Used us # ys)
      = (live (mem_start_brk s) (pn + 2) bs)(p \<mapsto> concat (map word_bytes us))"
    using live_mid(2) [of xs ys "length ws + 2" "pn + 2" us "mem_start_brk s"]
      live_mid(2) [of xs ys "length ws + 2" "pn + 2" ws "mem_start_brk s"] D(9,10) V(9) len
    by (simp add: bs p fun_upd_def fun_eq_iff)
  ultimately show ?thesis
    using H1 fr block_words_payload [OF len] unfolding s'_def bs by (intro exI [of _ "xs @ Used us # ys"] conjI) simp_all
qed

section \<open>Effects of allocating and freeing\<close>

lemma live_alloc:
  assumes H: "heap_blocks s pn (xs @ Used ws # place_rest n m @ ys)"
    and ws: "length ws = place_gets n m - 2" and m: "4 \<le> m" "m \<le> n"
    and p: "p = ptr (mem_start_brk s) (pn + 2 + twords xs)"
  shows "p \<noteq> NULL" "live (mem_start_brk s) (pn + 2) (xs @ Free n # ys) p = None"
    "live (mem_start_brk s) (pn + 2) (xs @ Used ws # place_rest n m @ ys)
      = (live (mem_start_brk s) (pn + 2) (xs @ Free n # ys))(p \<mapsto> concat (map word_bytes ws))"
    "4 * m - 8 \<le> length (concat (map word_bytes ws))"
proof -
  note D = heap_blocksD [OF H]
  have w: "\<forall>c \<in> set (xs @ ys). wf_blk c" using D(9) by auto
  have le: "pn + 2 + twords xs + n + twords ys \<le> HEAPW"
    using D(10) ws m by (auto simp: place_gets_def place_rest_def split: if_splits)
  show "p \<noteq> NULL" unfolding p using le by (intro ptr_not_NULL D) simp
  show "live (mem_start_brk s) (pn + 2) (xs @ Free n # ys) p = None"
    unfolding p using w m le by (intro live_mid(1)) auto
  show "live (mem_start_brk s) (pn + 2) (xs @ Used ws # place_rest n m @ ys)
      = (live (mem_start_brk s) (pn + 2) (xs @ Free n # ys))(p \<mapsto> concat (map word_bytes ws))"
    unfolding p using w m le ws by (intro live_place) auto
  show "4 * m - 8 \<le> length (concat (map word_bytes ws))"
    unfolding length_concat_word_bytes ws place_gets_def using m
    by (cases "m + 4 \<le> n"; simp only: if_True if_False; linarith)
qed

lemma live_free:
  assumes H: "heap_blocks s pn (xs @ Used ws # ys)" and p: "p = ptr (mem_start_brk s) (pn + 2 + twords xs)"
    and c: "coalesced xs (length ws + 2) ys = (xs', m, ys')"
  shows "live (mem_start_brk s) (pn + 2) (xs' @ Free m # ys')
    = (live (mem_start_brk s) (pn + 2) (xs @ Used ws # ys))(p := None)"
proof -
  note D = heap_blocksD [OF H]
  have w: "\<forall>c \<in> set (xs @ ys). wf_blk c" "4 \<le> length ws + 2" using D(9) by auto
  have le: "pn + 2 + twords xs + (length ws + 2) + twords ys \<le> HEAPW" using D(10) by simp
  show ?thesis
    using live_coalesced [OF c] live_mid [OF w le] unfolding p by (auto simp: fun_eq_iff)
qed

lemma live_grow: "live b j (bs @ [Free n]) = live b j bs"
  by (simp add: live_append)

end
