(* ===== verification/Malloc_Interface.thy ===== *)
theory Malloc_Interface
  imports Live_View
begin

text \<open>
  The interfaces between the allocators and their clients. \<open>live_heap\<close> is what a client may do
  with the pointers it holds: read and write their payloads. \<open>alloc_package\<close> adds \<open>mm_init\<close>, \<open>mm_malloc\<close> and \<open>mm_free\<close>. \<open>mm_package\<close> is the contract of the
  four functions of \<open>src/mm.h\<close>, the only thing \<open>src/mdriver.c\<close> relies on. \<open>tag_allocator\<close> is what
  a boundary-tag allocator offers its own \<open>mm_realloc\<close>, which is the same code in \<open>src/mm.c\<close>,
  \<open>src/malloc/implicit-53.c\<close> and \<open>src/malloc/refer/refer.c\<close>: \<open>mm_malloc\<close>, a copy of the smaller
  of the request and the whole old block (tags included), \<open>mm_free\<close>. Every tag allocator is an
  \<open>mm_package\<close>. The last two locales add how much of the storage the operations use up,
  and that the break never falls.
\<close>

section \<open>Live payloads\<close>

locale live_heap =
  fixes repr :: "'a mem_scheme \<Rightarrow> (addr \<rightharpoonup> byte list) \<Rightarrow> bool"
  assumes live_geom: "repr s L \<Longrightarrow> geom s"
    and live_block: "repr s L \<Longrightarrow> L p = Some cs \<Longrightarrow> 0 < length cs \<and> 8 dvd unat p
      \<and> unat (mem_start_brk s) \<le> unat p \<and> unat p + length cs \<le> unat (mem_brk s)"
    and live_disjoint: "repr s L \<Longrightarrow> L p = Some cs \<Longrightarrow> L q = Some ds \<Longrightarrow> p \<noteq> q
      \<Longrightarrow> unat p + length cs \<le> unat q \<or> unat q + length ds \<le> unat p"
    and live_bytes: "repr s L \<Longrightarrow> L p = Some cs \<Longrightarrow> k < length cs \<Longrightarrow> bytes s (p + of_nat k) = cs ! k"
    and repr_write: "repr s L \<Longrightarrow> L p = Some cs
      \<Longrightarrow> (\<And>a. \<not> unat (a - p) < length cs \<Longrightarrow> m a = bytes s a)
      \<Longrightarrow> repr (s\<lparr>bytes := m\<rparr>) (L(p \<mapsto> map (\<lambda>k. m (p + of_nat k)) [0..<length cs]))"
begin

lemma live_limits:
  assumes "repr s L" "L p = Some cs"
  shows "p \<noteq> NULL" "unat p + length cs \<le> unat (mem_start_brk s) + MAX_HEAP"
    "in_storage s p (length cs)"
proof -
  have g: "geom s" using live_geom [OF assms(1)] .
  note B = live_block [OF assms]
  have le: "unat (mem_brk s) \<le> unat (mem_max_addr s)" by (rule geom_brk_le [OF g])
  show "p \<noteq> NULL" using B g by (auto simp: geom_def unat_eq_0)
  show "unat p + length cs \<le> unat (mem_start_brk s) + MAX_HEAP"
    using B le unat_max_addr [OF g] by simp
  show "in_storage s p (length cs)"
    using B le by (simp add: in_storage_def word_le_nat_alt)
qed

text \<open>What the client learns of a block it is handed: where it lies, and that it is clear of all others.\<close>

lemma handed_out:
  assumes "\<exists>p s'. r = Some (p, s') \<and> same_storage s s'
    \<and> (if p = NULL then repr s' L else L p = None \<and> (\<exists>cs. l \<le> length cs \<and> repr s' (L(p \<mapsto> cs))))"
  shows "\<exists>p s'. r = Some (p, s')
    \<and> (if p = NULL then repr s' L
       else L p = None \<and> 8 dvd unat p \<and> (\<exists>cs. l \<le> length cs \<and> repr s' (L(p \<mapsto> cs))
         \<and> unat (mem_start_brk s) \<le> unat p \<and> unat p + length cs \<le> unat (mem_brk s')
         \<and> (\<forall>q ds. L q = Some ds \<longrightarrow> unat p + length cs \<le> unat q \<or> unat q + length ds \<le> unat p)))"
proof -
  obtain p s' where m: "r = Some (p, s')" "same_storage s s'"
    and p: "if p = NULL then repr s' L else L p = None \<and> (\<exists>cs. l \<le> length cs \<and> repr s' (L(p \<mapsto> cs)))"
    using assms by blast
  show ?thesis
  proof (cases "p = NULL")
    case True
    with m p show ?thesis by simp
  next
    case False
    with p obtain cs where c: "L p = None" "l \<le> length cs" "repr s' (L(p \<mapsto> cs))" by auto
    have "unat p + length cs \<le> unat q \<or> unat q + length ds \<le> unat p" if "L q = Some ds" for q ds
      using that c(1) by (intro live_disjoint [OF c(3)]) auto
    with live_block [OF c(3), of p cs] c m False show ?thesis
      unfolding same_storage_def by (intro exI [of _ p] exI [of _ s']) auto
  qed
qed

text \<open>A client's \<open>memset\<close> of the first \<open>n\<close> bytes of a payload.\<close>

lemma memset_live:
  assumes r: "repr s L" "L p = Some cs" and n: "unat n \<le> length cs"
  shows "\<exists>s' ds. memset s p c n = Some s' \<and> repr s' (L(p \<mapsto> ds)) \<and> same_storage s s'
    \<and> length ds = length cs \<and> (\<forall>k < unat n. ds ! k = c) \<and> mem_brk s' = mem_brk s"
proof -
  let ?m = "\<lambda>a. if a - p < n then c else bytes s a"
  have "in_storage s p (unat n)" using live_limits(3) [OF r] n by (simp add: in_storage_def)
  then have "memset s p c n = Some (s\<lparr>bytes := ?m\<rparr>)" by (simp add: memset_def)
  moreover have "repr (s\<lparr>bytes := ?m\<rparr>) (L(p \<mapsto> map (\<lambda>k. ?m (p + of_nat k)) [0..<length cs]))"
    by (rule repr_write [OF r]) (use n in \<open>simp add: word_less_nat_alt\<close>)
  moreover have "\<forall>k < unat n. map (\<lambda>k. ?m (p + of_nat k)) [0..<length cs] ! k = c"
  proof (intro allI impI)
    fix k
    assume k: "k < unat n"
    then have "k < 2 ^ 32" using unat_lt32 [of n] by simp
    with k n show "map (\<lambda>k. ?m (p + of_nat k)) [0..<length cs] ! k = c"
      by (simp add: word_less_nat_alt unat_of_nat32)
  qed
  ultimately show ?thesis
    by (intro exI [of _ "s\<lparr>bytes := ?m\<rparr>"] exI [of _ "map (\<lambda>k. ?m (p + of_nat k)) [0..<length cs]"]) simp
qed

end

section \<open>Allocation\<close>

text \<open>
  \<open>mm_init\<close>, \<open>mm_malloc\<close> and \<open>mm_free\<close>. \<open>blank\<close> is what \<open>mm_init\<close> needs of the heap; a heap whose blocks have all been freed is
  blank again once the break is reset.
\<close>

locale alloc_package = live_heap repr
  for repr :: "'a mem_scheme \<Rightarrow> (addr \<rightharpoonup> byte list) \<Rightarrow> bool" +
  fixes blank :: "'a mem_scheme \<Rightarrow> bool"
    and init :: "'a mem_scheme \<Rightarrow> (int \<times> 'a mem_scheme) option"
    and malloc :: "'a mem_scheme \<Rightarrow> addr \<Rightarrow> (addr \<times> 'a mem_scheme) option"
    and free :: "'a mem_scheme \<Rightarrow> addr \<Rightarrow> 'a mem_scheme option"
  assumes init_blank: "blank s \<Longrightarrow> \<exists>s'. init s = Some (0, s') \<and> repr s' Map.empty \<and> same_storage s s'"
    and malloc_ok: "repr s L \<Longrightarrow> 0 < sz \<Longrightarrow> request_fits s sz
      \<Longrightarrow> \<exists>p s'. malloc s sz = Some (p, s') \<and> same_storage s s'
        \<and> (if p = NULL then repr s' L
           else L p = None \<and> (\<exists>cs. unat sz \<le> length cs \<and> repr s' (L(p \<mapsto> cs))))"
    and free_ok: "repr s L \<Longrightarrow> L p = Some cs
      \<Longrightarrow> \<exists>s'. free s p = Some s' \<and> same_storage s s' \<and> repr s' (L(p := None))"
    and blank_again: "repr s Map.empty \<Longrightarrow> request_fits s 0 \<Longrightarrow> blank (mem_reset_brk s)"

text \<open>The boundary-tag allocators need nothing but an empty heap.\<close>

definition blank_heap :: "'a mem_scheme \<Rightarrow> bool" where
  "blank_heap s \<longleftrightarrow> geom s \<and> mem_brk s = mem_start_brk s \<and> request_fits s 0"

lemma blank_heap_reset: "geom s \<Longrightarrow> request_fits s 0 \<Longrightarrow> blank_heap (mem_reset_brk s)"
  by (auto simp: blank_heap_def geom_def mem_reset_brk_def request_fits_def)

section \<open>The package \<open>src/mm.h\<close> promises\<close>

locale mm_package = alloc_package repr blank_heap init malloc free
  for repr :: "'a mem_scheme \<Rightarrow> (addr \<rightharpoonup> byte list) \<Rightarrow> bool"
    and init :: "'a mem_scheme \<Rightarrow> (int \<times> 'a mem_scheme) option"
    and malloc :: "'a mem_scheme \<Rightarrow> addr \<Rightarrow> (addr \<times> 'a mem_scheme) option"
    and free :: "'a mem_scheme \<Rightarrow> addr \<Rightarrow> 'a mem_scheme option" +
  fixes realloc :: "'a mem_scheme \<Rightarrow> addr \<Rightarrow> addr \<Rightarrow> (addr \<times> 'a mem_scheme) option"
  assumes realloc_ok: "repr s L \<Longrightarrow> L p = Some cs \<Longrightarrow> 0 < sz \<Longrightarrow> request_fits s sz
      \<Longrightarrow> \<exists>q s'. realloc s p sz = Some (q, s') \<and> same_storage s s'
        \<and> (if q = NULL then repr s' L
           else (L(p := None)) q = None \<and> (\<exists>ds. unat sz \<le> length ds
             \<and> take (min (unat sz) (length cs)) ds = take (min (unat sz) (length cs)) cs
             \<and> repr s' ((L(p := None))(q \<mapsto> ds))))"
begin

lemma init_ok:
  "geom s \<Longrightarrow> mem_brk s = mem_start_brk s \<Longrightarrow> request_fits s 0
    \<Longrightarrow> \<exists>s'. init s = Some (0, s') \<and> repr s' Map.empty \<and> same_storage s s'"
  by (rule init_blank) (simp add: blank_heap_def)

end

section \<open>Boundary-tag allocators\<close>

locale tag_allocator = alloc_package repr blank_heap init malloc free
  for repr :: "'a mem_scheme \<Rightarrow> (addr \<rightharpoonup> byte list) \<Rightarrow> bool"
    and init :: "'a mem_scheme \<Rightarrow> (int \<times> 'a mem_scheme) option"
    and malloc :: "'a mem_scheme \<Rightarrow> addr \<Rightarrow> (addr \<times> 'a mem_scheme) option"
    and free :: "'a mem_scheme \<Rightarrow> addr \<Rightarrow> 'a mem_scheme option" +
  fixes realloc :: "'a mem_scheme \<Rightarrow> addr \<Rightarrow> addr \<Rightarrow> (addr \<times> 'a mem_scheme) option"
  assumes tag_size: "repr s L \<Longrightarrow> L p = Some cs
      \<Longrightarrow> GET_SIZE s (HDRP p) = Some (of_nat (length cs + 8)) \<and> unat p + length cs + 8 \<le> unat (mem_brk s)"
    and tag_apart: "repr s L \<Longrightarrow> L p = Some cs \<Longrightarrow> L q = Some ds \<Longrightarrow> p \<noteq> q
      \<Longrightarrow> unat p + length cs + 8 \<le> unat q \<or> unat q + length ds + 8 \<le> unat p"
    and tag_realloc: "realloc s p sz = do {
      (q, s) \<leftarrow> malloc s sz;
      if q = NULL then Some (NULL, s)
      else do {
        n \<leftarrow> GET_SIZE s (HDRP p);
        let n = (if sz < n then sz else n);
        s \<leftarrow> memcpy s q p n;
        s \<leftarrow> free s p;
        Some (q, s) } }"
begin

text \<open>The copy in \<open>mm_realloc\<close>: it stays inside the storage, its ranges are disjoint although
  it may read the tags behind the old payload, and it carries the common prefix over.\<close>

lemma copy_live:
  assumes r: "repr s L" "L p = Some cs" "L q = Some ds" "p \<noteq> q" and sz: "unat sz \<le> length ds"
    and n: "n = (if sz < of_nat (length cs + 8) then sz else of_nat (length cs + 8))"
  shows "\<exists>s' es. memcpy s q p n = Some s' \<and> same_storage s s' \<and> repr s' (L(q \<mapsto> es))
    \<and> length es = length ds
    \<and> take (min (unat sz) (length cs)) es = take (min (unat sz) (length cs)) cs"
proof -
  note P = live_block [OF r(1,2)] and Q = live_block [OF r(1,3)] and TP = tag_size [OF r(1,2)]
  note g = live_geom [OF r(1)]
  have brk: "unat (mem_brk s) \<le> unat (mem_max_addr s)" by (rule geom_brk_le [OF g])
  have "length cs + 8 < 2 ^ 32" using TP unat_lt32 [of "mem_brk s"] by simp
  then have un: "unat n = min (unat sz) (length cs + 8)"
    using n by (auto simp: word_less_nat_alt unat_of_nat32 min_def simp del: of_nat_add)
  let ?m = "\<lambda>a. if a - q < n then bytes s (p + (a - q)) else bytes s a"
  let ?s = "s\<lparr>bytes := ?m\<rparr>" and ?es = "map (\<lambda>k. ?m (q + of_nat k)) [0..<length ds]"
  have "unat q + unat n \<le> unat (mem_max_addr s)" "unat p + unat n \<le> unat (mem_max_addr s)"
    using Q TP brk un sz by linarith+
  with P Q have "in_storage s q (unat n)" "in_storage s p (unat n)"
    by (simp_all add: in_storage_def word_le_nat_alt)
  moreover have "unat q + unat n \<le> unat p \<or> unat p + unat n \<le> unat q"
    using tag_apart [OF r(1,2,3,4)] un sz by linarith
  ultimately have "memcpy s q p n = Some ?s" by (simp add: memcpy_def)
  moreover have "repr ?s (L(q \<mapsto> ?es))"
    by (rule repr_write [OF r(1,3)]) (use un sz in \<open>simp add: word_less_nat_alt\<close>)
  moreover have "take (min (unat sz) (length cs)) ?es = take (min (unat sz) (length cs)) cs"
  proof (rule nth_equalityI)
    fix k
    assume "k < length (take (min (unat sz) (length cs)) ?es)"
    then have k: "k < unat sz" "k < length cs" "k < length ds" "k < unat n" using un by simp_all
    then have "k < 2 ^ 32" using unat_lt32 [of n] by simp
    with k have "?m (q + of_nat k) = bytes s (p + of_nat k)"
      by (simp add: word_less_nat_alt unat_of_nat32)
    then have "?m (q + of_nat k) = cs ! k" using live_bytes [OF r(1,2) k(2)] by (simp only:)
    moreover have "?es ! k = ?m (q + of_nat k)" using k(3) by simp
    ultimately show "take (min (unat sz) (length cs)) ?es ! k = take (min (unat sz) (length cs)) cs ! k"
      using k(1,2) by (simp only: nth_take min_less_iff_conj)
  qed (use sz in simp)
  ultimately show ?thesis by (intro exI [of _ ?s] exI [of _ ?es]) simp
qed

lemma realloc_copies:
  assumes r: "repr s L" "L p = Some cs" and sz: "0 < sz" "request_fits s sz"
  shows "\<exists>q s'. realloc s p sz = Some (q, s') \<and> same_storage s s'
    \<and> (if q = NULL then repr s' L
       else (L(p := None)) q = None \<and> (\<exists>ds. unat sz \<le> length ds
         \<and> take (min (unat sz) (length cs)) ds = take (min (unat sz) (length cs)) cs
         \<and> repr s' ((L(p := None))(q \<mapsto> ds))))"
proof -
  obtain q s1 where m: "malloc s sz = Some (q, s1)" "same_storage s s1"
    and q: "if q = NULL then repr s1 L else L q = None \<and> (\<exists>cs. unat sz \<le> length cs \<and> repr s1 (L(q \<mapsto> cs)))"
    using malloc_ok [OF r(1) sz] by blast
  show ?thesis
  proof (cases "q = NULL")
    case True
    with m q show ?thesis by (simp add: tag_realloc)
  next
    case False
    with q obtain ds where ds: "L q = None" "unat sz \<le> length ds" "repr s1 (L(q \<mapsto> ds))" by auto
    then have pq: "p \<noteq> q" and lp: "(L(q \<mapsto> ds)) p = Some cs" using r by auto
    let ?n = "if sz < of_nat (length cs + 8) then sz else of_nat (length cs + 8)"
    obtain s2 es where c: "memcpy s1 q p ?n = Some s2" "same_storage s1 s2"
      "repr s2 (L(q \<mapsto> es))" "length es = length ds"
      "take (min (unat sz) (length cs)) es = take (min (unat sz) (length cs)) cs"
      using copy_live [OF ds(3) lp _ pq ds(2) refl] by (simp only: fun_upd_same fun_upd_upd) blast
    have lp2: "(L(q \<mapsto> es)) p = Some cs" using lp pq by simp
    obtain s3 where f: "free s2 p = Some s3" "same_storage s2 s3" "repr s3 ((L(q \<mapsto> es))(p := None))"
      using free_ok [OF c(3) lp2] by blast
    have "GET_SIZE s1 (HDRP p) = Some (of_nat (length cs + 8))" using tag_size [OF ds(3) lp] by blast
    then have "realloc s p sz = Some (q, s3)"
      unfolding tag_realloc Let_def using m(1) False c(1) f(1) by (simp del: of_nat_add)
    moreover have "(L(q \<mapsto> es))(p := None) = (L(p := None))(q \<mapsto> es)" using pq by auto
    moreover have "same_storage s s3"
      using m(2) c(2) f(2) by (blast intro: same_storage_trans)
    moreover have "(L(p := None)) q = None" "unat sz \<le> length es" using ds c pq by auto
    ultimately show ?thesis
      using False c(5) f(3) by (intro exI [of _ q] exI [of _ s3]) (simp, blast)
  qed
qed

text \<open>A failing request leaves the old block alone, so \<open>realloc\<close> to size 0 leaks it.\<close>

lemma realloc_null: "malloc s sz = Some (NULL, s') \<Longrightarrow> realloc s p sz = Some (NULL, s')"
  by (simp add: tag_realloc)

end

sublocale tag_allocator \<subseteq> mm_package repr init malloc free realloc
  by unfold_locales (fact realloc_copies)

section \<open>Packages that use the storage sparingly\<close>

text \<open>
  \<open>room\<close> is the storage above the break. The boundary-tag allocators grow the heap by at most the larger of the rounded request
  and \<open>CHUNKSIZE\<close>, fail only when that does not fit, and never shrink it.
\<close>

definition room :: "'a mem_scheme \<Rightarrow> nat" where
  "room s = unat (mem_max_addr s) - unat (mem_brk s)"

definition need :: "addr \<Rightarrow> nat" where
  "need sz = max (unat sz + 15) 4096"

lemma room_bytes [simp]: "room (s\<lparr>bytes := m\<rparr>) = room s"
  by (simp add: room_def)

lemma memcpy_room: "memcpy s d p n = Some s' \<Longrightarrow> room s' = room s"
  by (auto simp: memcpy_def split: if_splits)

lemma memset_room: "memset s p c n = Some s' \<Longrightarrow> room s' = room s"
  by (auto simp: memset_def split: if_splits)

locale sparing_package = mm_package repr init malloc free realloc
  for repr :: "'a mem_scheme \<Rightarrow> (addr \<rightharpoonup> byte list) \<Rightarrow> bool"
    and init :: "'a mem_scheme \<Rightarrow> (int \<times> 'a mem_scheme) option"
    and malloc :: "'a mem_scheme \<Rightarrow> addr \<Rightarrow> (addr \<times> 'a mem_scheme) option"
    and free :: "'a mem_scheme \<Rightarrow> addr \<Rightarrow> 'a mem_scheme option"
    and realloc :: "'a mem_scheme \<Rightarrow> addr \<Rightarrow> addr \<Rightarrow> (addr \<times> 'a mem_scheme) option" +
  assumes init_room: "geom s \<Longrightarrow> mem_brk s = mem_start_brk s \<Longrightarrow> request_fits s 0 \<Longrightarrow> init s = Some (r, s')
      \<Longrightarrow> MAX_HEAP \<le> room s' + 4120 \<and> room s' < MAX_HEAP"
    and malloc_room: "repr s L \<Longrightarrow> 0 < sz \<Longrightarrow> request_fits s sz \<Longrightarrow> malloc s sz = Some (p, s')
      \<Longrightarrow> room s' \<le> room s \<and> room s \<le> room s' + need sz \<and> (p = NULL \<longrightarrow> room s < need sz)"
    and free_room: "repr s L \<Longrightarrow> L p = Some cs \<Longrightarrow> free s p = Some s' \<Longrightarrow> room s' = room s"
    and realloc_room: "repr s L \<Longrightarrow> L p = Some cs \<Longrightarrow> 0 < sz \<Longrightarrow> request_fits s sz \<Longrightarrow> realloc s p sz = Some (q, s')
      \<Longrightarrow> room s' \<le> room s \<and> room s \<le> room s' + need sz \<and> (q = NULL \<longrightarrow> room s < need sz)"

locale sparing_tag_allocator = tag_allocator repr init malloc free realloc
  for repr :: "'a mem_scheme \<Rightarrow> (addr \<rightharpoonup> byte list) \<Rightarrow> bool"
    and init :: "'a mem_scheme \<Rightarrow> (int \<times> 'a mem_scheme) option"
    and malloc :: "'a mem_scheme \<Rightarrow> addr \<Rightarrow> (addr \<times> 'a mem_scheme) option"
    and free :: "'a mem_scheme \<Rightarrow> addr \<Rightarrow> 'a mem_scheme option"
    and realloc :: "'a mem_scheme \<Rightarrow> addr \<Rightarrow> addr \<Rightarrow> (addr \<times> 'a mem_scheme) option" +
  assumes tag_init_room: "geom s \<Longrightarrow> mem_brk s = mem_start_brk s \<Longrightarrow> request_fits s 0 \<Longrightarrow> init s = Some (r, s')
      \<Longrightarrow> MAX_HEAP \<le> room s' + 4120 \<and> room s' < MAX_HEAP"
    and tag_malloc_room: "repr s L \<Longrightarrow> 0 < sz \<Longrightarrow> request_fits s sz \<Longrightarrow> malloc s sz = Some (p, s')
      \<Longrightarrow> room s' \<le> room s \<and> room s \<le> room s' + need sz \<and> (p = NULL \<longrightarrow> room s < need sz)"
    and tag_free_room: "repr s L \<Longrightarrow> L p = Some cs \<Longrightarrow> free s p = Some s' \<Longrightarrow> room s' = room s"
begin

lemma realloc_uses:
  assumes r: "repr s L" "L p = Some cs" and sz: "0 < sz" "request_fits s sz" and e: "realloc s p sz = Some (q, s')"
  shows "room s' \<le> room s \<and> room s \<le> room s' + need sz \<and> (q = NULL \<longrightarrow> room s < need sz)"
proof -
  obtain q0 s1 where m: "malloc s sz = Some (q0, s1)"
    and q: "if q0 = NULL then repr s1 L else L q0 = None \<and> (\<exists>cs. unat sz \<le> length cs \<and> repr s1 (L(q0 \<mapsto> cs)))"
    using malloc_ok [OF r(1) sz] by blast
  note R = tag_malloc_room [OF r(1) sz m]
  show ?thesis
  proof (cases "q0 = NULL")
    case True
    with e m R show ?thesis by (simp add: tag_realloc)
  next
    case False
    with q obtain ds where ds: "L q0 = None" "unat sz \<le> length ds" "repr s1 (L(q0 \<mapsto> ds))" by auto
    then have pq: "p \<noteq> q0" and lp: "(L(q0 \<mapsto> ds)) p = Some cs" using r by auto
    let ?n = "if sz < of_nat (length cs + 8) then sz else of_nat (length cs + 8)"
    obtain s2 es where c: "memcpy s1 q0 p ?n = Some s2" "repr s2 (L(q0 \<mapsto> es))"
      using copy_live [OF ds(3) lp _ pq ds(2) refl] by (simp only: fun_upd_same fun_upd_upd) blast
    have "GET_SIZE s1 (HDRP p) = Some (of_nat (length cs + 8))" using tag_size [OF ds(3) lp] by blast
    then have f: "free s2 p = Some s'" "q = q0"
      using e m False c(1) unfolding tag_realloc Let_def
      by (auto simp del: of_nat_add split: Option.bind_splits)
    have "room s' = room s2" by (rule tag_free_room [OF c(2) _ f(1)]) (use pq r(2) in simp)
    with R f(2) False memcpy_room [OF c(1)] show ?thesis by simp
  qed
qed

end

sublocale sparing_tag_allocator \<subseteq> sparing_package repr init malloc free realloc
  by unfold_locales (fact tag_init_room tag_malloc_room tag_free_room realloc_uses)+

end
