(* ===== verification/Driver_Ranges.thy ===== *)
theory Driver_Ranges
  imports Malloc_Interface
begin

text \<open>
  The range list of \<open>src/mdriver.c\<close>: the extents of the payloads a trace holds, kept to detect
  blocks that are misaligned, outside the heap, or overlapping. Reported errors go through
  \<open>malloc_error\<close>, which counts them and prints the line of the trace file.
\<close>

section \<open>Errors\<close>

datatype err_msg = Mm_init_failed | Mm_malloc_failed | Mm_realloc_failed | Data_not_preserved
  | Not_aligned addr | Outside_heap addr addr addr addr | Overlaps addr addr addr addr
  | Libc_malloc_failed | Libc_realloc_failed

record drv =
  errors :: nat
  printed :: "(int \<times> int \<times> err_msg) list"

definition LINENUM :: "int \<Rightarrow> int" where
  "LINENUM i = i + 5"

definition malloc_error :: "drv \<Rightarrow> int \<Rightarrow> int \<Rightarrow> err_msg \<Rightarrow> drv" where
  "malloc_error d tracenum opnum m =
     d\<lparr>errors := errors d + 1, printed := printed d @ [(tracenum, LINENUM opnum, m)]\<rparr>"

section \<open>The range list\<close>

definition ALIGNMENT :: addr where "ALIGNMENT = 8"

definition IS_ALIGNED :: "addr \<Rightarrow> bool" where
  "IS_ALIGNED p \<longleftrightarrow> p mod ALIGNMENT = 0"

type_synonym range = "addr \<times> addr"

fun overlapping :: "addr \<Rightarrow> addr \<Rightarrow> range list \<Rightarrow> range option" where
  "overlapping lo hi [] = None"
| "overlapping lo hi ((plo, phi) # rs) =
     (if lo \<ge> plo \<and> lo \<le> phi \<or> hi \<ge> plo \<and> hi \<le> phi then Some (plo, phi) else overlapping lo hi rs)"

text \<open>\<open>None\<close> is the failed \<open>assert (size > 0)\<close>; libc's \<open>malloc\<close> of the list cell is taken to succeed.\<close>

definition add_range ::
  "drv \<Rightarrow> 'a mem_scheme \<Rightarrow> range list \<Rightarrow> addr \<Rightarrow> cint \<Rightarrow> int \<Rightarrow> int \<Rightarrow> (bool \<times> drv \<times> range list) option" where
  "add_range d s rs lo sz tracenum opnum =
     (let hi = lo + sz - 1 in
      if \<not> 0 < sint sz then None
      else if \<not> IS_ALIGNED lo then
        Some (False, malloc_error d tracenum opnum (Not_aligned lo), rs)
      else if lo < mem_heap_lo s \<or> lo > mem_heap_hi s \<or> hi < mem_heap_lo s \<or> hi > mem_heap_hi s then
        Some (False, malloc_error d tracenum opnum (Outside_heap lo hi (mem_heap_lo s) (mem_heap_hi s)), rs)
      else case overlapping lo hi rs of
        Some (plo, phi) \<Rightarrow> Some (False, malloc_error d tracenum opnum (Overlaps lo hi plo phi), rs)
      | None \<Rightarrow> Some (True, d, (lo, hi) # rs))"

fun remove_range :: "range list \<Rightarrow> addr \<Rightarrow> range list" where
  "remove_range [] lo = []"
| "remove_range ((plo, phi) # rs) lo = (if plo = lo then rs else (plo, phi) # remove_range rs lo)"

definition clear_ranges :: "range list \<Rightarrow> range list" where
  "clear_ranges rs = []"

section \<open>What the checks establish\<close>

definition apart :: "range \<Rightarrow> range \<Rightarrow> bool" where
  "apart r q \<longleftrightarrow> snd r < fst q \<or> snd q < fst r"

lemma overlapping_None:
  "overlapping lo hi rs = None \<longleftrightarrow>
     (\<forall>r \<in> set rs. \<not> (fst r \<le> lo \<and> lo \<le> snd r) \<and> \<not> (fst r \<le> hi \<and> hi \<le> snd r))"
  by (induction rs) (auto split: if_splits)

lemma overlapping_Some: "overlapping lo hi rs = Some r \<Longrightarrow> r \<in> set rs"
  by (induction rs) (auto split: if_splits)

lemma overlapping_apart:
  assumes "\<forall>r \<in> set rs. apart (lo, hi) r" "lo \<le> hi"
  shows "overlapping lo hi rs = None"
  unfolding overlapping_None using assms by (fastforce simp: apart_def)

lemma set_remove_range: "distinct (map fst rs) \<Longrightarrow> set (remove_range rs lo) = {r \<in> set rs. fst r \<noteq> lo}"
  by (induction rs lo rule: remove_range.induct) auto

lemma distinct_remove_range: "distinct (map fst rs) \<Longrightarrow> distinct (map fst (remove_range rs lo))"
proof (induction rs lo rule: remove_range.induct)
  case (2 plo phi rs lo)
  then show ?case by (auto simp: set_remove_range image_iff)
qed simp

lemma IS_ALIGNED_iff: "IS_ALIGNED p \<longleftrightarrow> 8 dvd unat p"
  by (simp add: IS_ALIGNED_def ALIGNMENT_def word_unat_eq_iff unat_mod dvd_eq_mod_eq_0)

text \<open>The last byte of a range of \<open>sz\<close> bytes.\<close>

lemma unat_range_hi:
  assumes "0 < unat sz" "unat lo + unat sz < 2 ^ 32"
  shows "unat (lo + sz - 1 :: addr) = unat lo + unat sz - 1"
proof -
  have "lo + sz - 1 = lo + of_nat (unat sz - 1)"
    using assms(1) by (simp add: of_nat_diff)
  moreover have "unat (lo + of_nat (unat sz - 1)) = unat lo + (unat sz - 1)"
    using assms by (intro unat_add_of_nat32) simp
  ultimately show ?thesis using assms(1) by (simp only:)
qed

end
