(* ===== verification/Driver_Trace.thy ===== *)
theory Driver_Trace
  imports Driver_Ranges
begin

text \<open>
  Trace files of \<open>src/mdriver.c\<close>: the request types, the reader \<open>read_trace\<close> over the characters of
  the file, and the arrays a trace carries. Whether C's \<open>malloc\<close> grants a request, and what it leaves in a
  fresh array, are parameters; a read or write outside an array, the buffers \<open>type\<close> and \<open>path\<close> of \<open>MAXLINE\<close>
  characters included, is \<open>None\<close>.
\<close>

section \<open>Types\<close>

datatype optype = ALLOC | FREE | REALLOC

record traceop =
  op_type :: optype
  op_index :: cint
  op_size :: cint

record trace =
  sugg_heapsize :: cint
  num_ids :: cint
  num_ops :: cint
  weight :: cint
  ops :: "traceop list"
  blocks :: "addr list"
  block_sizes :: "addr list"

text \<open>Array accesses with an \<open>int\<close> subscript.\<close>

definition aget :: "'a list \<Rightarrow> cint \<Rightarrow> 'a option" where
  "aget xs i = (if 0 \<le> sint i \<and> sint i < int (length xs) then Some (xs ! nat (sint i)) else None)"

definition aset :: "'a list \<Rightarrow> cint \<Rightarrow> 'a \<Rightarrow> 'a list option" where
  "aset xs i x = (if 0 \<le> sint i \<and> sint i < int (length xs) then Some (xs[nat (sint i) := x]) else None)"

definition set_block :: "trace \<Rightarrow> cint \<Rightarrow> addr \<Rightarrow> trace option" where
  "set_block t i p = do { bs \<leftarrow> aset (blocks t) i p; Some (t\<lparr>blocks := bs\<rparr>) }"

definition set_block_size :: "trace \<Rightarrow> cint \<Rightarrow> addr \<Rightarrow> trace option" where
  "set_block_size t i n = do { ns \<leftarrow> aset (block_sizes t) i n; Some (t\<lparr>block_sizes := ns\<rparr>) }"

section \<open>Formatted input\<close>

text \<open>
  The conversions \<open>%s\<close>, \<open>%u\<close> and \<open>%d\<close> of \<open>fscanf\<close> on the remaining characters. A numeric
  conversion that matches no digit stores nothing (\<open>None\<close>); a number that does not fit is clamped
  as \<open>strtoul\<close> and \<open>strtol\<close> do on a 32-bit \<open>long\<close>.
\<close>

definition isspace :: "char \<Rightarrow> bool" where
  "isspace c \<longleftrightarrow> c \<in> {CHR '' '', CHR 0x09, CHR 0x0A, CHR 0x0B, CHR 0x0C, CHR 0x0D}"

definition skip_ws :: "string \<Rightarrow> string" where
  "skip_ws cs = dropWhile isspace cs"

definition scan_s :: "string \<Rightarrow> (string \<times> string) option" where
  "scan_s cs = (let cs = skip_ws cs in
     if cs = [] then None
     else Some (takeWhile (\<lambda>c. \<not> isspace c) cs, dropWhile (\<lambda>c. \<not> isspace c) cs))"

definition digit_of :: "char \<Rightarrow> nat option" where
  "digit_of c = (let n = of_char c in if 48 \<le> n \<and> n \<le> 57 then Some (n - 48) else None)"

fun scan_digits :: "nat \<Rightarrow> string \<Rightarrow> nat \<times> string" where
  "scan_digits n [] = (n, [])"
| "scan_digits n (c # cs) =
     (case digit_of c of Some k \<Rightarrow> scan_digits (10 * n + k) cs | None \<Rightarrow> (n, c # cs))"

definition scan_number :: "string \<Rightarrow> (bool \<times> nat) option \<times> string" where
  "scan_number cs = (let cs = skip_ws cs;
       neg = (cs \<noteq> [] \<and> hd cs = CHR ''-'');
       ds = (if cs \<noteq> [] \<and> (hd cs = CHR ''-'' \<or> hd cs = CHR ''+'') then tl cs else cs)
     in if ds \<noteq> [] \<and> digit_of (hd ds) \<noteq> None
        then (let (n, cs') = scan_digits 0 ds in (Some (neg, n), cs'))
        else (None, ds))"

definition scan_u :: "32 word \<Rightarrow> string \<Rightarrow> bool \<times> 32 word \<times> string" where
  "scan_u old cs = (case scan_number cs of
     (None, cs') \<Rightarrow> (False, old, cs')
   | (Some (neg, n), cs') \<Rightarrow>
       (True, if n \<ge> 2 ^ 32 then - 1 else if neg then - of_nat n else of_nat n, cs'))"

definition scan_d :: "32 word \<Rightarrow> string \<Rightarrow> 32 word \<times> string" where
  "scan_d old cs = (case scan_number cs of
     (None, cs') \<Rightarrow> (old, cs')
   | (Some (neg, n), cs') \<Rightarrow>
       (if neg then of_int (- int (min n (2 ^ 31))) else of_nat (min n (2 ^ 31 - 1)), cs'))"

text \<open>\<open>"%u %u"\<close>: the second conversion is tried only when the first one stored a number.\<close>

definition scan_uu :: "32 word \<Rightarrow> 32 word \<Rightarrow> string \<Rightarrow> 32 word \<times> 32 word \<times> string" where
  "scan_uu i n cs = (let (ok, i, cs) = scan_u i cs in
     if ok then (let (_, n, cs) = scan_u n cs in (i, n, cs)) else (i, n, cs))"

text \<open>\<open>"%ud"\<close>: a number and then, if it is there, the letter \<open>d\<close>.\<close>

definition scan_ud :: "32 word \<Rightarrow> string \<Rightarrow> 32 word \<times> string" where
  "scan_ud i cs = (let (ok, i, cs) = scan_u i cs in
     (i, if ok \<and> cs \<noteq> [] \<and> hd cs = CHR ''d'' then tl cs else cs))"

section \<open>Reading a trace\<close>

datatype read_result = Trace trace | Read_exit nat | Read_assert

text \<open>The locals of the loop: the operations read so far and the three counters.\<close>

record reader =
  r_ops :: "traceop list"
  r_op_index :: nat
  r_index :: "32 word"
  r_size :: "32 word"
  r_max_index :: "32 word"

definition store_op :: "reader \<Rightarrow> (traceop \<Rightarrow> traceop) \<Rightarrow> reader option" where
  "store_op r f = (if r_op_index r < length (r_ops r)
     then Some (r\<lparr>r_ops := (r_ops r)[r_op_index r := f (r_ops r ! r_op_index r)]\<rparr>) else None)"

definition read_sized :: "optype \<Rightarrow> reader \<Rightarrow> string \<Rightarrow> (reader \<times> string) option" where
  "read_sized ty r cs = (let (i, n, cs) = scan_uu (r_index r) (r_size r) cs in
     case store_op (r\<lparr>r_index := i, r_size := n\<rparr>) (\<lambda>p. p\<lparr>op_type := ty, op_index := i, op_size := n\<rparr>) of
       None \<Rightarrow> None
     | Some r \<Rightarrow> Some (r\<lparr>r_max_index := (if i > r_max_index r then i else r_max_index r)\<rparr>, cs))"

definition read_free :: "reader \<Rightarrow> string \<Rightarrow> (reader \<times> string) option" where
  "read_free r cs = (let (i, cs) = scan_ud (r_index r) cs in
     case store_op (r\<lparr>r_index := i\<rparr>) (\<lambda>p. p\<lparr>op_type := FREE, op_index := i\<rparr>) of
       None \<Rightarrow> None
     | Some r \<Rightarrow> Some (r, cs))"

text \<open>The \<open>switch (type[0])\<close>: \<open>Inl 1\<close> is the exit after a bogus type character.\<close>

definition read_request :: "char \<Rightarrow> reader \<Rightarrow> string \<Rightarrow> (nat + reader \<times> string) option" where
  "read_request c r cs =
     (if c = CHR ''a'' then map_option Inr (read_sized ALLOC r cs)
      else if c = CHR ''r'' then map_option Inr (read_sized REALLOC r cs)
      else if c = CHR ''f'' then map_option Inr (read_free r cs)
      else Some (Inl 1))"

lemma length_scan_s: "scan_s cs = Some (w, cs') \<Longrightarrow> length cs' < length cs"
proof -
  assume s: "scan_s cs = Some (w, cs')"
  let ?cs = "skip_ws cs"
  have ne: "?cs \<noteq> []" and cs': "cs' = dropWhile (\<lambda>c. \<not> isspace c) ?cs"
    using s by (auto simp: scan_s_def Let_def split: if_splits)
  then have "\<not> isspace (hd ?cs)" unfolding skip_ws_def by (metis hd_dropWhile)
  then have "dropWhile (\<lambda>c. \<not> isspace c) ?cs = dropWhile (\<lambda>c. \<not> isspace c) (tl ?cs)"
    using ne by (cases ?cs) simp_all
  then have "length cs' \<le> length (tl ?cs)" unfolding cs' by (simp only: length_dropWhile_le)
  also have "\<dots> < length ?cs" using ne by simp
  also have "\<dots> \<le> length cs" by (simp add: skip_ws_def length_dropWhile_le)
  finally show ?thesis .
qed

lemma length_scan_digits: "length (snd (scan_digits n cs)) \<le> length cs"
  by (induction n cs rule: scan_digits.induct) (auto split: option.splits)

lemma length_scan_number: "length (snd (scan_number cs)) \<le> length cs"
proof -
  have "length (skip_ws cs) \<le> length cs" by (simp add: skip_ws_def length_dropWhile_le)
  then show ?thesis
    using length_scan_digits [of 0 "skip_ws cs"] length_scan_digits [of 0 "tl (skip_ws cs)"]
    by (auto simp: scan_number_def Let_def split: prod.splits)
qed

lemma length_scan_u: "length (snd (snd (scan_u old cs))) \<le> length cs"
  using length_scan_number [of cs] by (auto simp: scan_u_def split: prod.splits option.splits)

lemma length_scan_uu: "length (snd (snd (scan_uu i n cs))) \<le> length cs"
  using length_scan_u [of i cs] length_scan_u [of n "snd (snd (scan_u i cs))"]
  by (auto simp: scan_uu_def split: prod.splits)

lemma length_scan_ud: "length (snd (scan_ud i cs)) \<le> length cs"
  using length_scan_u [of i cs] by (auto simp: scan_ud_def split: prod.splits)

lemma length_read_request: "read_request c r cs = Some (Inr (r', cs')) \<Longrightarrow> length cs' \<le> length cs"
  using length_scan_uu [of "r_index r" "r_size r" cs] length_scan_ud [of "r_index r" cs]
  by (auto simp: read_request_def read_sized_def read_free_def
      split: if_splits prod.splits option.splits)

definition MAXLINE :: nat where "MAXLINE = 1024"

text \<open>
  The \<open>while\<close> loop; every round consumes at least one character. \<open>%s\<close> has no width, so a word of \<open>MAXLINE\<close> characters
  or more overruns \<open>type\<close>.
\<close>

function read_requests :: "reader \<Rightarrow> string \<Rightarrow> (nat + reader) option" where
  "read_requests r cs =
     (case scan_s cs of
        None \<Rightarrow> Some (Inr r)
      | Some (w, cs1) \<Rightarrow>
          if MAXLINE \<le> length w then None
          else (case read_request (hd w) r cs1 of
             None \<Rightarrow> None
           | Some (Inl code) \<Rightarrow> Some (Inl code)
           | Some (Inr (r', cs2)) \<Rightarrow> read_requests (r'\<lparr>r_op_index := r_op_index r' + 1\<rparr>) cs2))"
  by pat_completeness auto
termination
  by (relation "measure (\<lambda>(r, cs). length cs)")
    (auto dest!: length_scan_s length_read_request)

declare read_requests.simps [simp del]

text \<open>
  An array of as many elements of \<open>k\<close> bytes as a block of \<open>n\<close> bytes holds. The byte count is computed in \<open>size_t\<close>, where
  it wraps.
\<close>

definition alloc_array :: "(nat \<Rightarrow> 'a) \<Rightarrow> 32 word \<Rightarrow> nat \<Rightarrow> 'a list" where
  "alloc_array junk n k = map junk [0..<unat n div k]"

lemma length_alloc_array [simp]: "length (alloc_array junk n k) = unat n div k"
  by (simp add: alloc_array_def)

text \<open>
  \<open>grants k n\<close>: libc's \<open>malloc\<close> has \<open>n\<close> bytes for the \<open>k\<close>-th of the four calls; \<open>unix_error\<close> exits with 1 where it has not. \<open>junk\<close>,
  \<open>junk_ops\<close> and \<open>junk_addr\<close> are the contents of memory nothing has been stored to: the
  header fields and \<open>size\<close> before the first conversion, and the three arrays. \<open>files\<close> maps the paths of the files that can be opened to
  their contents. The message about one that cannot goes through the buffer \<open>msg\<close> of \<open>MAXLINE\<close> characters, with 29 characters of
  its own.
\<close>

definition read_trace ::
  "(nat \<Rightarrow> 32 word \<Rightarrow> bool) \<Rightarrow> 32 word \<Rightarrow> (nat \<Rightarrow> traceop) \<Rightarrow> (nat \<Rightarrow> addr) \<Rightarrow> (string \<Rightarrow> string option)
   \<Rightarrow> string \<Rightarrow> string \<Rightarrow> read_result option" where
  "read_trace grants junk junk_ops junk_addr files dir fname =
     (let path = dir @ fname in
      if \<not> grants 1 28 then Some (Read_exit 1)
      else if MAXLINE \<le> length path then None
      else (case files path of
        None \<Rightarrow> if MAXLINE \<le> length path + 29 then None else Some (Read_exit 1)
      | Some cs \<Rightarrow>
         (let (h, cs) = scan_d junk cs; (ids, cs) = scan_d junk cs;
              (n, cs) = scan_d junk cs; (wt, cs) = scan_d junk cs
          in if \<not> grants 2 (n * 12) then Some (Read_exit 1)
          else if \<not> grants 3 (ids * 4) then Some (Read_exit 1)
          else if \<not> grants 4 (ids * 4) then Some (Read_exit 1)
          else
           (case read_requests \<lparr>r_ops = alloc_array junk_ops (n * 12) 12, r_op_index = 0, r_index = 0,
                r_size = junk, r_max_index = 0\<rparr> cs of
              None \<Rightarrow> None
            | Some (Inl code) \<Rightarrow> Some (Read_exit code)
            | Some (Inr r) \<Rightarrow>
                if r_max_index r \<noteq> ids - 1 \<or> n \<noteq> of_nat (r_op_index r) then Some Read_assert
                else Some (Trace \<lparr>sugg_heapsize = h, num_ids = ids, num_ops = n, weight = wt, ops = r_ops r,
                    blocks = alloc_array junk_addr (ids * 4) 4,
                    block_sizes = alloc_array junk_addr (ids * 4) 4\<rparr>)))))"

text \<open>Where memory is refused \<open>read_trace\<close> exits with 1; otherwise refusals make no difference.\<close>

abbreviation granted :: "nat \<Rightarrow> 32 word \<Rightarrow> bool" where
  "granted \<equiv> \<lambda>_ _. True"

lemma read_trace_refused:
  "read_trace grants junk junk_ops junk_addr files dir fname = read_trace granted junk junk_ops junk_addr files dir fname
   \<or> read_trace grants junk junk_ops junk_addr files dir fname = Some (Read_exit 1) \<and> (\<exists>k n. \<not> grants k n)"
  by (auto simp: read_trace_def Let_def split: prod.split option.split)

end
