(* ===== verification/Driver_Eval.thy ===== *)
theory Driver_Eval
  imports Complex_Main Driver_Trace
begin

text \<open>
  The evaluation routines of \<open>src/mdriver.c\<close>, over the four functions of the package it is linked
  with: \<open>eval_mm_valid\<close> (correctness), \<open>eval_mm_util\<close> (space), \<open>eval_mm_speed\<close> (the timed run) and
  their libc counterparts. \<open>None\<close> is undefined behaviour, a failed assertion or a package
  function that does not return.
\<close>

section \<open>The package the driver is linked with\<close>

record 'a mmpkg =
  pk_init :: "'a mem_scheme \<Rightarrow> (int \<times> 'a mem_scheme) option"
  pk_malloc :: "'a mem_scheme \<Rightarrow> addr \<Rightarrow> (addr \<times> 'a mem_scheme) option"
  pk_free :: "'a mem_scheme \<Rightarrow> addr \<Rightarrow> 'a mem_scheme option"
  pk_realloc :: "'a mem_scheme \<Rightarrow> addr \<Rightarrow> addr \<Rightarrow> (addr \<times> 'a mem_scheme) option"

text \<open>What \<open>eval_mm_valid\<close> reads and writes: the error log, the heap, the range list, the trace.\<close>

record 'a vstate =
  v_drv :: drv
  v_mem :: "'a mem_scheme"
  v_ranges :: "range list"
  v_trace :: trace

section \<open>Correctness\<close>

text \<open>The low byte of the index, as \<open>memset\<close> stores it.\<close>

definition fill_byte :: "cint \<Rightarrow> byte" where
  "fill_byte index = ucast (index AND 0xFF)"

text \<open>
  \<open>for (j = 0; j < oldsize; j++) if (newp[j] != (index & 0xFF))\<close>: \<open>newp\<close> is a \<open>char *\<close>, signed on
  x86, so the byte is sign-extended before it is compared with an \<open>int\<close> between 0 and 255.
\<close>

fun preserved_from :: "'a mem_scheme \<Rightarrow> addr \<Rightarrow> cint \<Rightarrow> nat \<Rightarrow> nat \<Rightarrow> bool option" where
  "preserved_from s newp index j 0 = Some True"
| "preserved_from s newp index j (Suc k) =
     (let a = newp + of_nat j in
      if \<not> in_storage s a 1 then None
      else if (scast (bytes s a) :: cint) \<noteq> (index AND 0xFF) then Some False
      else preserved_from s newp index (j + 1) k)"

definition eval_alloc ::
  "('a, 'b) mmpkg_scheme \<Rightarrow> int \<Rightarrow> int \<Rightarrow> traceop \<Rightarrow> 'a vstate \<Rightarrow> (bool \<times> 'a vstate) option" where
  "eval_alloc pk tracenum i p v = do {
     let index = op_index p;
     let sz = op_size p;
     (q, s) \<leftarrow> pk_malloc pk (v_mem v) sz;
     let v = v\<lparr>v_mem := s\<rparr>;
     if q = NULL then
       Some (False, v\<lparr>v_drv := malloc_error (v_drv v) tracenum i Mm_malloc_failed\<rparr>)
     else do {
       (good, d, rs) \<leftarrow> add_range (v_drv v) s (v_ranges v) q sz tracenum i;
       let v = v\<lparr>v_drv := d, v_ranges := rs\<rparr>;
       if \<not> good then Some (False, v)
       else do {
         s \<leftarrow> memset s q (fill_byte index) sz;
         t \<leftarrow> set_block (v_trace v) index q;
         t \<leftarrow> set_block_size t index sz;
         Some (True, v\<lparr>v_mem := s, v_trace := t\<rparr>) } } }"

definition eval_realloc ::
  "('a, 'b) mmpkg_scheme \<Rightarrow> int \<Rightarrow> int \<Rightarrow> traceop \<Rightarrow> 'a vstate \<Rightarrow> (bool \<times> 'a vstate) option" where
  "eval_realloc pk tracenum i p v = do {
     let index = op_index p;
     let sz = op_size p;
     oldp \<leftarrow> aget (blocks (v_trace v)) index;
     (newp, s) \<leftarrow> pk_realloc pk (v_mem v) oldp sz;
     let v = v\<lparr>v_mem := s\<rparr>;
     if newp = NULL then
       Some (False, v\<lparr>v_drv := malloc_error (v_drv v) tracenum i Mm_realloc_failed\<rparr>)
     else do {
       let v = v\<lparr>v_ranges := remove_range (v_ranges v) oldp\<rparr>;
       (good, d, rs) \<leftarrow> add_range (v_drv v) s (v_ranges v) newp sz tracenum i;
       let v = v\<lparr>v_drv := d, v_ranges := rs\<rparr>;
       if \<not> good then Some (False, v)
       else do {
         oldsize \<leftarrow> aget (block_sizes (v_trace v)) index;
         let oldsize = (if sz <s oldsize then sz else oldsize);
         kept \<leftarrow> preserved_from s newp index 0 (nat (sint oldsize));
         if \<not> kept then
           Some (False, v\<lparr>v_drv := malloc_error (v_drv v) tracenum i Data_not_preserved\<rparr>)
         else do {
           s \<leftarrow> memset s newp (fill_byte index) sz;
           t \<leftarrow> set_block (v_trace v) index newp;
           t \<leftarrow> set_block_size t index sz;
           Some (True, v\<lparr>v_mem := s, v_trace := t\<rparr>) } } } }"

definition eval_free :: "('a, 'b) mmpkg_scheme \<Rightarrow> traceop \<Rightarrow> 'a vstate \<Rightarrow> (bool \<times> 'a vstate) option" where
  "eval_free pk p v = do {
     q \<leftarrow> aget (blocks (v_trace v)) (op_index p);
     let v = v\<lparr>v_ranges := remove_range (v_ranges v) q\<rparr>;
     s \<leftarrow> pk_free pk (v_mem v) q;
     Some (True, v\<lparr>v_mem := s\<rparr>) }"

definition eval_op ::
  "('a, 'b) mmpkg_scheme \<Rightarrow> int \<Rightarrow> int \<Rightarrow> traceop \<Rightarrow> 'a vstate \<Rightarrow> (bool \<times> 'a vstate) option" where
  "eval_op pk tracenum i p v = (case op_type p of
     ALLOC \<Rightarrow> eval_alloc pk tracenum i p v
   | REALLOC \<Rightarrow> eval_realloc pk tracenum i p v
   | FREE \<Rightarrow> eval_free pk p v)"

fun eval_ops ::
  "('a, 'b) mmpkg_scheme \<Rightarrow> int \<Rightarrow> int \<Rightarrow> traceop list \<Rightarrow> 'a vstate \<Rightarrow> (bool \<times> 'a vstate) option" where
  "eval_ops pk tracenum i [] v = Some (True, v)"
| "eval_ops pk tracenum i (p # ps) v = do {
     (good, v) \<leftarrow> eval_op pk tracenum i p v;
     if good then eval_ops pk tracenum (i + 1) ps v else Some (False, v) }"

text \<open>The requests a loop up to \<open>num_ops\<close> visits.\<close>

definition trace_ops :: "trace \<Rightarrow> traceop list option" where
  "trace_ops t = (if sint (num_ops t) \<le> int (length (ops t))
     then Some (take (nat (sint (num_ops t))) (ops t)) else None)"

definition eval_mm_valid :: "('a, 'b) mmpkg_scheme \<Rightarrow> int \<Rightarrow> 'a vstate \<Rightarrow> (bool \<times> 'a vstate) option" where
  "eval_mm_valid pk tracenum v = do {
     let v = v\<lparr>v_mem := mem_reset_brk (v_mem v), v_ranges := clear_ranges (v_ranges v)\<rparr>;
     (r, s) \<leftarrow> pk_init pk (v_mem v);
     let v = v\<lparr>v_mem := s\<rparr>;
     if r < 0 then Some (False, v\<lparr>v_drv := malloc_error (v_drv v) tracenum 0 Mm_init_failed\<rparr>)
     else do {
       ps \<leftarrow> trace_ops (v_trace v);
       eval_ops pk tracenum 0 ps v } }"

section \<open>Space utilization\<close>

datatype 'a run = Ran 'a | App_error string

record 'a ustate =
  u_mem :: "'a mem_scheme"
  u_trace :: trace
  u_total :: cint
  u_max :: cint

definition util_op :: "('a, 'b) mmpkg_scheme \<Rightarrow> traceop \<Rightarrow> 'a ustate \<Rightarrow> 'a ustate run option" where
  "util_op pk p u = (case op_type p of
     ALLOC \<Rightarrow> do {
       let sz = op_size p;
       (q, s) \<leftarrow> pk_malloc pk (u_mem u) sz;
       if q = NULL then Some (App_error ''mm_malloc failed in eval_mm_util'')
       else do {
         t \<leftarrow> set_block (u_trace u) (op_index p) q;
         t \<leftarrow> set_block_size t (op_index p) sz;
         let total = u_total u + sz;
         Some (Ran (u\<lparr>u_mem := s, u_trace := t, u_total := total,
           u_max := (if u_max u <s total then total else u_max u)\<rparr>)) } }
   | REALLOC \<Rightarrow> do {
       let newsize = op_size p;
       oldsize \<leftarrow> aget (block_sizes (u_trace u)) (op_index p);
       oldp \<leftarrow> aget (blocks (u_trace u)) (op_index p);
       (q, s) \<leftarrow> pk_realloc pk (u_mem u) oldp newsize;
       if q = NULL then Some (App_error ''mm_realloc failed in eval_mm_util'')
       else do {
         t \<leftarrow> set_block (u_trace u) (op_index p) q;
         t \<leftarrow> set_block_size t (op_index p) newsize;
         let total = u_total u + (newsize - oldsize);
         Some (Ran (u\<lparr>u_mem := s, u_trace := t, u_total := total,
           u_max := (if u_max u <s total then total else u_max u)\<rparr>)) } }
   | FREE \<Rightarrow> do {
       sz \<leftarrow> aget (block_sizes (u_trace u)) (op_index p);
       q \<leftarrow> aget (blocks (u_trace u)) (op_index p);
       s \<leftarrow> pk_free pk (u_mem u) q;
       Some (Ran (u\<lparr>u_mem := s, u_total := u_total u - sz\<rparr>)) })"

fun util_ops :: "('a, 'b) mmpkg_scheme \<Rightarrow> traceop list \<Rightarrow> 'a ustate \<Rightarrow> 'a ustate run option" where
  "util_ops pk [] u = Some (Ran u)"
| "util_ops pk (p # ps) u = do {
     r \<leftarrow> util_op pk p u;
     (case r of App_error m \<Rightarrow> Some (App_error m) | Ran u \<Rightarrow> util_ops pk ps u) }"

text \<open>The result: high water mark over heap size, with the final state. The \<open>double\<close> quotient is
  kept exact.\<close>

definition eval_mm_util ::
  "('a, 'b) mmpkg_scheme \<Rightarrow> 'a mem_scheme \<Rightarrow> trace \<Rightarrow> (rat \<times> 'a ustate) run option" where
  "eval_mm_util pk s t = do {
     (r, s) \<leftarrow> pk_init pk (mem_reset_brk s);
     if r < 0 then Some (App_error ''mm_init failed in eval_mm_util'')
     else do {
       ps \<leftarrow> trace_ops t;
       r \<leftarrow> util_ops pk ps \<lparr>u_mem = s, u_trace = t, u_total = 0, u_max = 0\<rparr>;
       (case r of App_error m \<Rightarrow> Some (App_error m)
        | Ran u \<Rightarrow> Some (Ran (of_int (sint (u_max u)) / of_nat (unat (mem_heapsize (u_mem u))), u))) } }"

section \<open>Throughput\<close>

definition speed_op ::
  "('a, 'b) mmpkg_scheme \<Rightarrow> traceop \<Rightarrow> 'a mem_scheme \<times> trace \<Rightarrow> ('a mem_scheme \<times> trace) run option" where
  "speed_op pk p st = (case st of (s, t) \<Rightarrow> (case op_type p of
     ALLOC \<Rightarrow> do {
       (q, s) \<leftarrow> pk_malloc pk s (op_size p);
       if q = NULL then Some (App_error ''mm_malloc error in eval_mm_speed'')
       else do { t \<leftarrow> set_block t (op_index p) q; Some (Ran (s, t)) } }
   | REALLOC \<Rightarrow> do {
       oldp \<leftarrow> aget (blocks t) (op_index p);
       (q, s) \<leftarrow> pk_realloc pk s oldp (op_size p);
       if q = NULL then Some (App_error ''mm_realloc error in eval_mm_speed'')
       else do { t \<leftarrow> set_block t (op_index p) q; Some (Ran (s, t)) } }
   | FREE \<Rightarrow> do {
       q \<leftarrow> aget (blocks t) (op_index p);
       s \<leftarrow> pk_free pk s q;
       Some (Ran (s, t)) }))"

fun speed_ops ::
  "('a, 'b) mmpkg_scheme \<Rightarrow> traceop list \<Rightarrow> 'a mem_scheme \<times> trace \<Rightarrow> ('a mem_scheme \<times> trace) run option" where
  "speed_ops pk [] st = Some (Ran st)"
| "speed_ops pk (p # ps) st = do {
     r \<leftarrow> speed_op pk p st;
     (case r of App_error m \<Rightarrow> Some (App_error m) | Ran st \<Rightarrow> speed_ops pk ps st) }"

definition eval_mm_speed ::
  "('a, 'b) mmpkg_scheme \<Rightarrow> 'a mem_scheme \<Rightarrow> trace \<Rightarrow> ('a mem_scheme \<times> trace) run option" where
  "eval_mm_speed pk s t = do {
     (r, s) \<leftarrow> pk_init pk (mem_reset_brk s);
     if r < 0 then Some (App_error ''mm_init failed in eval_mm_speed'')
     else do {
       ps \<leftarrow> trace_ops t;
       speed_ops pk ps (s, t) } }"

section \<open>The libc counterparts\<close>

text \<open>
  libc's allocator is a parameter: its state and its three functions. \<open>unix_error\<close> prints
  \<open>strerror\<close> and exits, so its message is all that is kept.
\<close>

record 'l libc =
  lc_malloc :: "'l \<Rightarrow> addr \<Rightarrow> addr \<times> 'l"
  lc_free :: "'l \<Rightarrow> addr \<Rightarrow> 'l"
  lc_realloc :: "'l \<Rightarrow> addr \<Rightarrow> addr \<Rightarrow> addr \<times> 'l"

datatype 'a lrun = L_ran 'a | Unix_error drv string

fun libc_valid_ops ::
  "('l, 'b) libc_scheme \<Rightarrow> int \<Rightarrow> int \<Rightarrow> drv \<Rightarrow> traceop list \<Rightarrow> 'l \<times> trace \<Rightarrow> ('l \<times> trace) lrun option" where
  "libc_valid_ops lc tracenum i d [] lt = Some (L_ran lt)"
| "libc_valid_ops lc tracenum i d (p # ps) (l, t) = (case op_type p of
     ALLOC \<Rightarrow>
       (let (q, l) = lc_malloc lc l (op_size p) in
        if q = NULL then
          Some (Unix_error (malloc_error d tracenum i Libc_malloc_failed) ''System message'')
        else do {
          t \<leftarrow> set_block t (op_index p) q;
          libc_valid_ops lc tracenum (i + 1) d ps (l, t) })
   | REALLOC \<Rightarrow> do {
       oldp \<leftarrow> aget (blocks t) (op_index p);
       let (q, l) = lc_realloc lc l oldp (op_size p);
       if q = NULL then
         Some (Unix_error (malloc_error d tracenum i Libc_realloc_failed) ''System message'')
       else do {
         t \<leftarrow> set_block t (op_index p) q;
         libc_valid_ops lc tracenum (i + 1) d ps (l, t) } }
   | FREE \<Rightarrow> do {
       q \<leftarrow> aget (blocks t) (op_index p);
       libc_valid_ops lc tracenum (i + 1) d ps (lc_free lc l q, t) })"

definition eval_libc_valid ::
  "('l, 'b) libc_scheme \<Rightarrow> int \<Rightarrow> drv \<Rightarrow> 'l \<Rightarrow> trace \<Rightarrow> (bool \<times> 'l \<times> trace) lrun option" where
  "eval_libc_valid lc tracenum d l t = do {
     ps \<leftarrow> trace_ops t;
     r \<leftarrow> libc_valid_ops lc tracenum 0 d ps (l, t);
     (case r of Unix_error d m \<Rightarrow> Some (Unix_error d m) | L_ran lt \<Rightarrow> Some (L_ran (True, lt))) }"

fun libc_speed_ops ::
  "('l, 'b) libc_scheme \<Rightarrow> drv \<Rightarrow> traceop list \<Rightarrow> 'l \<times> trace \<Rightarrow> ('l \<times> trace) lrun option" where
  "libc_speed_ops lc d [] lt = Some (L_ran lt)"
| "libc_speed_ops lc d (p # ps) (l, t) = (case op_type p of
     ALLOC \<Rightarrow>
       (let (q, l) = lc_malloc lc l (op_size p) in
        if q = NULL then Some (Unix_error d ''malloc failed in eval_libc_speed'')
        else do {
          t \<leftarrow> set_block t (op_index p) q;
          libc_speed_ops lc d ps (l, t) })
   | REALLOC \<Rightarrow> do {
       oldp \<leftarrow> aget (blocks t) (op_index p);
       let (q, l) = lc_realloc lc l oldp (op_size p);
       if q = NULL then Some (Unix_error d (''realloc failed in eval_libc_speed'' @ [CHR 0x0A]))
       else do {
         t \<leftarrow> set_block t (op_index p) q;
         libc_speed_ops lc d ps (l, t) } }
   | FREE \<Rightarrow> do {
       q \<leftarrow> aget (blocks t) (op_index p);
       libc_speed_ops lc d ps (lc_free lc l q, t) })"

definition eval_libc_speed ::
  "('l, 'b) libc_scheme \<Rightarrow> drv \<Rightarrow> 'l \<Rightarrow> trace \<Rightarrow> ('l \<times> trace) lrun option" where
  "eval_libc_speed lc d l t = do {
     ps \<leftarrow> trace_ops t;
     libc_speed_ops lc d ps (l, t) }"

end
