(* ===== verification/Timing.thy ===== *)
theory Timing
  imports Complex_Main "HOL-Library.Multiset" Malloc_Prelude
begin

text \<open>
  The timing layer: the cycle counter of \<open>src/clock.c\<close> (Pentium version), the K-best sampler of
  \<open>src/fcyc.c\<close> and the function timers of \<open>src/ftimer.c\<close>. The hardware
  counter, the process clock and the timed function act on an environment that is a type
  parameter. A \<open>double\<close> is kept as an exact rational.
\<close>

section \<open>The cycle counter of \<open>clock.c\<close>\<close>

record 'e clk =
  cyc_hi :: "32 word"
  cyc_lo :: "32 word"
  cyc_per_tick :: rat
  start_tick :: int
  env :: 'e

text \<open>\<open>rdtsc\<close> is the instruction behind \<open>access_counter\<close>; it yields the high and the low word.\<close>

definition start_counter :: "('e \<Rightarrow> (32 word \<times> 32 word) \<times> 'e) \<Rightarrow> 'e clk \<Rightarrow> 'e clk" where
  "start_counter rdtsc c = (let ((h, l), e) = rdtsc (env c) in c\<lparr>cyc_hi := h, cyc_lo := l, env := e\<rparr>)"

definition elapsed :: "32 word \<Rightarrow> 32 word \<Rightarrow> 32 word \<Rightarrow> 32 word \<Rightarrow> rat" where
  "elapsed hi0 lo0 ncyc_hi ncyc_lo =
     (let lo = ncyc_lo - lo0;
          borrow = (if lo > ncyc_lo then 1 else 0);
          hi = ncyc_hi - hi0 - borrow
      in of_nat (unat hi) * of_nat (2 ^ 30) * 4 + of_nat (unat lo))"

definition get_counter :: "('e \<Rightarrow> (32 word \<times> 32 word) \<times> 'e) \<Rightarrow> 'e clk \<Rightarrow> rat \<times> 'e clk" where
  "get_counter rdtsc c = (let ((h, l), e) = rdtsc (env c) in
     (elapsed (cyc_hi c) (cyc_lo c) h l, c\<lparr>env := e\<rparr>))"

definition ovhd :: "('e \<Rightarrow> (32 word \<times> 32 word) \<times> 'e) \<Rightarrow> 'e clk \<Rightarrow> rat \<times> 'e clk" where
  "ovhd rdtsc c = (let (_, c) = get_counter rdtsc (start_counter rdtsc c)
     in get_counter rdtsc (start_counter rdtsc c))"

definition mhz_full ::
  "('e \<Rightarrow> (32 word \<times> 32 word) \<times> 'e) \<Rightarrow> (int \<Rightarrow> 'e \<Rightarrow> 'e) \<Rightarrow> int \<Rightarrow> 'e clk \<Rightarrow> rat \<times> 'e clk" where
  "mhz_full rdtsc sleep sleeptime c =
     (let c = start_counter rdtsc c; c = c\<lparr>env := sleep sleeptime (env c)\<rparr>; (n, c) = get_counter rdtsc c
      in (n / (1000000 * of_int sleeptime), c))"

definition mhz ::
  "('e \<Rightarrow> (32 word \<times> 32 word) \<times> 'e) \<Rightarrow> (int \<Rightarrow> 'e \<Rightarrow> 'e) \<Rightarrow> 'e clk \<Rightarrow> rat \<times> 'e clk" where
  "mhz rdtsc sleep c = mhz_full rdtsc sleep 2 c"

definition NEVENT :: nat where "NEVENT = 100"
definition THRESHOLD :: rat where "THRESHOLD = 1000"
definition RECORDTHRESH :: rat where "RECORDTHRESH = 3000"

text \<open>One round of the calibration loop: a jump of the counter that comes with a clock tick is an event.\<close>

definition callibrate_step ::
  "('e \<Rightarrow> (32 word \<times> 32 word) \<times> 'e) \<Rightarrow> ('e \<Rightarrow> int \<times> 'e)
   \<Rightarrow> nat \<times> rat \<times> int \<times> 'e clk \<Rightarrow> nat \<times> rat \<times> int \<times> 'e clk" where
  "callibrate_step rdtsc utime st = (case st of (e, oldt, oldc, c) \<Rightarrow>
     let (newt, c) = get_counter rdtsc c in
     if newt - oldt \<ge> THRESHOLD then
       let (newc, ev) = utime (env c); c = c\<lparr>env := ev\<rparr> in
       if newc > oldc then
         let cpt = (newt - oldt) / of_int (newc - oldc);
             c = (if (cyc_per_tick c = 0 \<or> cyc_per_tick c > cpt) \<and> cpt > RECORDTHRESH
                  then c\<lparr>cyc_per_tick := cpt\<rparr> else c)
         in (e + 1, newt, newc, c)
       else (e, newt, oldc, c)
     else (e, oldt, oldc, c))"

partial_function (option) callibrate_loop ::
  "('e \<Rightarrow> (32 word \<times> 32 word) \<times> 'e) \<Rightarrow> ('e \<Rightarrow> int \<times> 'e)
   \<Rightarrow> nat \<times> rat \<times> int \<times> 'e clk \<Rightarrow> 'e clk option" where
  "callibrate_loop rdtsc utime st =
     (if fst st < NEVENT then callibrate_loop rdtsc utime (callibrate_step rdtsc utime st)
      else Some (snd (snd (snd st))))"

definition callibrate ::
  "('e \<Rightarrow> (32 word \<times> 32 word) \<times> 'e) \<Rightarrow> ('e \<Rightarrow> int \<times> 'e) \<Rightarrow> 'e clk \<Rightarrow> 'e clk option" where
  "callibrate rdtsc utime c =
     (let (oldc, ev) = utime (env c);
          (oldt, c) = get_counter rdtsc (start_counter rdtsc (c\<lparr>env := ev\<rparr>))
      in callibrate_loop rdtsc utime (0, oldt, oldc, c))"

definition start_comp_counter ::
  "('e \<Rightarrow> (32 word \<times> 32 word) \<times> 'e) \<Rightarrow> ('e \<Rightarrow> int \<times> 'e) \<Rightarrow> 'e clk \<Rightarrow> 'e clk option" where
  "start_comp_counter rdtsc utime c = do {
     c \<leftarrow> (if cyc_per_tick c = 0 then callibrate rdtsc utime c else Some c);
     let (t, ev) = utime (env c);
     Some (start_counter rdtsc (c\<lparr>start_tick := t, env := ev\<rparr>)) }"

definition get_comp_counter ::
  "('e \<Rightarrow> (32 word \<times> 32 word) \<times> 'e) \<Rightarrow> ('e \<Rightarrow> int \<times> 'e) \<Rightarrow> 'e clk \<Rightarrow> rat \<times> 'e clk" where
  "get_comp_counter rdtsc utime c =
     (let (time, c) = get_counter rdtsc c; (t, ev) = utime (env c)
      in (time - of_int (t - start_tick c) * cyc_per_tick c, c\<lparr>env := ev\<rparr>))"

section \<open>The sampler of \<open>fcyc.c\<close>\<close>

text \<open>\<open>None\<close> in \<open>vals\<close> and \<open>cache_buf\<close> is the null pointer; a cache buffer has an address and its words.\<close>

record sampler =
  kbest :: int
  maxsamples :: int
  epsilon :: rat
  compensate :: bool
  clear_cache :: bool
  cache_bytes :: int
  cache_block :: int
  cache_buf :: "(addr \<times> cint list) option"
  vals :: "rat list option"
  samplecount :: int
  sink :: cint

definition sampler_init :: sampler where
  "sampler_init = \<lparr>kbest = 3, maxsamples = 20, epsilon = 1 / 100, compensate = False,
     clear_cache = False, cache_bytes = 2 ^ 19, cache_block = 32, cache_buf = None, vals = None,
     samplecount = 0, sink = 0\<rparr>"

text \<open>
  \<open>calloc(kbest, sizeof(double))\<close> is a null pointer when libc has no memory (\<open>\<not> mem\<close>) and when the product is not a \<open>size_t\<close>, as for a
  negative \<open>kbest\<close>. Nobody looks at the result: the sampler then reads and writes through the null pointer.
\<close>

definition init_sampler :: "bool \<Rightarrow> sampler \<Rightarrow> sampler" where
  "init_sampler mem f =
     f\<lparr>vals := (if mem \<and> 0 \<le> kbest f \<and> kbest f * 8 < 2 ^ 32 then Some (replicate (nat (kbest f)) 0) else None),
       samplecount := 0\<rparr>"

text \<open>The insertion of \<open>add_sample\<close>: \<open>while (pos > 0 && values[pos-1] > values[pos])\<close> swap.\<close>

fun sift :: "rat list \<Rightarrow> nat \<Rightarrow> rat list" where
  "sift vs 0 = vs"
| "sift vs (Suc pos) =
     (if vs ! pos > vs ! Suc pos then sift (vs[pos := vs ! Suc pos, Suc pos := vs ! pos]) pos else vs)"

definition add_sample :: "sampler \<Rightarrow> rat \<Rightarrow> sampler option" where
  "add_sample f val = do {
     vs \<leftarrow> vals f;
     (vs, pos) \<leftarrow>
       (if samplecount f < kbest f then
          (if 0 \<le> samplecount f \<and> nat (samplecount f) < length vs
           then Some (vs[nat (samplecount f) := val], nat (samplecount f)) else None)
        else if 0 < kbest f \<and> nat (kbest f - 1) < length vs then
          (if val < vs ! nat (kbest f - 1) then Some (vs[nat (kbest f - 1) := val], nat (kbest f - 1))
           else Some (vs, 0))
        else None);
     Some (f\<lparr>vals := Some (sift vs pos), samplecount := samplecount f + 1\<rparr>) }"

definition has_converged :: "sampler \<Rightarrow> bool option" where
  "has_converged f =
     (if samplecount f \<ge> kbest f then do {
        vs \<leftarrow> vals f;
        if 0 < kbest f \<and> nat (kbest f - 1) < length vs
        then Some ((1 + epsilon f) * vs ! 0 \<ge> vs ! nat (kbest f - 1)) else None }
      else Some False)"

text \<open>
  \<open>clear\<close> reads one word per cache block into \<open>sink\<close>. \<open>junk\<close> is what libc's \<open>malloc(cache_bytes)\<close> returned: an address and what the
  words there hold, \<open>None\<close> being a null pointer (\<open>Inl 1\<close>: \<open>exit(1)\<close>). The sizes are divided as unsigned numbers, and the pointer
  moves in the flat 32-bit address space, where it can wrap round. A block size below 4 gives step 0, and the loop does not end.
\<close>

definition read_word :: "addr \<times> cint list \<Rightarrow> addr \<Rightarrow> cint option" where
  "read_word buf p = (let k = unat (p - fst buf) in
     if k mod 4 = 0 \<and> k div 4 < length (snd buf) then Some (snd buf ! (k div 4)) else None)"

partial_function (option) sum_words :: "addr \<times> cint list \<Rightarrow> addr \<Rightarrow> addr \<Rightarrow> addr \<Rightarrow> cint \<Rightarrow> cint option" where
  "sum_words buf incr cend cptr x =
     (if cptr < cend then do { v \<leftarrow> read_word buf cptr; sum_words buf incr cend (cptr + incr * 4) (x + v) }
      else Some x)"

definition cache_words :: "sampler \<Rightarrow> addr" where
  "cache_words f = of_int (cache_bytes f) div 4"

definition cache_buffer :: "(addr \<times> (nat \<Rightarrow> cint)) option \<Rightarrow> sampler \<Rightarrow> (addr \<times> cint list) option" where
  "cache_buffer junk f = (case cache_buf f of
     Some buf \<Rightarrow> Some buf
   | None \<Rightarrow> map_option (\<lambda>(p, ws). (p, map ws [0..<unat (cache_words f)])) junk)"

definition clear :: "(addr \<times> (nat \<Rightarrow> cint)) option \<Rightarrow> sampler \<Rightarrow> (nat + sampler) option" where
  "clear junk f =
     (let incr = of_int (cache_block f) div 4 in
      case cache_buffer junk f of
        None \<Rightarrow> Some (Inl 1)
      | Some buf \<Rightarrow> do {
          x \<leftarrow> sum_words buf incr (fst buf + cache_words f * 4) (fst buf) (sink f);
          Some (Inr (f\<lparr>cache_buf := Some buf, sink := x\<rparr>)) })"

text \<open>
  One measurement of \<open>fcyc\<close>, with the plain and with the compensated counters; \<open>run\<close> is the call \<open>f(argp)\<close> of the timed function.
\<close>

definition cycles_of ::
  "('e \<Rightarrow> (32 word \<times> 32 word) \<times> 'e) \<Rightarrow> ('e \<Rightarrow> 'e) \<Rightarrow> 'e clk \<Rightarrow> (rat \<times> 'e clk) option" where
  "cycles_of rdtsc run c =
     (let c = start_counter rdtsc c; c = c\<lparr>env := run (env c)\<rparr> in Some (get_counter rdtsc c))"

definition comp_cycles_of ::
  "('e \<Rightarrow> (32 word \<times> 32 word) \<times> 'e) \<Rightarrow> ('e \<Rightarrow> int \<times> 'e) \<Rightarrow> ('e \<Rightarrow> 'e) \<Rightarrow> 'e clk \<Rightarrow> (rat \<times> 'e clk) option" where
  "comp_cycles_of rdtsc utime run c = do {
     c \<leftarrow> start_comp_counter rdtsc utime c;
     let c = c\<lparr>env := run (env c)\<rparr>;
     Some (get_comp_counter rdtsc utime c) }"

text \<open>\<open>fcyc\<close>: the body of the \<open>do ... while\<close> clears the cache if it is told to and measures once.\<close>

partial_function (option) sample_loop ::
  "(addr \<times> (nat \<Rightarrow> cint)) option \<Rightarrow> ('c \<Rightarrow> (rat \<times> 'c) option) \<Rightarrow> sampler \<Rightarrow> 'c \<Rightarrow> (nat + sampler \<times> 'c) option" where
  "sample_loop junk meas f c = do {
     r \<leftarrow> (if clear_cache f then clear junk f else Some (Inr f));
     (case r of Inl code \<Rightarrow> Some (Inl code)
      | Inr f \<Rightarrow> do {
          (cyc, c) \<leftarrow> meas c;
          f \<leftarrow> add_sample f cyc;
          conv \<leftarrow> has_converged f;
          if \<not> conv \<and> samplecount f < maxsamples f then sample_loop junk meas f c else Some (Inr (f, c)) }) }"

definition fcyc ::
  "bool \<Rightarrow> (addr \<times> (nat \<Rightarrow> cint)) option \<Rightarrow> ('e \<Rightarrow> (32 word \<times> 32 word) \<times> 'e) \<Rightarrow> ('e \<Rightarrow> int \<times> 'e) \<Rightarrow> ('e \<Rightarrow> 'e) \<Rightarrow> sampler \<Rightarrow> 'e clk
   \<Rightarrow> (nat + rat \<times> sampler \<times> 'e clk) option" where
  "fcyc mem junk rdtsc utime run f c = do {
     r \<leftarrow> sample_loop junk (if compensate f then comp_cycles_of rdtsc utime run else cycles_of rdtsc run) (init_sampler mem f) c;
     (case r of Inl code \<Rightarrow> Some (Inl code)
      | Inr (f, c) \<Rightarrow> do {
          vs \<leftarrow> vals f;
          if vs = [] then None else Some (Inr (vs ! 0, f\<lparr>vals := None\<rparr>, c)) }) }"

definition set_fcyc_clear_cache :: "bool \<Rightarrow> sampler \<Rightarrow> sampler" where
  "set_fcyc_clear_cache b f = f\<lparr>clear_cache := b\<rparr>"

definition set_fcyc_cache_size :: "int \<Rightarrow> sampler \<Rightarrow> sampler" where
  "set_fcyc_cache_size n f =
     (if n \<noteq> cache_bytes f then f\<lparr>cache_bytes := n, cache_buf := None\<rparr> else f)"

definition set_fcyc_cache_block :: "int \<Rightarrow> sampler \<Rightarrow> sampler" where
  "set_fcyc_cache_block n f = f\<lparr>cache_block := n\<rparr>"

definition set_fcyc_compensate :: "bool \<Rightarrow> sampler \<Rightarrow> sampler" where
  "set_fcyc_compensate b f = f\<lparr>compensate := b\<rparr>"

definition set_fcyc_k :: "int \<Rightarrow> sampler \<Rightarrow> sampler" where
  "set_fcyc_k k f = f\<lparr>kbest := k\<rparr>"

definition set_fcyc_maxsamples :: "int \<Rightarrow> sampler \<Rightarrow> sampler" where
  "set_fcyc_maxsamples n f = f\<lparr>maxsamples := n\<rparr>"

definition set_fcyc_epsilon :: "rat \<Rightarrow> sampler \<Rightarrow> sampler" where
  "set_fcyc_epsilon x f = f\<lparr>epsilon := x\<rparr>"

section \<open>The function timers of \<open>ftimer.c\<close>\<close>

text \<open>\<open>gettimeofday\<close> yields seconds and microseconds; \<open>f\<close> runs \<open>n\<close> times on the environment.\<close>

definition gettod_secs :: "int \<times> int \<Rightarrow> int \<times> int \<Rightarrow> nat \<Rightarrow> rat" where
  "gettod_secs stv etv n =
     (let diff = 1000 * of_int (fst etv - fst stv) + (1 / 1000) * of_int (snd etv - snd stv);
          diff = diff / of_nat n
      in (1 / 1000) * diff)"

definition ftimer_gettod ::
  "('e \<Rightarrow> (int \<times> int) \<times> 'e) \<Rightarrow> ('e \<Rightarrow> 'e) \<Rightarrow> nat \<Rightarrow> 'e \<Rightarrow> rat \<times> 'e" where
  "ftimer_gettod gettimeofday f n e =
     (let (stv, e) = gettimeofday e;
          e = (f ^^ n) e;
          (etv, e) = gettimeofday e
      in (gettod_secs stv etv n, e))"

definition MAX_ETIME :: int where "MAX_ETIME = 86400"

text \<open>The three interval timers; \<open>setitimer\<close> and \<open>getitimer\<close> act on the environment.\<close>

datatype itimer = ITIMER_VIRTUAL | ITIMER_REAL | ITIMER_PROF

definition init_etime :: "(itimer \<Rightarrow> int \<times> int \<Rightarrow> 'e \<Rightarrow> 'e) \<Rightarrow> 'e \<Rightarrow> 'e" where
  "init_etime setitimer e =
     (let e = setitimer ITIMER_VIRTUAL (MAX_ETIME, 0) e;
          e = setitimer ITIMER_REAL (MAX_ETIME, 0) e
      in setitimer ITIMER_PROF (MAX_ETIME, 0) e)"

definition get_etime :: "(itimer \<Rightarrow> 'e \<Rightarrow> (int \<times> int) \<times> 'e) \<Rightarrow> 'e \<Rightarrow> rat \<times> 'e" where
  "get_etime getitimer e =
     (let (v_curr, e) = getitimer ITIMER_VIRTUAL e;
          (r_curr, e) = getitimer ITIMER_REAL e;
          (p_curr, e) = getitimer ITIMER_PROF e
      in (of_int (MAX_ETIME - fst r_curr) + of_int (0 - snd r_curr) * (1 / 1000000), e))"

definition ftimer_itimer ::
  "(itimer \<Rightarrow> int \<times> int \<Rightarrow> 'e \<Rightarrow> 'e) \<Rightarrow> (itimer \<Rightarrow> 'e \<Rightarrow> (int \<times> int) \<times> 'e) \<Rightarrow> ('e \<Rightarrow> 'e) \<Rightarrow> nat \<Rightarrow> 'e
   \<Rightarrow> rat \<times> 'e" where
  "ftimer_itimer setitimer getitimer f n e =
     (let e = init_etime setitimer e;
          (start, e) = get_etime getitimer e;
          e = (f ^^ n) e;
          (now, e) = get_etime getitimer e;
          tmeas = now - start
      in (tmeas / of_nat n, e))"

end
