(* ===== verification/Driver_Main.thy ===== *)
theory Driver_Main
  imports Driver_Eval Timing
begin

text \<open>
  The main program of \<open>src/mdriver.c\<close>: command line, team check, the loops over the trace files, the
  result table and the performance index. The file system, libc's allocator and the clock are
  parameters. A \<open>double\<close> is an exact rational; \<open>None\<close> is undefined behaviour, a function that
  does not return, or a value that is not a number.
\<close>

section \<open>Memory for the driver itself\<close>

text \<open>
  The places where \<open>main\<close> and \<open>read_trace\<close> ask libc for memory: the list of trace files and the copy of its name for the \<open>k\<close>-th option, the
  table of statistics and the four blocks of a trace, for the run on libc's allocator (\<open>True\<close>) and on the package (\<open>False\<close>).
\<close>

datatype site = Arg_list nat | Arg_copy nat | Stats_table bool | Reading bool int nat

section \<open>Command line\<close>

record options =
  tracefiles :: "string list option"
  tracedir :: string
  team_check :: bool
  run_libc :: bool
  autograder :: bool
  verbose :: nat

definition default_options :: options where
  "default_options = \<lparr>tracefiles = None, tracedir = ''./traces/'', team_check = True,
     run_libc = False, autograder = False, verbose = 0\<rparr>"

datatype 'a prog = Running 'a | Exited nat

text \<open>
  The \<open>switch\<close> on what \<open>getopt\<close> delivers: an option character with its argument. \<open>num_tracefiles == 1\<close>
  holds in the loop exactly when \<open>-f\<close> was seen. An empty argument of \<open>-t\<close> indexes \<open>tracedir[-1]\<close>, and
  one of \<open>MAXLINE\<close> characters overruns it. \<open>-f\<close> exits where \<open>realloc\<close> fails. Where \<open>strdup\<close> fails it leaves a null
  pointer for \<open>strcat\<close> to read; the model gives up at once, although \<open>main\<close> may still exit before it gets there.
\<close>

definition parse_opt :: "(site \<Rightarrow> 32 word \<Rightarrow> bool) \<Rightarrow> nat \<Rightarrow> char \<Rightarrow> string \<Rightarrow> options \<Rightarrow> options prog option" where
  "parse_opt grants k c optarg opt =
     (if c = CHR ''g'' then Some (Running (opt\<lparr>autograder := True\<rparr>))
      else if c = CHR ''f'' then
        (if \<not> grants (Arg_list k) 8 then Some (Exited 1)
         else if \<not> grants (Arg_copy k) (of_nat (length optarg + 1)) then None
         else Some (Running (opt\<lparr>tracedir := ''./'', tracefiles := Some [optarg]\<rparr>)))
      else if c = CHR ''t'' then
        (if tracefiles opt \<noteq> None then Some (Running opt)
         else if optarg = '''' then None
         else (let d = (if last optarg \<noteq> CHR ''/'' then optarg @ ''/'' else optarg)
           in if length d < MAXLINE then Some (Running (opt\<lparr>tracedir := d\<rparr>)) else None))
      else if c = CHR ''a'' then Some (Running (opt\<lparr>team_check := False\<rparr>))
      else if c = CHR ''l'' then Some (Running (opt\<lparr>run_libc := True\<rparr>))
      else if c = CHR ''v'' then Some (Running (opt\<lparr>verbose := 1\<rparr>))
      else if c = CHR ''V'' then Some (Running (opt\<lparr>verbose := 2\<rparr>))
      else if c = CHR ''h'' then Some (Exited 0)
      else Some (Exited 1))"

fun parse_opts ::
  "(site \<Rightarrow> 32 word \<Rightarrow> bool) \<Rightarrow> nat \<Rightarrow> (char \<times> string) list \<Rightarrow> options \<Rightarrow> options prog option" where
  "parse_opts grants k [] opt = Some (Running opt)"
| "parse_opts grants k ((c, a) # cs) opt = do {
     r \<leftarrow> parse_opt grants k c a opt;
     (case r of Exited code \<Rightarrow> Some (Exited code) | Running opt \<Rightarrow> parse_opts grants (k + 1) cs opt) }"

definition default_tracefiles :: "string list" where
  "default_tracefiles = [''amptjp-bal.rep'', ''cccp-bal.rep'', ''cp-decl-bal.rep'', ''expr-bal.rep'',
     ''coalescing-bal.rep'', ''random-bal.rep'', ''random2-bal.rep'', ''binary-bal.rep'',
     ''binary2-bal.rep'', ''realloc-bal.rep'', ''realloc2-bal.rep'']"

section \<open>Team check\<close>

record team =
  teamname :: string
  name1 :: string
  id1 :: string
  name2 :: string
  id2 :: string

text \<open>\<open>Exited 1\<close> when the structure in \<open>mm.c\<close> is not filled in.\<close>

definition check_team :: "team \<Rightarrow> unit prog" where
  "check_team t =
     (if teamname t = '''' then Exited 1
      else if name1 t = '''' \<or> id1 t = '''' then Exited 1
      else if name2 t \<noteq> '''' \<and> id2 t = '''' \<or> name2 t = '''' \<and> id2 t \<noteq> '''' then Exited 1
      else Running ())"

section \<open>Evaluating the trace files\<close>

record stats =
  st_ops :: rat
  st_valid :: bool
  st_secs :: rat
  st_util :: rat

definition zero_stats :: stats where
  "zero_stats = \<lparr>st_ops = 0, st_valid = False, st_secs = 0, st_util = 0\<rparr>"

text \<open>The program's state; \<open>m_env\<close> is what the clock reads.\<close>

record ('a, 'e) mdriver =
  m_drv :: drv
  m_mem :: "'a mem_scheme"
  m_ranges :: "range list"
  m_env :: 'e

text \<open>The outside world: what libc has memory for, uninitialised memory and the file system.\<close>

record world =
  o_grants :: "site \<Rightarrow> 32 word \<Rightarrow> bool"
  o_junk :: "32 word"
  o_junk_ops :: "nat \<Rightarrow> traceop"
  o_junk_addr :: "nat \<Rightarrow> addr"
  o_file :: "string \<Rightarrow> string option"

text \<open>\<open>Aborted\<close> is a failed \<open>assert\<close> of \<open>read_trace\<close>.\<close>

datatype 'a outcome = Finished 'a | Exit_with nat | Aborted

fun speed_runs ::
  "('a, 'b) mmpkg_scheme \<Rightarrow> nat \<Rightarrow> 'a mem_scheme \<times> trace \<Rightarrow> ('a mem_scheme \<times> trace) run option" where
  "speed_runs pk 0 st = Some (Ran st)"
| "speed_runs pk (Suc n) (s, t) = do {
     r \<leftarrow> eval_mm_speed pk s t;
     (case r of App_error m \<Rightarrow> Some (App_error m) | Ran st \<Rightarrow> speed_runs pk n st) }"

text \<open>\<open>fsecs(eval_mm_speed, &speed_params)\<close>: ten runs between two readings of the clock.\<close>

definition timed_speed ::
  "('a, 'b) mmpkg_scheme \<Rightarrow> ('e \<Rightarrow> (int \<times> int) \<times> 'e) \<Rightarrow> 'a mem_scheme \<Rightarrow> trace \<Rightarrow> 'e
   \<Rightarrow> (rat \<times> 'a mem_scheme \<times> 'e) run option" where
  "timed_speed pk gettimeofday s t e = do {
     let (stv, e) = gettimeofday e;
     r \<leftarrow> speed_runs pk 10 (s, t);
     (case r of App_error m \<Rightarrow> Some (App_error m)
      | Ran (s, t) \<Rightarrow> (let (etv, e) = gettimeofday e in Some (Ran (gettod_secs stv etv 10, s, e)))) }"

definition eval_trace ::
  "('a, 'b) mmpkg_scheme \<Rightarrow> world \<Rightarrow> ('e \<Rightarrow> (int \<times> int) \<times> 'e) \<Rightarrow> string \<Rightarrow> int \<Rightarrow> string
   \<Rightarrow> ('a, 'e) mdriver \<Rightarrow> (stats \<times> ('a, 'e) mdriver) outcome option" where
  "eval_trace pk w gettimeofday dir i fname m = do {
     r \<leftarrow> read_trace (\<lambda>k. o_grants w (Reading False i k)) (o_junk w) (o_junk_ops w) (o_junk_addr w) (o_file w) dir fname;
     (case r of Read_exit code \<Rightarrow> Some (Exit_with code) | Read_assert \<Rightarrow> Some Aborted
      | Trace t \<Rightarrow> do {
          let st = zero_stats\<lparr>st_ops := of_int (sint (num_ops t))\<rparr>;
          (good, v) \<leftarrow> eval_mm_valid pk i
            \<lparr>v_drv = m_drv m, v_mem = m_mem m, v_ranges = m_ranges m, v_trace = t\<rparr>;
          let m = m\<lparr>m_drv := v_drv v, m_mem := v_mem v, m_ranges := v_ranges v\<rparr>;
          if \<not> good then Some (Finished (st, m))
          else do {
            r \<leftarrow> eval_mm_util pk (m_mem m) (v_trace v);
            (case r of App_error e \<Rightarrow> Some (Exit_with 1)
             | Ran (util, u) \<Rightarrow> do {
                 r \<leftarrow> timed_speed pk gettimeofday (u_mem u) (u_trace u) (m_env m);
                 (case r of App_error e \<Rightarrow> Some (Exit_with 1)
                  | Ran (secs, s, e) \<Rightarrow>
                      Some (Finished (st\<lparr>st_valid := True, st_util := util, st_secs := secs\<rparr>,
                        m\<lparr>m_mem := s, m_env := e\<rparr>))) }) } }) }"

fun eval_traces ::
  "('a, 'b) mmpkg_scheme \<Rightarrow> world \<Rightarrow> ('e \<Rightarrow> (int \<times> int) \<times> 'e) \<Rightarrow> string \<Rightarrow> int \<Rightarrow> string list
   \<Rightarrow> ('a, 'e) mdriver \<Rightarrow> (stats list \<times> ('a, 'e) mdriver) outcome option" where
  "eval_traces pk w gettimeofday dir i [] m = Some (Finished ([], m))"
| "eval_traces pk w gettimeofday dir i (f # fs) m = do {
     r \<leftarrow> eval_trace pk w gettimeofday dir i f m;
     (case r of Exit_with code \<Rightarrow> Some (Exit_with code) | Aborted \<Rightarrow> Some Aborted
      | Finished (st, m) \<Rightarrow> do {
          r \<leftarrow> eval_traces pk w gettimeofday dir (i + 1) fs m;
          (case r of Exit_with code \<Rightarrow> Some (Exit_with code) | Aborted \<Rightarrow> Some Aborted
           | Finished (sts, m) \<Rightarrow> Some (Finished (st # sts, m))) }) }"

section \<open>Results\<close>

text \<open>
  One line of the table; the numbers before rounding by \<open>printf\<close>. The rate is \<open>None\<close> when the time is 0 and
  the quotient is not finite.
\<close>

datatype row =
  Row_valid nat rat rat rat "rat option" | Row_invalid nat
| Row_total rat rat rat "rat option" | Row_no_total

definition kops :: "rat \<Rightarrow> rat \<Rightarrow> rat option" where
  "kops n secs = (if secs = 0 then None else Some (n / 1000 / secs))"

record totals =
  s_secs :: rat
  s_ops :: rat
  s_util :: rat

fun result_rows :: "nat \<Rightarrow> stats list \<Rightarrow> totals \<Rightarrow> row list \<times> totals" where
  "result_rows i [] a = ([], a)"
| "result_rows i (st # sts) a =
     (if st_valid st then
        (let (rows, a) = result_rows (i + 1) sts
           (a\<lparr>s_secs := s_secs a + st_secs st, s_ops := s_ops a + st_ops st, s_util := s_util a + st_util st\<rparr>)
         in (Row_valid i (st_util st * 100) (st_ops st) (st_secs st) (kops (st_ops st) (st_secs st)) # rows, a))
      else (let (rows, a) = result_rows (i + 1) sts a in (Row_invalid i # rows, a)))"

definition printresults :: "nat \<Rightarrow> stats list \<Rightarrow> row list" where
  "printresults errs sts =
     (let (rows, a) = result_rows 0 sts \<lparr>s_secs = 0, s_ops = 0, s_util = 0\<rparr>
      in rows @ [if errs = 0 then Row_total (s_util a / of_nat (length sts) * 100) (s_ops a) (s_secs a)
                   (kops (s_ops a) (s_secs a))
                 else Row_no_total])"

definition AVG_LIBC_THRUPUT :: rat where "AVG_LIBC_THRUPUT = 600000"
definition UTIL_WEIGHT :: rat where "UTIL_WEIGHT = 60 / 100"

text \<open>The loop that accumulates the statistics runs over all traces, valid or not.\<close>

definition accumulate :: "stats list \<Rightarrow> totals \<times> nat" where
  "accumulate sts = (\<lparr>s_secs = sum_list (map st_secs sts), s_ops = sum_list (map st_ops sts),
     s_util = sum_list (map st_util sts)\<rparr>, length (filter st_valid sts))"

text \<open>
  The two shares of the index. \<open>n / secs\<close> with \<open>secs = 0\<close> is infinite, hence above the cap, unless it is not
  a number (\<open>None\<close>).
\<close>

definition thru_share :: "rat \<Rightarrow> rat \<Rightarrow> rat option" where
  "thru_share n secs =
     (if secs = 0 then (if n > 0 then Some (1 - UTIL_WEIGHT) else None)
      else if n / secs > AVG_LIBC_THRUPUT then Some (1 - UTIL_WEIGHT)
      else Some ((1 - UTIL_WEIGHT) * (n / secs / AVG_LIBC_THRUPUT)))"

definition perf_index :: "nat \<Rightarrow> stats list \<Rightarrow> rat option" where
  "perf_index errs sts =
     (if errs = 0 then do {
        let (a, _) = accumulate sts;
        let p1 = UTIL_WEIGHT * (s_util a / of_nat (length sts));
        p2 \<leftarrow> thru_share (s_ops a) (s_secs a);
        Some ((p1 + p2) * 100) }
      else Some 0)"

section \<open>The libc run\<close>

fun libc_runs ::
  "('l, 'b) libc_scheme \<Rightarrow> drv \<Rightarrow> nat \<Rightarrow> 'l \<times> trace \<Rightarrow> ('l \<times> trace) lrun option" where
  "libc_runs lc d 0 lt = Some (L_ran lt)"
| "libc_runs lc d (Suc n) (l, t) = do {
     r \<leftarrow> eval_libc_speed lc d l t;
     (case r of Unix_error d m \<Rightarrow> Some (Unix_error d m) | L_ran lt \<Rightarrow> libc_runs lc d n lt) }"

definition timed_libc ::
  "('l, 'b) libc_scheme \<Rightarrow> ('e \<Rightarrow> (int \<times> int) \<times> 'e) \<Rightarrow> drv \<Rightarrow> 'l \<times> trace \<Rightarrow> 'e
   \<Rightarrow> (rat \<times> ('l \<times> trace) \<times> 'e) lrun option" where
  "timed_libc lc gettimeofday d lt e = do {
     let (stv, e) = gettimeofday e;
     r \<leftarrow> libc_runs lc d 10 lt;
     (case r of Unix_error d m \<Rightarrow> Some (Unix_error d m)
      | L_ran lt \<Rightarrow> (let (etv, e) = gettimeofday e in Some (L_ran (gettod_secs stv etv 10, lt, e)))) }"

fun libc_traces ::
  "('l, 'b) libc_scheme \<Rightarrow> world \<Rightarrow> ('e \<Rightarrow> (int \<times> int) \<times> 'e) \<Rightarrow> string \<Rightarrow> int \<Rightarrow> string list \<Rightarrow> drv
   \<Rightarrow> 'l \<times> 'e \<Rightarrow> (stats list \<times> 'l \<times> 'e) outcome option" where
  "libc_traces lc w gettimeofday dir i [] d le = Some (Finished ([], le))"
| "libc_traces lc w gettimeofday dir i (f # fs) d (l, e) = do {
     r \<leftarrow> read_trace (\<lambda>k. o_grants w (Reading True i k)) (o_junk w) (o_junk_ops w) (o_junk_addr w) (o_file w) dir f;
     (case r of Read_exit code \<Rightarrow> Some (Exit_with code) | Read_assert \<Rightarrow> Some Aborted
      | Trace t \<Rightarrow> do {
          r \<leftarrow> eval_libc_valid lc i d l t;
          (case r of Unix_error d m \<Rightarrow> Some (Exit_with 1)
           | L_ran (good, l, t) \<Rightarrow> do {
               let st = zero_stats\<lparr>st_ops := of_int (sint (num_ops t)), st_valid := good\<rparr>;
               r \<leftarrow> (if good then timed_libc lc gettimeofday d (l, t) e else Some (L_ran (0, (l, t), e)));
               (case r of Unix_error d m \<Rightarrow> Some (Exit_with 1)
                | L_ran (secs, (l, t), e) \<Rightarrow> do {
                    let st = st\<lparr>st_secs := secs\<rparr>;
                    r \<leftarrow> libc_traces lc w gettimeofday dir (i + 1) fs d (l, e);
                    (case r of Exit_with code \<Rightarrow> Some (Exit_with code) | Aborted \<Rightarrow> Some Aborted
                     | Finished (sts, le) \<Rightarrow> Some (Finished (st # sts, le))) }) }) }) }"

section \<open>The whole program\<close>

record report =
  rep_libc :: "row list"
  rep_mm :: "row list"
  rep_perf :: rat
  rep_correct :: nat
  rep_errors :: nat

text \<open>
  A statistics record takes 28 bytes. The libc table is printed before the package is run, with the error
  count of that moment.
\<close>

definition mdriver_main ::
  "('a, 'b) mmpkg_scheme \<Rightarrow> ('l, 'c) libc_scheme \<Rightarrow> world \<Rightarrow> ('e \<Rightarrow> (int \<times> int) \<times> 'e) \<Rightarrow> team
   \<Rightarrow> addr \<Rightarrow> (char \<times> string) list \<Rightarrow> 'l \<Rightarrow> ('a, 'e) mdriver \<Rightarrow> report outcome option" where
  "mdriver_main pk lc w gettimeofday tm storage args l m = do {
     r \<leftarrow> parse_opts (o_grants w) 0 args default_options;
     (case r of Exited code \<Rightarrow> Some (Exit_with code)
      | Running opt \<Rightarrow>
        if team_check opt \<and> check_team tm = Exited 1 then Some (Exit_with 1)
        else do {
          let files = (case tracefiles opt of Some fs \<Rightarrow> fs | None \<Rightarrow> default_tracefiles);
          let table = of_nat (length files) * 28;
          r \<leftarrow> (if run_libc opt then
                  (if o_grants w (Stats_table True) table
                   then libc_traces lc w gettimeofday (tracedir opt) 0 files (m_drv m) (l, m_env m) else Some (Exit_with 1))
                else Some (Finished ([], l, m_env m)));
          (case r of Exit_with code \<Rightarrow> Some (Exit_with code) | Aborted \<Rightarrow> Some Aborted
           | Finished (lsts, l, e) \<Rightarrow> do {
             let libc_rows = (if run_libc opt \<and> verbose opt > 0 then printresults (errors (m_drv m)) lsts else []);
             if \<not> o_grants w (Stats_table False) table then Some (Exit_with 1)
             else (case mem_init storage (m_mem m) of
                Inl code \<Rightarrow> Some (Exit_with code)
              | Inr s \<Rightarrow> do {
                  r \<leftarrow> eval_traces pk w gettimeofday (tracedir opt) 0 files (m\<lparr>m_mem := s, m_env := e\<rparr>);
                  (case r of Exit_with code \<Rightarrow> Some (Exit_with code) | Aborted \<Rightarrow> Some Aborted
                   | Finished (sts, m) \<Rightarrow> do {
                       let errs = errors (m_drv m);
                       perf \<leftarrow> perf_index errs sts;
                       Some (Finished \<lparr>
                         rep_libc = libc_rows,
                         rep_mm = (if verbose opt > 0 then printresults errs sts else []),
                         rep_perf = perf, rep_correct = snd (accumulate sts), rep_errors = errs\<rparr>) }) }) }) }) }"

end
