(* ===== verification/Driver_Correct.thy ===== *)
theory Driver_Correct
  imports Driver_Eval
begin

text \<open>
  \<open>eval_mm_valid\<close> against any package that keeps the contract of \<open>src/mm.h\<close>: on a well-formed trace
  it comes to an end, no access leaves the storage, and the only errors it can report are that the
  package ran out of memory. The proof carries the relation between the range list, the arrays
  of the trace and the client's live payloads.
\<close>

section \<open>Bytes, signed and unsigned\<close>

lemma sint_byte_range: "- 128 \<le> sint (b :: byte)" "sint (b :: byte) < 128"
  using sint_greater_eq [of b] sint_less [of b] by simp_all

lemma sint_scast_byte: "sint (scast (b :: byte) :: cint) = sint b"
proof -
  have "signed_take_bit 31 (sint b) = sint b"
    using sint_byte_range [of b] by (intro signed_take_bit_int_eq_self) simp_all
  then show ?thesis by (simp add: signed_scast_eq)
qed

lemma unat_low_byte: "unat (index AND 0xFF :: cint) = unat index mod 256"
proof -
  have "index AND 0xFF = take_bit 8 index" by (simp add: take_bit_eq_mask mask_eq_exp_minus_1)
  then show ?thesis by (simp add: take_bit_eq_mod unat_mod)
qed

lemma unat_fill_byte: "unat (fill_byte index) = unat index mod 256"
  by (simp add: fill_byte_def unsigned_ucast_eq take_bit_eq_mod unat_low_byte)

lemma sint_fill_byte:
  assumes "unat index mod 256 < 128"
  shows "sint (fill_byte index) = int (unat index mod 256)"
proof -
  have "signed_take_bit 7 (uint (fill_byte index)) = uint (fill_byte index)"
    unfolding uint_nat unat_fill_byte using assms by (intro signed_take_bit_int_eq_self) simp_all
  then have "sint (fill_byte index) = uint (fill_byte index)" by (simp add: sint_uint)
  then show ?thesis unfolding uint_nat unat_fill_byte .
qed

lemma fill_byte_signed:
  assumes "unat index mod 256 < 128"
  shows "(scast (fill_byte index) :: cint) = index AND 0xFF"
proof -
  have "sint (index AND 0xFF) = int (unat index mod 256)"
    by (subst sint_small) (simp_all add: unat_low_byte)
  with sint_fill_byte [OF assms] have "sint (scast (fill_byte index) :: cint) = sint (index AND 0xFF)"
    by (simp add: sint_scast_byte)
  then show ?thesis by (rule signed_word_eqI)
qed

text \<open>A sign-extended byte is never equal to a value from 128 to 255.\<close>

lemma signed_byte_neq:
  assumes "128 \<le> unat index mod 256"
  shows "(scast (b :: byte) :: cint) \<noteq> index AND 0xFF"
proof
  assume eq: "(scast b :: cint) = index AND 0xFF"
  have "sint (index AND 0xFF) = int (unat index mod 256)"
    by (subst sint_small) (simp_all add: unat_low_byte)
  then have "sint b = int (unat index mod 256)" using sint_scast_byte [of b] eq by simp
  with assms sint_byte_range(2) [of b] show False by simp
qed

section \<open>Well-formed traces\<close>

text \<open>
  An index is allocated before it is used and not twice; requests are positive and at most \<open>B\<close>
  bytes; and because of the signed comparison in \<open>eval_mm_valid\<close> an index that is reallocated has a
  low byte below 128.
\<close>

fun wf_ops :: "nat \<Rightarrow> nat \<Rightarrow> nat list \<Rightarrow> traceop list \<Rightarrow> bool" where
  "wf_ops n B held [] \<longleftrightarrow> True"
| "wf_ops n B held (p # ps) \<longleftrightarrow> 0 \<le> sint (op_index p) \<and> unat (op_index p) < n \<and>
     (case op_type p of
        ALLOC \<Rightarrow> unat (op_index p) \<notin> set held \<and> 0 < sint (op_size p) \<and> unat (op_size p) \<le> B
          \<and> wf_ops n B (unat (op_index p) # held) ps
      | REALLOC \<Rightarrow> unat (op_index p) \<in> set held \<and> 0 < sint (op_size p) \<and> unat (op_size p) \<le> B
          \<and> unat (op_index p) mod 256 < 128 \<and> wf_ops n B held ps
      | FREE \<Rightarrow> unat (op_index p) \<in> set held \<and> wf_ops n B (removeAll (unat (op_index p)) held) ps)"

section \<open>The invariant of the evaluation\<close>

definition block_range :: "trace \<Rightarrow> nat \<Rightarrow> range" where
  "block_range t k = (blocks t ! k, blocks t ! k + block_sizes t ! k - 1)"

text \<open>Index \<open>k\<close> holds a live block, filled with its low byte.\<close>

definition holds :: "(addr \<rightharpoonup> byte list) \<Rightarrow> trace \<Rightarrow> nat \<Rightarrow> bool" where
  "holds L t k \<longleftrightarrow> 0 < sint (block_sizes t ! k) \<and> (\<exists>cs. L (blocks t ! k) = Some cs
     \<and> unat (block_sizes t ! k) \<le> length cs
     \<and> (\<forall>m < unat (block_sizes t ! k). cs ! m = fill_byte (of_nat k)))"

definition vinv ::
  "('a mem_scheme \<Rightarrow> (addr \<rightharpoonup> byte list) \<Rightarrow> bool) \<Rightarrow> nat \<Rightarrow> nat \<Rightarrow> nat list \<Rightarrow> 'a vstate \<Rightarrow> bool" where
  "vinv repr n B held v \<longleftrightarrow>
     length (blocks (v_trace v)) = n \<and> length (block_sizes (v_trace v)) = n
     \<and> unat (mem_max_addr (v_mem v)) + B + 4112 < 2 ^ 32 \<and> (\<forall>k \<in> set held. k < n)
     \<and> distinct (map fst (v_ranges v)) \<and> set (v_ranges v) = block_range (v_trace v) ` set held
     \<and> inj_on (\<lambda>k. blocks (v_trace v) ! k) (set held)
     \<and> (\<exists>L. repr (v_mem v) L \<and> (\<forall>k \<in> set held. holds L (v_trace v) k)
       \<and> dom L \<subseteq> (\<lambda>k. blocks (v_trace v) ! k) ` set held)"

lemma vinvD:
  assumes "vinv repr n B held v"
  shows "length (blocks (v_trace v)) = n" "length (block_sizes (v_trace v)) = n"
    "unat (mem_max_addr (v_mem v)) + B + 4112 < 2 ^ 32" "\<forall>k \<in> set held. k < n"
    "distinct (map fst (v_ranges v))" "set (v_ranges v) = block_range (v_trace v) ` set held"
    "inj_on (\<lambda>k. blocks (v_trace v) ! k) (set held)"
    "\<exists>L. repr (v_mem v) L \<and> (\<forall>k \<in> set held. holds L (v_trace v) k)
      \<and> dom L \<subseteq> (\<lambda>k. blocks (v_trace v) ! k) ` set held"
  using assms by (simp_all add: vinv_def)

lemma sint_pos_unat: "0 < sint (w :: cint) \<Longrightarrow> 0 < unat w"
  using sint_nonneg [of w] by (simp del: of_nat_unat)

text \<open>Array accesses at a valid index.\<close>

lemma aget_index: "0 \<le> sint i \<Longrightarrow> unat i < length xs \<Longrightarrow> aget xs i = Some (xs ! unat i)"
  using sint_nonneg [of i] by (simp add: aget_def del: of_nat_unat)

lemma aset_index: "0 \<le> sint i \<Longrightarrow> unat i < length xs \<Longrightarrow> aset xs i x = Some (xs[unat i := x])"
  using sint_nonneg [of i] by (simp add: aset_def del: of_nat_unat)

section \<open>The checks pass\<close>

context live_heap
begin

lemma range_apart:
  assumes r: "repr s L" "L p = Some cs" "L q = Some ds" "p \<noteq> q"
    and y: "0 < unat y" "unat y \<le> length cs" and z: "0 < unat z" "unat z \<le> length ds"
  shows "apart (p, p + y - 1) (q, q + z - 1)"
proof -
  have lim: "unat (mem_start_brk s) + MAX_HEAP < 2 ^ 32"
    using live_geom [OF r(1)] unfolding geom_def by blast
  have "unat (p + y - 1) = unat p + unat y - 1" "unat (q + z - 1) = unat q + unat z - 1"
    using y z lim live_limits(2) [OF r(1,2)] live_limits(2) [OF r(1,3)]
    by (intro unat_range_hi; linarith)+
  with live_disjoint [OF r] y z show ?thesis
    by (auto simp: apart_def word_less_nat_alt)
qed

lemma add_range_live:
  assumes r: "repr s L" "L p = Some cs" and sz: "0 < sint sz" "unat sz \<le> length cs"
    and others: "\<And>x. x \<in> set rs \<Longrightarrow> \<exists>q z ds. x = (q, q + z - 1) \<and> q \<noteq> p \<and> L q = Some ds
      \<and> 0 < unat z \<and> unat z \<le> length ds"
  shows "add_range d s rs p sz tracenum opnum = Some (True, d, (p, p + sz - 1) # rs)"
proof -
  let ?hi = "p + sz - 1"
  have pos: "0 < unat sz" using sz(1) by (rule sint_pos_unat)
  have g: "geom s" using live_geom [OF r(1)] .
  then have lim: "unat (mem_start_brk s) + MAX_HEAP < 2 ^ 32" unfolding geom_def by blast
  note B = live_block [OF r]
  have hi: "unat ?hi = unat p + unat sz - 1"
    using pos sz lim live_limits(2) [OF r] by (intro unat_range_hi) linarith+
  have top: "unat (mem_heap_hi s) = unat (mem_brk s) - 1"
  proof -
    have "1 \<le> unat (mem_brk s)" using B by linarith
    then show ?thesis by (simp add: mem_heap_hi_def unat_sub word_le_nat_alt)
  qed
  have "IS_ALIGNED p" using B by (simp add: IS_ALIGNED_iff)
  moreover have "\<not> (p < mem_heap_lo s \<or> p > mem_heap_hi s \<or> ?hi < mem_heap_lo s \<or> ?hi > mem_heap_hi s)"
    using B sz pos unfolding word_less_nat_alt hi top mem_heap_lo_def by linarith
  moreover have "overlapping p ?hi rs = None"
  proof (rule overlapping_apart)
    show "\<forall>x \<in> set rs. apart (p, ?hi) x"
    proof
      fix x
      assume "x \<in> set rs"
      then obtain q z ds where "x = (q, q + z - 1)" "q \<noteq> p" "L q = Some ds" "0 < unat z" "unat z \<le> length ds"
        using others by blast
      with range_apart [OF r, of q ds sz z] pos sz show "apart (p, ?hi) x" by simp
    qed
    show "p \<le> ?hi" using hi pos by (simp add: word_le_nat_alt)
  qed
  ultimately show ?thesis using sz(1) by (simp add: add_range_def Let_def)
qed

end

lemma preserved_from_ok:
  assumes "\<And>m. m < k \<Longrightarrow> in_storage s (p + of_nat (j + m)) 1 \<and> bytes s (p + of_nat (j + m)) = fill_byte index"
    and "unat index mod 256 < 128"
  shows "preserved_from s p index j k = Some True"
  using assms
proof (induction k arbitrary: j)
  case (Suc k)
  have "preserved_from s p index (j + 1) k = Some True"
  proof (rule Suc.IH)
    show "in_storage s (p + of_nat (j + 1 + m)) 1 \<and> bytes s (p + of_nat (j + 1 + m)) = fill_byte index"
      if "m < k" for m
      using Suc.prems(1) [of "Suc m"] that by (simp add: add.assoc add.left_commute)
  qed (rule Suc.prems(2))
  then show ?case
    using Suc.prems(1) [of 0] fill_byte_signed [OF Suc.prems(2)] by simp
qed simp

section \<open>One request\<close>

text \<open>What the ranges of the held indices are to the live map.\<close>

lemma vinv_others:
  assumes h: "\<forall>k \<in> set held. holds L t k" and x: "x \<in> block_range t ` set held"
  shows "\<exists>q z ds. x = (q, q + z - 1) \<and> q \<in> (\<lambda>k. blocks t ! k) ` set held \<and> L q = Some ds
    \<and> 0 < unat z \<and> unat z \<le> length ds"
proof -
  obtain k where k: "k \<in> set held" "x = block_range t k" using x by blast
  then obtain ds where "L (blocks t ! k) = Some ds" "unat (block_sizes t ! k) \<le> length ds"
    "0 < sint (block_sizes t ! k)" using h by (auto simp: holds_def)
  with k show ?thesis
    by (intro exI [of _ "blocks t ! k"] exI [of _ "block_sizes t ! k"] exI [of _ ds])
      (simp add: block_range_def sint_pos_unat)
qed

definition stored :: "trace \<Rightarrow> nat \<Rightarrow> addr \<Rightarrow> addr \<Rightarrow> trace" where
  "stored t k q sz = t\<lparr>blocks := (blocks t)[k := q], block_sizes := (block_sizes t)[k := sz]\<rparr>"

lemma set_block_stored:
  assumes "0 \<le> sint i" "unat i < length (blocks t)" "unat i < length (block_sizes t)"
  shows "do { t \<leftarrow> set_block t i q; t \<leftarrow> set_block_size t i sz; f t } = f (stored t (unat i) q sz)"
  using assms by (simp add: set_block_def set_block_size_def aset_index stored_def)

lemma stored_other:
  "j \<noteq> k \<Longrightarrow> block_range (stored t k q sz) j = block_range t j"
  "j \<noteq> k \<Longrightarrow> blocks (stored t k q sz) ! j = blocks t ! j"
  "j \<noteq> k \<Longrightarrow> holds L (stored t k q sz) j = holds L t j"
  by (simp_all add: stored_def block_range_def holds_def)

lemma stored_same:
  assumes "k < length (blocks t)" "k < length (block_sizes t)"
  shows "block_range (stored t k q sz) k = (q, q + sz - 1)" "blocks (stored t k q sz) ! k = q"
    "block_sizes (stored t k q sz) ! k = sz"
    "length (blocks (stored t k q sz)) = length (blocks t)"
    "length (block_sizes (stored t k q sz)) = length (block_sizes t)"
  using assms by (simp_all add: stored_def block_range_def)

text \<open>
  Storing a new block under index \<open>k\<close>: the common end of an allocation and a reallocation. \<open>rest\<close> are the other
  indices that are held.
\<close>

context live_heap
begin

lemma store_vinv:
  assumes r: "repr s L" "L q = Some cs" and sz: "0 < sint sz" "unat sz \<le> length cs"
    and t: "length (blocks t) = n" "length (block_sizes t) = n" and k: "k < n" "k \<notin> set rest"
    and rest: "\<forall>j \<in> set rest. j < n \<and> holds L t j \<and> blocks t ! j \<noteq> q"
    and inj: "inj_on (\<lambda>j. blocks t ! j) (set rest)"
    and rs: "distinct (map fst rs)" "set rs = block_range t ` set rest"
    and B: "unat (mem_max_addr s) + B + 4112 < 2 ^ 32"
    and dom: "dom L \<subseteq> insert q ((\<lambda>j. blocks t ! j) ` set rest)"
  shows "\<exists>s'. memset s q (fill_byte (of_nat k)) sz = Some s'
    \<and> vinv repr n B (k # rest) \<lparr>v_drv = d, v_mem = s', v_ranges = (q, q + sz - 1) # rs,
        v_trace = stored t k q sz\<rparr>"
proof -
  obtain s' ds where s': "memset s q (fill_byte (of_nat k)) sz = Some s'" "repr s' (L(q \<mapsto> ds))"
    "same_storage s s'" "length ds = length cs" "\<forall>m < unat sz. ds ! m = fill_byte (of_nat k)"
    using memset_live [OF r sz(2)] by blast
  let ?t = "stored t k q sz"
  note S = stored_same [of k t q sz, unfolded t, OF k(1) k(1)]
  have other: "j \<noteq> k" if "j \<in> set rest" for j using that k(2) by auto
  have "fst x \<noteq> q" if "x \<in> set rs" for x
    using that rest unfolding rs(2) by (auto simp: block_range_def)
  then have "distinct (map fst ((q, q + sz - 1) # rs))" using rs(1) by auto
  moreover have "set ((q, q + sz - 1) # rs) = block_range ?t ` set (k # rest)"
    using rs(2) S(1) other by (simp add: stored_other(1) cong: image_cong_simp)
  moreover have "inj_on (\<lambda>j. blocks ?t ! j) (set (k # rest))"
  proof -
    have "inj_on (\<lambda>j. blocks ?t ! j) (set rest)"
      using inj other by (subst inj_on_cong [of _ _ "\<lambda>j. blocks t ! j"]) (simp_all add: stored_other(2))
    moreover have "q \<notin> (\<lambda>j. blocks ?t ! j) ` set rest"
      using rest other by (auto simp: stored_other(2))
    ultimately show ?thesis using S(2) by (simp add: inj_on_insert k(2))
  qed
  moreover have h: "holds (L(q \<mapsto> ds)) ?t j" if "j \<in> set (k # rest)" for j
  proof (cases "j = k")
    case True
    then show ?thesis using S(2,3) s'(4,5) sz by (simp add: holds_def)
  next
    case False
    then have "holds L t j" "blocks t ! j \<noteq> q" using that rest by auto
    then show ?thesis unfolding stored_other(3) [OF False] by (simp add: holds_def)
  qed
  moreover have "dom (L(q \<mapsto> ds)) \<subseteq> (\<lambda>j. blocks ?t ! j) ` set (k # rest)"
    using dom S(2) other by (auto simp: stored_other(2) cong: image_cong_simp)
  then have "\<exists>L. repr s' L \<and> (\<forall>j \<in> set (k # rest). holds L ?t j) \<and> dom L \<subseteq> (\<lambda>j. blocks ?t ! j) ` set (k # rest)"
    using s'(2) h by blast
  moreover have "mem_max_addr s' = mem_max_addr s" using s'(3) by (simp add: same_storage_def)
  ultimately have "vinv repr n B (k # rest) \<lparr>v_drv = d, v_mem = s', v_ranges = (q, q + sz - 1) # rs,
        v_trace = ?t\<rparr>"
    unfolding vinv_def using s'(2) S(4,5) t k(1) rest B by (intro conjI) auto
  with s'(1) show ?thesis by blast
qed

end

text \<open>A failing request leaves an error of the given kind behind.\<close>

definition fails_with :: "int \<Rightarrow> 'a vstate \<Rightarrow> 'a vstate \<Rightarrow> err_msg \<Rightarrow> bool" where
  "fails_with tracenum v v' m \<longleftrightarrow> (\<exists>i. v_drv v' = malloc_error (v_drv v) tracenum i m)"

context alloc_package
begin

lemma eval_alloc_ok:
  assumes I: "vinv repr n B held v" and pk: "pk_malloc pk = malloc"
    and i: "0 \<le> sint (op_index p)" "unat (op_index p) < n" "unat (op_index p) \<notin> set held"
    and sz: "0 < sint (op_size p)" "unat (op_size p) \<le> B"
  shows "\<exists>good v'. eval_alloc pk tracenum j p v = Some (good, v')
    \<and> (if good then vinv repr n B (unat (op_index p) # held) v' \<and> v_drv v' = v_drv v
       else fails_with tracenum v v' Mm_malloc_failed)
    \<and> (\<exists>L q s. repr (v_mem v) L \<and> malloc (v_mem v) (op_size p) = Some (q, s) \<and> room (v_mem v') = room s
         \<and> good = (q \<noteq> NULL))"
proof -
  note D = vinvD [OF I]
  obtain L where L: "repr (v_mem v) L" "\<forall>k \<in> set held. holds L (v_trace v) k"
    "dom L \<subseteq> (\<lambda>k. blocks (v_trace v) ! k) ` set held" using D(8) by blast
  have pos: "0 < op_size p" using sint_pos_unat [OF sz(1)] by (simp add: word_less_nat_alt)
  have fits: "request_fits (v_mem v) (op_size p)" using D(3) sz(2) by (simp add: request_fits_def)
  obtain q s where m: "malloc (v_mem v) (op_size p) = Some (q, s)" "same_storage (v_mem v) s"
    and q: "if q = NULL then repr s L
      else L q = None \<and> (\<exists>cs. unat (op_size p) \<le> length cs \<and> repr s (L(q \<mapsto> cs)))"
    using malloc_ok [OF L(1) pos fits] by blast
  show ?thesis
  proof (cases "q = NULL")
    case True
    then show ?thesis using m(1) pk L(1) by (auto simp: eval_alloc_def fails_with_def)
  next
    case False
    with q obtain cs where cs: "L q = None" "unat (op_size p) \<le> length cs" "repr s (L(q \<mapsto> cs))" by auto
    let ?L = "L(q \<mapsto> cs)" and ?t = "v_trace v"
    have rest: "\<forall>k \<in> set held. k < n \<and> holds ?L ?t k \<and> blocks ?t ! k \<noteq> q"
    proof
      fix k
      assume k: "k \<in> set held"
      then have h: "holds L ?t k" using L(2) by blast
      then have "blocks ?t ! k \<noteq> q" using cs(1) by (auto simp: holds_def)
      with h k D(4) show "k < n \<and> holds ?L ?t k \<and> blocks ?t ! k \<noteq> q" by (simp add: holds_def)
    qed
    then have h: "\<forall>k \<in> set held. holds ?L ?t k" by blast
    have "add_range (v_drv v) s (v_ranges v) q (op_size p) tracenum j
        = Some (True, v_drv v, (q, q + op_size p - 1) # v_ranges v)"
    proof (rule add_range_live [OF cs(3) _ sz(1) cs(2)])
      fix x
      assume "x \<in> set (v_ranges v)"
      then show "\<exists>q' z ds. x = (q', q' + z - 1) \<and> q' \<noteq> q \<and> ?L q' = Some ds \<and> 0 < unat z \<and> unat z \<le> length ds"
        using vinv_others [OF h, of x] D(6) rest by fastforce
    qed simp
    moreover
    have "\<exists>s'. memset s q (fill_byte (of_nat (unat (op_index p)))) (op_size p) = Some s'
      \<and> vinv repr n B (unat (op_index p) # held) \<lparr>v_drv = v_drv v, v_mem = s',
          v_ranges = (q, q + op_size p - 1) # v_ranges v,
          v_trace = stored ?t (unat (op_index p)) q (op_size p)\<rparr>"
      using D(3) m(2) cs(2) sz(1) i rest subset_insertI2 [OF L(3)]
      by (intro store_vinv [OF cs(3)] D) (simp_all add: same_storage_def)
    then obtain s' where ms: "memset s q (fill_byte (op_index p)) (op_size p) = Some s'"
      and s': "vinv repr n B (unat (op_index p) # held) \<lparr>v_drv = v_drv v, v_mem = s',
          v_ranges = (q, q + op_size p - 1) # v_ranges v,
          v_trace = stored ?t (unat (op_index p)) q (op_size p)\<rparr>" by auto
    note ms
    ultimately have "eval_alloc pk tracenum j p v = Some (True, \<lparr>v_drv = v_drv v, v_mem = s',
          v_ranges = (q, q + op_size p - 1) # v_ranges v,
          v_trace = stored ?t (unat (op_index p)) q (op_size p)\<rparr>)"
      using m(1) pk False
      by (simp add: eval_alloc_def Let_def set_block_stored [OF i(1), of ?t, unfolded D(1,2), OF i(2) i(2)])
    then show ?thesis using s' L(1) m(1) memset_room [OF ms] False
      by (intro exI [of _ True] exI [of _ "\<lparr>v_drv = v_drv v, v_mem = s',
          v_ranges = (q, q + op_size p - 1) # v_ranges v,
          v_trace = stored ?t (unat (op_index p)) q (op_size p)\<rparr>"]) auto
  qed
qed

lemma byte_in_storage:
  assumes r: "repr s L" "L p = Some cs" and k: "k < length cs"
  shows "in_storage s (p + of_nat k) 1"
proof -
  have lim: "unat (mem_start_brk s) + MAX_HEAP < 2 ^ 32"
    using live_geom [OF r(1)] unfolding geom_def by blast
  have "unat (p + of_nat k) = unat p + k"
    using k lim live_limits(2) [OF r] by (intro unat_add_of_nat32) linarith
  with k live_block [OF r] live_limits(3) [OF r] show ?thesis
    by (simp add: in_storage_def word_le_nat_alt)
qed

lemma vinv_set: "set held = set held' \<Longrightarrow> vinv repr n B held v = vinv repr n B held' v"
  by (simp add: vinv_def)

lemma remove_held:
  assumes I: "vinv repr n B held v" and k: "k \<in> set held"
  shows "set (remove_range (v_ranges v) (blocks (v_trace v) ! k)) = block_range (v_trace v) ` set (removeAll k held)"
    and "distinct (map fst (remove_range (v_ranges v) (blocks (v_trace v) ! k)))"
    and "\<forall>j \<in> set (removeAll k held). blocks (v_trace v) ! j \<noteq> blocks (v_trace v) ! k"
proof -
  note D = vinvD [OF I]
  show ne: "\<forall>j \<in> set (removeAll k held). blocks (v_trace v) ! j \<noteq> blocks (v_trace v) ! k"
    using inj_onD [OF D(7)] k by auto
  then show "set (remove_range (v_ranges v) (blocks (v_trace v) ! k)) = block_range (v_trace v) ` set (removeAll k held)"
    using k unfolding set_remove_range [OF D(5)] D(6) by (auto simp: block_range_def)
  show "distinct (map fst (remove_range (v_ranges v) (blocks (v_trace v) ! k)))"
    by (rule distinct_remove_range [OF D(5)])
qed

lemma eval_free_ok:
  assumes I: "vinv repr n B held v" and pk: "pk_free pk = free"
    and i: "0 \<le> sint (op_index p)" "unat (op_index p) < n" "unat (op_index p) \<in> set held"
  shows "\<exists>v'. eval_free pk p v = Some (True, v')
    \<and> vinv repr n B (removeAll (unat (op_index p)) held) v' \<and> v_drv v' = v_drv v
    \<and> (\<exists>L old cs. repr (v_mem v) L \<and> L old = Some cs \<and> free (v_mem v) old = Some (v_mem v'))"
proof -
  note D = vinvD [OF I] and R = remove_held [OF I i(3)]
  let ?t = "v_trace v" and ?k = "unat (op_index p)"
  let ?old = "blocks ?t ! ?k" and ?rest = "removeAll ?k held"
  obtain L where L: "repr (v_mem v) L" "\<forall>k \<in> set held. holds L ?t k" "dom L \<subseteq> (\<lambda>k. blocks ?t ! k) ` set held"
    using D(8) by blast
  obtain cs where cs: "L ?old = Some cs" using L(2) i(3) by (auto simp: holds_def)
  have ag: "aget (blocks ?t) (op_index p) = Some ?old" using i(1,2) D(1) by (simp add: aget_index)
  obtain s where s: "free (v_mem v) ?old = Some s" "same_storage (v_mem v) s" "repr s (L(?old := None))"
    using free_ok [OF L(1) cs] by blast
  let ?v = "v\<lparr>v_ranges := remove_range (v_ranges v) ?old, v_mem := s\<rparr>"
  have "\<forall>k \<in> set ?rest. holds (L(?old := None)) ?t k"
    using L(2) R(3) by (auto simp: holds_def)
  moreover have "inj_on (\<lambda>k. blocks ?t ! k) (set ?rest)"
    by (rule inj_on_subset [OF D(7)]) auto
  moreover have "dom (L(?old := None)) \<subseteq> (\<lambda>k. blocks ?t ! k) ` set ?rest" using L(3) by auto
  ultimately have "vinv repr n B ?rest ?v"
    unfolding vinv_def using D(1-4) R(1,2) s(2,3) by (intro conjI exI [of _ "L(?old := None)"]) (auto simp: same_storage_def)
  then show ?thesis using s(1) pk ag L(1) cs by (auto simp: eval_free_def)
qed

end

context mm_package
begin

lemma eval_realloc_ok:
  assumes I: "vinv repr n B held v" and pk: "pk_realloc pk = realloc"
    and i: "0 \<le> sint (op_index p)" "unat (op_index p) < n" "unat (op_index p) \<in> set held"
    and low: "unat (op_index p) mod 256 < 128"
    and sz: "0 < sint (op_size p)" "unat (op_size p) \<le> B"
  shows "\<exists>good v'. eval_realloc pk tracenum j p v = Some (good, v')
    \<and> (if good then vinv repr n B held v' \<and> v_drv v' = v_drv v
       else fails_with tracenum v v' Mm_realloc_failed)
    \<and> (\<exists>L old cs q s. repr (v_mem v) L \<and> L old = Some cs \<and> realloc (v_mem v) old (op_size p) = Some (q, s)
         \<and> room (v_mem v') = room s \<and> good = (q \<noteq> NULL))"
proof -
  note D = vinvD [OF I] and R = remove_held [OF I i(3)]
  let ?t = "v_trace v" and ?k = "unat (op_index p)"
  let ?old = "blocks ?t ! ?k" and ?osz = "block_sizes ?t ! ?k" and ?rest = "removeAll ?k held"
  obtain L where L: "repr (v_mem v) L" "\<forall>k \<in> set held. holds L ?t k" "dom L \<subseteq> (\<lambda>k. blocks ?t ! k) ` set held"
    using D(8) by blast
  obtain cs where cs: "L ?old = Some cs" "0 < sint ?osz" "unat ?osz \<le> length cs"
    "\<forall>m < unat ?osz. cs ! m = fill_byte (op_index p)"
    using L(2) i(3) by (auto simp: holds_def)
  have pos: "0 < op_size p" using sint_pos_unat [OF sz(1)] by (simp add: word_less_nat_alt)
  have fits: "request_fits (v_mem v) (op_size p)" using D(3) sz(2) by (simp add: request_fits_def)
  have ag: "aget (blocks ?t) (op_index p) = Some ?old" "aget (block_sizes ?t) (op_index p) = Some ?osz"
    using i(1,2) D(1,2) by (simp_all add: aget_index)
  obtain q s where m: "realloc (v_mem v) ?old (op_size p) = Some (q, s)" "same_storage (v_mem v) s"
    and q: "if q = NULL then repr s L
      else (L(?old := None)) q = None \<and> (\<exists>ds. unat (op_size p) \<le> length ds
        \<and> take (min (unat (op_size p)) (length cs)) ds = take (min (unat (op_size p)) (length cs)) cs
        \<and> repr s ((L(?old := None))(q \<mapsto> ds)))"
    using realloc_ok [OF L(1) cs(1) pos fits] by blast
  show ?thesis
  proof (cases "q = NULL")
    case True
    then show ?thesis using m(1) pk ag L(1) cs(1) by (auto simp: eval_realloc_def fails_with_def)
  next
    case False
    with q obtain ds where ds: "(L(?old := None)) q = None" "unat (op_size p) \<le> length ds"
      "take (min (unat (op_size p)) (length cs)) ds = take (min (unat (op_size p)) (length cs)) cs"
      "repr s ((L(?old := None))(q \<mapsto> ds))" by auto
    let ?L = "(L(?old := None))(q \<mapsto> ds)"
    have rest: "\<forall>k \<in> set ?rest. k < n \<and> holds ?L ?t k \<and> blocks ?t ! k \<noteq> q"
    proof
      fix k
      assume k: "k \<in> set ?rest"
      then have h: "holds L ?t k" and ne: "blocks ?t ! k \<noteq> ?old" using L(2) R(3) by auto
      then have "blocks ?t ! k \<noteq> q" using ds(1) by (auto simp: holds_def split: if_splits)
      with h ne k D(4) show "k < n \<and> holds ?L ?t k \<and> blocks ?t ! k \<noteq> q" by (simp add: holds_def)
    qed
    then have h: "\<forall>k \<in> set ?rest. holds ?L ?t k" by blast
    let ?rs = "remove_range (v_ranges v) ?old"
    have add: "add_range (v_drv v) s ?rs q (op_size p) tracenum j
        = Some (True, v_drv v, (q, q + op_size p - 1) # ?rs)"
    proof (rule add_range_live [OF ds(4) _ sz(1) ds(2)])
      fix x
      assume "x \<in> set ?rs"
      then show "\<exists>q' z ds. x = (q', q' + z - 1) \<and> q' \<noteq> q \<and> ?L q' = Some ds \<and> 0 < unat z \<and> unat z \<le> length ds"
        using vinv_others [OF h, of x] R(1) rest by fastforce
    qed simp
    have "nat (sint (if op_size p <s ?osz then op_size p else ?osz)) = min (unat (op_size p)) (unat ?osz)"
      using sint_nonneg [of "op_size p"] sint_nonneg [of ?osz] sz(1) cs(2)
      by (auto simp: word_sless_alt min_def simp del: of_nat_unat)
    moreover have "preserved_from s q (op_index p) 0 (min (unat (op_size p)) (unat ?osz)) = Some True"
    proof (rule preserved_from_ok [OF _ low])
      fix m
      assume "m < min (unat (op_size p)) (unat ?osz)"
      then have m: "m < length ds" "m < min (unat (op_size p)) (length cs)" "m < unat ?osz"
        using ds(2) cs(3) by auto
      have "ds ! m = take (min (unat (op_size p)) (length cs)) ds ! m" using m(2) by simp
      also have "\<dots> = cs ! m" unfolding ds(3) using m(2) by simp
      finally have "ds ! m = fill_byte (op_index p)" using cs(4) m(3) by simp
      then show "in_storage s (q + of_nat (0 + m)) 1 \<and> bytes s (q + of_nat (0 + m)) = fill_byte (op_index p)"
        using byte_in_storage [OF ds(4) _ m(1)] live_bytes [OF ds(4) _ m(1)] by simp
    qed
    ultimately have pres: "preserved_from s q (op_index p) 0
        (nat (sint (if op_size p <s ?osz then op_size p else ?osz))) = Some True" by simp
    have gone: "dom L - {?old} \<subseteq> insert q ((\<lambda>k. blocks ?t ! k) ` (set held - {?k}))" using L(3) by auto
    have "\<exists>s'. memset s q (fill_byte (of_nat ?k)) (op_size p) = Some s'
      \<and> vinv repr n B (?k # ?rest) \<lparr>v_drv = v_drv v, v_mem = s',
          v_ranges = (q, q + op_size p - 1) # ?rs,
          v_trace = stored ?t ?k q (op_size p)\<rparr>"
      using D(3) m(2) ds(2) sz(1) i rest inj_on_subset [OF D(7)] R(1,2) gone
      by (intro store_vinv [OF ds(4)] D) (simp_all add: same_storage_def)
    then obtain s' where ms: "memset s q (fill_byte (op_index p)) (op_size p) = Some s'"
      and s': "vinv repr n B (?k # ?rest) \<lparr>v_drv = v_drv v, v_mem = s',
          v_ranges = (q, q + op_size p - 1) # ?rs,
          v_trace = stored ?t ?k q (op_size p)\<rparr>" by auto
    from ms have "eval_realloc pk tracenum j p v = Some (True, \<lparr>v_drv = v_drv v, v_mem = s',
          v_ranges = (q, q + op_size p - 1) # ?rs, v_trace = stored ?t ?k q (op_size p)\<rparr>)"
      using m(1) pk False ag add pres
      by (simp add: eval_realloc_def Let_def set_block_stored [OF i(1), of ?t, unfolded D(1,2), OF i(2) i(2)])
    moreover have "set (?k # ?rest) = set held" using i(3) by auto
    note s' [unfolded vinv_set [OF this]]
    ultimately show ?thesis using L(1) cs(1) m(1) memset_room [OF ms] False
      by (intro exI [of _ True] exI [of _ "\<lparr>v_drv = v_drv v, v_mem = s',
          v_ranges = (q, q + op_size p - 1) # ?rs, v_trace = stored ?t ?k q (op_size p)\<rparr>"]) auto
  qed
qed

end

section \<open>Whole traces\<close>

context mm_package
begin

lemma eval_op_ok:
  assumes I: "vinv repr n B held v" and w: "wf_ops n B held (p # ps)"
    and pk: "pk_malloc pk = malloc" "pk_free pk = free" "pk_realloc pk = realloc"
  shows "\<exists>good v'. eval_op pk tracenum j p v = Some (good, v')
    \<and> (if good then (\<exists>held'. vinv repr n B held' v' \<and> wf_ops n B held' ps) \<and> v_drv v' = v_drv v
       else fails_with tracenum v v' Mm_malloc_failed \<or> fails_with tracenum v v' Mm_realloc_failed)"
proof (cases "op_type p")
  case ALLOC
  with w have c: "0 \<le> sint (op_index p)" "unat (op_index p) < n" "unat (op_index p) \<notin> set held"
    "0 < sint (op_size p)" "unat (op_size p) \<le> B" "wf_ops n B (unat (op_index p) # held) ps" by simp_all
  obtain good v' where "eval_alloc pk tracenum j p v = Some (good, v')"
    "if good then vinv repr n B (unat (op_index p) # held) v' \<and> v_drv v' = v_drv v
     else fails_with tracenum v v' Mm_malloc_failed"
    using eval_alloc_ok [OF I pk(1) c(1-5)] by blast
  with ALLOC c(6) show ?thesis
    by (intro exI [of _ good] exI [of _ v']) (cases good; simp add: eval_op_def; blast)
next
  case REALLOC
  with w have c: "0 \<le> sint (op_index p)" "unat (op_index p) < n" "unat (op_index p) \<in> set held"
    "unat (op_index p) mod 256 < 128" "0 < sint (op_size p)" "unat (op_size p) \<le> B"
    "wf_ops n B held ps" by simp_all
  obtain good v' where "eval_realloc pk tracenum j p v = Some (good, v')"
    "if good then vinv repr n B held v' \<and> v_drv v' = v_drv v
     else fails_with tracenum v v' Mm_realloc_failed"
    using eval_realloc_ok [OF I pk(3) c(1-6)] by blast
  with REALLOC c(7) show ?thesis
    by (intro exI [of _ good] exI [of _ v']) (cases good; simp add: eval_op_def; blast)
next
  case FREE
  with w have c: "0 \<le> sint (op_index p)" "unat (op_index p) < n" "unat (op_index p) \<in> set held"
    "wf_ops n B (removeAll (unat (op_index p)) held) ps" by simp_all
  obtain v' where "eval_free pk p v = Some (True, v')"
    "vinv repr n B (removeAll (unat (op_index p)) held) v'" "v_drv v' = v_drv v"
    using eval_free_ok [OF I pk(2) c(1-3)] by blast
  with FREE c(4) show ?thesis
    by (intro exI [of _ True] exI [of _ v']) (simp add: eval_op_def; blast)
qed

lemma eval_ops_ok:
  assumes "vinv repr n B held v" "wf_ops n B held ps"
    and pk: "pk_malloc pk = malloc" "pk_free pk = free" "pk_realloc pk = realloc"
  shows "\<exists>good v'. eval_ops pk tracenum j ps v = Some (good, v')
    \<and> (if good then (\<exists>held'. vinv repr n B held' v') \<and> v_drv v' = v_drv v
       else fails_with tracenum v v' Mm_malloc_failed \<or> fails_with tracenum v v' Mm_realloc_failed)"
  using assms(1,2)
proof (induction ps arbitrary: v held j)
  case (Cons p ps)
  obtain good v1 where e: "eval_op pk tracenum j p v = Some (good, v1)"
    and o: "if good then (\<exists>held'. vinv repr n B held' v1 \<and> wf_ops n B held' ps) \<and> v_drv v1 = v_drv v
       else fails_with tracenum v v1 Mm_malloc_failed \<or> fails_with tracenum v v1 Mm_realloc_failed"
    using eval_op_ok [OF Cons.prems pk] by blast
  show ?case
  proof (cases good)
    case False
    with e o show ?thesis by (auto simp: fails_with_def)
  next
    case True
    with o obtain held' where I: "vinv repr n B held' v1" "wf_ops n B held' ps" and d: "v_drv v1 = v_drv v"
      by auto
    from Cons.IH [OF I, of "j + 1"] obtain good2 v2 where
      "eval_ops pk tracenum (j + 1) ps v1 = Some (good2, v2)"
      "if good2 then (\<exists>held'. vinv repr n B held' v2) \<and> v_drv v2 = v_drv v1
       else fails_with tracenum v1 v2 Mm_malloc_failed \<or> fails_with tracenum v1 v2 Mm_realloc_failed" by blast
    with e True d show ?thesis
      by (intro exI [of _ good2] exI [of _ v2]) (cases good2; simp add: fails_with_def)
  qed
qed auto

text \<open>The driver's verdict on a package that keeps its contract.\<close>

lemma eval_mm_valid_ok:
  assumes g: "geom (v_mem v)" and B: "unat (mem_max_addr (v_mem v)) + B + 4112 < 2 ^ 32"
    and n: "length (blocks (v_trace v)) = n" "length (block_sizes (v_trace v)) = n"
    and ps: "trace_ops (v_trace v) = Some ps" "wf_ops n B [] ps"
    and pk: "pk_init pk = init" "pk_malloc pk = malloc" "pk_free pk = free" "pk_realloc pk = realloc"
  shows "\<exists>good v'. eval_mm_valid pk tracenum v = Some (good, v')
    \<and> (if good then v_drv v' = v_drv v
       else fails_with tracenum v v' Mm_malloc_failed \<or> fails_with tracenum v v' Mm_realloc_failed)"
proof -
  let ?s = "mem_reset_brk (v_mem v)"
  have "geom ?s" "mem_brk ?s = mem_start_brk ?s" "request_fits ?s 0"
    using g B by (auto simp: geom_def mem_reset_brk_def request_fits_def)
  from init_ok [OF this] obtain s where s: "init ?s = Some (0, s)" "repr s Map.empty" "same_storage ?s s"
    by blast
  let ?v = "v\<lparr>v_ranges := clear_ranges (v_ranges v), v_mem := s\<rparr>"
  have "vinv repr n B [] ?v"
    using s(2,3) n B by (auto simp: vinv_def clear_ranges_def same_storage_def mem_reset_brk_def)
  from eval_ops_ok [OF this ps(2) pk(2-4), of tracenum 0] obtain good v' where
    "eval_ops pk tracenum 0 ps ?v = Some (good, v')"
    "if good then (\<exists>held'. vinv repr n B held' v') \<and> v_drv v' = v_drv ?v
     else fails_with tracenum ?v v' Mm_malloc_failed \<or> fails_with tracenum ?v v' Mm_realloc_failed" by blast
  with s(1) ps(1) pk(1) show ?thesis
    by (intro exI [of _ good] exI [of _ v']) (cases good; simp add: eval_mm_valid_def Let_def fails_with_def)
qed

end

section \<open>Enough room\<close>

text \<open>What the requests of a trace can use up at most.\<close>

fun demand :: "traceop list \<Rightarrow> nat" where
  "demand [] = 0"
| "demand (p # ps) = (if op_type p = FREE then 0 else need (op_size p)) + demand ps"

context sparing_package
begin

lemma eval_op_served:
  assumes I: "vinv repr n B held v" and w: "wf_ops n B held (p # ps)"
    and pk: "pk_malloc pk = malloc" "pk_free pk = free" "pk_realloc pk = realloc"
    and d: "demand (p # ps) \<le> room (v_mem v)"
  shows "\<exists>v' held'. eval_op pk tracenum j p v = Some (True, v') \<and> vinv repr n B held' v' \<and> wf_ops n B held' ps
    \<and> v_drv v' = v_drv v \<and> demand ps \<le> room (v_mem v')"
proof -
  have fits: "request_fits (v_mem v) (op_size p)" if "unat (op_size p) \<le> B"
    using vinvD(3) [OF I] that by (simp add: request_fits_def)
  have pos: "0 < op_size p" if "0 < sint (op_size p)"
    using sint_pos_unat [OF that] by (simp add: word_less_nat_alt)
  show ?thesis
  proof (cases "op_type p")
    case ALLOC
    with w have c: "0 \<le> sint (op_index p)" "unat (op_index p) < n" "unat (op_index p) \<notin> set held"
      "0 < sint (op_size p)" "unat (op_size p) \<le> B" "wf_ops n B (unat (op_index p) # held) ps" by simp_all
    obtain good v' L q s where e: "eval_alloc pk tracenum j p v = Some (good, v')"
      "if good then vinv repr n B (unat (op_index p) # held) v' \<and> v_drv v' = v_drv v
       else fails_with tracenum v v' Mm_malloc_failed"
      and m: "repr (v_mem v) L" "malloc (v_mem v) (op_size p) = Some (q, s)" "room (v_mem v') = room s"
        "good = (q \<noteq> NULL)"
      using eval_alloc_ok [OF I pk(1) c(1-5), of tracenum j] by (elim exE conjE) (rule that; assumption)
    have "room (v_mem v) \<le> room s + need (op_size p)" "good"
      using malloc_room [OF m(1) pos [OF c(4)] fits [OF c(5)] m(2)] m(4) d ALLOC by auto
    with e m(3) c(6) d ALLOC show ?thesis
      by (intro exI [of _ v'] exI [of _ "unat (op_index p) # held"]) (simp add: eval_op_def)
  next
    case REALLOC
    with w have c: "0 \<le> sint (op_index p)" "unat (op_index p) < n" "unat (op_index p) \<in> set held"
      "unat (op_index p) mod 256 < 128" "0 < sint (op_size p)" "unat (op_size p) \<le> B"
      "wf_ops n B held ps" by simp_all
    obtain good v' L old cs q s where e: "eval_realloc pk tracenum j p v = Some (good, v')"
      "if good then vinv repr n B held v' \<and> v_drv v' = v_drv v
       else fails_with tracenum v v' Mm_realloc_failed"
      and m: "repr (v_mem v) L" "L old = Some cs" "realloc (v_mem v) old (op_size p) = Some (q, s)"
        "room (v_mem v') = room s" "good = (q \<noteq> NULL)"
      using eval_realloc_ok [OF I pk(3) c(1-6), of tracenum j] by (elim exE conjE) (rule that; assumption)
    have "room (v_mem v) \<le> room s + need (op_size p)" "good"
      using realloc_room [OF m(1,2) pos [OF c(5)] fits [OF c(6)] m(3)] m(5) d REALLOC by auto
    with e m(4) c(7) d REALLOC show ?thesis
      by (intro exI [of _ v'] exI [of _ held]) (simp add: eval_op_def)
  next
    case FREE
    with w have c: "0 \<le> sint (op_index p)" "unat (op_index p) < n" "unat (op_index p) \<in> set held"
      "wf_ops n B (removeAll (unat (op_index p)) held) ps" by simp_all
    obtain v' L old cs where e: "eval_free pk p v = Some (True, v')"
      "vinv repr n B (removeAll (unat (op_index p)) held) v'" "v_drv v' = v_drv v"
      and m: "repr (v_mem v) L" "L old = Some cs" "free (v_mem v) old = Some (v_mem v')"
      using eval_free_ok [OF I pk(2) c(1-3)] by (elim exE conjE) (rule that; assumption)
    with free_room [OF m] d FREE c(4) show ?thesis
      by (intro exI [of _ v'] exI [of _ "removeAll (unat (op_index p)) held"]) (simp add: eval_op_def)
  qed
qed

lemma eval_ops_served:
  assumes "vinv repr n B held v" "wf_ops n B held ps" "demand ps \<le> room (v_mem v)"
    and pk: "pk_malloc pk = malloc" "pk_free pk = free" "pk_realloc pk = realloc"
  shows "\<exists>v' held'. eval_ops pk tracenum j ps v = Some (True, v') \<and> v_drv v' = v_drv v \<and> vinv repr n B held' v'"
  using assms(1-3)
proof (induction ps arbitrary: v held j)
  case (Cons p ps)
  obtain v1 held' where e: "eval_op pk tracenum j p v = Some (True, v1)" "v_drv v1 = v_drv v"
    and I: "vinv repr n B held' v1" "wf_ops n B held' ps" "demand ps \<le> room (v_mem v1)"
    using eval_op_served [OF Cons.prems(1,2) pk Cons.prems(3)] by blast
  from Cons.IH [OF I, of "j + 1"] e show ?case by auto
qed auto

text \<open>The driver accepts the package when the storage is large enough for the trace.\<close>

lemma eval_mm_valid_served:
  assumes g: "geom (v_mem v)" and B: "unat (mem_max_addr (v_mem v)) + B + 4112 < 2 ^ 32"
    and n: "length (blocks (v_trace v)) = n" "length (block_sizes (v_trace v)) = n"
    and ps: "trace_ops (v_trace v) = Some ps" "wf_ops n B [] ps"
    and d: "demand ps + 4120 \<le> MAX_HEAP"
    and pk: "pk_init pk = init" "pk_malloc pk = malloc" "pk_free pk = free" "pk_realloc pk = realloc"
  shows "\<exists>v' held. eval_mm_valid pk tracenum v = Some (True, v') \<and> v_drv v' = v_drv v \<and> vinv repr n B held v'"
proof -
  let ?s = "mem_reset_brk (v_mem v)"
  have s0: "geom ?s" "mem_brk ?s = mem_start_brk ?s" "request_fits ?s 0"
    using g B by (auto simp: geom_def mem_reset_brk_def request_fits_def)
  from init_ok [OF this] obtain s where s: "init ?s = Some (0, s)" "repr s Map.empty" "same_storage ?s s"
    by blast
  let ?v = "v\<lparr>v_ranges := clear_ranges (v_ranges v), v_mem := s\<rparr>"
  have "vinv repr n B [] ?v"
    using s(2,3) n B by (auto simp: vinv_def clear_ranges_def same_storage_def mem_reset_brk_def)
  moreover have "demand ps \<le> room (v_mem ?v)" using init_room [OF s0 s(1)] d by simp
  ultimately obtain v' held where "eval_ops pk tracenum 0 ps ?v = Some (True, v')" "v_drv v' = v_drv ?v"
    "vinv repr n B held v'"
    using eval_ops_served [OF _ ps(2) _ pk(2-4), of ?v tracenum 0] by blast
  with s(1) ps(1) pk(1) show ?thesis
    by (intro exI [of _ v'] exI [of _ held]) (simp add: eval_mm_valid_def Let_def)
qed

end

end
