(* ===== verification/Driver_Util.thy ===== *)
theory Driver_Util
  imports Driver_Correct
begin

text \<open>
  \<open>eval_mm_util\<close> of \<open>src/mdriver.c\<close> against its comment: the high water mark of the payload bytes in use (\<open>peak\<close>, computed from the
  trace alone) over the size of the heap. Payloads a client holds do not overlap, so their total never exceeds the heap, the
  32-bit sums do not overflow and the ratio is at most 1. \<open>eval_mm_speed\<close> makes the same calls.
\<close>

section \<open>The high water mark of a trace\<close>

definition size_step :: "traceop \<Rightarrow> (nat \<Rightarrow> nat) \<Rightarrow> nat \<Rightarrow> nat" where
  "size_step p z = z(unat (op_index p) := (if op_type p = FREE then 0 else unat (op_size p)))"

definition peak_from :: "nat \<Rightarrow> (nat \<Rightarrow> nat) \<Rightarrow> traceop list \<Rightarrow> nat" where
  "peak_from n z ps = Max ((\<lambda>i. \<Sum>k<n. fold size_step (take i ps) z k) ` {..length ps})"

definition peak :: "nat \<Rightarrow> traceop list \<Rightarrow> nat" where
  "peak n ps = peak_from n (\<lambda>_. 0) ps"

lemma peak_from_Nil: "peak_from n z [] = (\<Sum>k<n. z k)"
  by (simp add: peak_from_def)

lemma peak_from_Cons: "peak_from n z (p # ps) = max (\<Sum>k<n. z k) (peak_from n (size_step p z) ps)"
  unfolding peak_from_def length_Cons atMost_Suc_eq_insert_0 image_insert image_image by (subst Max_insert) simp_all

lemma peak_from_ge: "(\<Sum>k<n. z k) \<le> peak_from n z ps"
  by (cases ps) (simp_all add: peak_from_Nil peak_from_Cons)

lemma sum_upd:
  fixes z :: "nat \<Rightarrow> nat"
  assumes "k < n"
  shows "(\<Sum>j<n. (z(k := x)) j) + z k = (\<Sum>j<n. z j) + x"
proof -
  have "(\<Sum>j<n. (z(k := x)) j) = x + (\<Sum>j \<in> {..<n} - {k}. z j)"
    using assms by (subst sum.remove [of _ k]) (auto intro: sum.cong)
  moreover have "(\<Sum>j<n. z j) = z k + (\<Sum>j \<in> {..<n} - {k}. z j)"
    using assms by (subst sum.remove [of _ k]) auto
  ultimately show ?thesis by simp
qed

section \<open>The payloads fit into the heap\<close>

definition used_bytes :: "'a mem_scheme \<Rightarrow> nat" where
  "used_bytes s = unat (mem_brk s) - unat (mem_start_brk s)"

lemma used_room:
  assumes "geom s"
  shows "used_bytes s + room s = MAX_HEAP" "unat (mem_heapsize s) = used_bytes s"
proof -
  have le: "mem_start_brk s \<le> mem_brk s" using assms by (simp add: geom_def)
  then show "unat (mem_heapsize s) = used_bytes s"
    by (simp add: mem_heapsize_def used_bytes_def unat_sub)
  show "used_bytes s + room s = MAX_HEAP"
    using unat_max_addr [OF assms] geom_brk_le [OF assms] le
    by (simp add: used_bytes_def room_def word_le_nat_alt)
qed

context live_heap
begin

lemma live_total:
  fixes z :: "nat \<Rightarrow> nat"
  assumes r: "repr s L" and K: "finite K" "inj_on f K" and h: "\<forall>k \<in> K. \<exists>cs. L (f k) = Some cs \<and> z k \<le> length cs"
  shows "(\<Sum>k \<in> K. z k) \<le> used_bytes s"
proof -
  let ?I = "\<lambda>k. {unat (f k)..<unat (f k) + z k}"
  have "?I j \<inter> ?I k = {}" if jk: "j \<in> K" "k \<in> K" "j \<noteq> k" for j k
  proof -
    obtain cs ds where L: "L (f j) = Some cs" "z j \<le> length cs" "L (f k) = Some ds" "z k \<le> length ds"
      using h jk by blast
    have "f j \<noteq> f k" using inj_onD [OF K(2)] jk by blast
    from live_disjoint [OF r L(1,3) this] L(2,4) show ?thesis by auto
  qed
  then have "(\<Sum>k \<in> K. z k) = card (\<Union> (?I ` K))"
    using K(1) by (subst card_UN_disjoint) auto
  also have "\<dots> \<le> card {unat (mem_start_brk s)..<unat (mem_brk s)}"
    using h live_block [OF r] by (intro card_mono) fastforce+
  finally show ?thesis by (simp add: used_bytes_def)
qed

end

section \<open>One request\<close>

text \<open>
  \<open>z\<close> gives the bytes each index holds, \<open>mx\<close> the high water mark so far. The totals in the state are these numbers, and
  they fit into an \<open>int\<close> because the bytes held fit into the heap.
\<close>

definition uinv ::
  "('a mem_scheme \<Rightarrow> (addr \<rightharpoonup> byte list) \<Rightarrow> bool) \<Rightarrow> nat \<Rightarrow> nat \<Rightarrow> nat list \<Rightarrow> (nat \<Rightarrow> nat) \<Rightarrow> nat \<Rightarrow> 'a ustate \<Rightarrow> bool" where
  "uinv repr n B held z mx u \<longleftrightarrow>
     length (blocks (u_trace u)) = n \<and> length (block_sizes (u_trace u)) = n
     \<and> unat (mem_max_addr (u_mem u)) + B + 4112 < 2 ^ 32
     \<and> (\<forall>k. z k = (if k \<in> set held then unat (block_sizes (u_trace u) ! k) else 0)) \<and> (\<forall>k \<in> set held. k < n)
     \<and> inj_on (\<lambda>k. blocks (u_trace u) ! k) (set held)
     \<and> (\<exists>L. repr (u_mem u) L \<and> (\<forall>k \<in> set held. \<exists>cs. L (blocks (u_trace u) ! k) = Some cs \<and> z k \<le> length cs))
     \<and> u_total u = of_nat (\<Sum>k<n. z k) \<and> u_max u = of_nat mx
     \<and> (\<Sum>k<n. z k) \<le> mx \<and> mx \<le> used_bytes (u_mem u) \<and> 0 < used_bytes (u_mem u)"

lemma uinvD:
  assumes "uinv repr n B held z mx u"
  shows "length (blocks (u_trace u)) = n" "length (block_sizes (u_trace u)) = n"
    "unat (mem_max_addr (u_mem u)) + B + 4112 < 2 ^ 32"
    "z k = (if k \<in> set held then unat (block_sizes (u_trace u) ! k) else 0)" "\<forall>k \<in> set held. k < n"
    "inj_on (\<lambda>k. blocks (u_trace u) ! k) (set held)"
    "\<exists>L. repr (u_mem u) L \<and> (\<forall>k \<in> set held. \<exists>cs. L (blocks (u_trace u) ! k) = Some cs \<and> z k \<le> length cs)"
    "u_total u = of_nat (\<Sum>k<n. z k)" "u_max u = of_nat mx" "(\<Sum>k<n. z k) \<le> mx" "mx \<le> used_bytes (u_mem u)"
    "0 < used_bytes (u_mem u)"
  using assms unfolding uinv_def by blast+

lemma uinv_set: "set held = set held' \<Longrightarrow> uinv repr n B held z mx u = uinv repr n B held' z mx u"
  by (simp add: uinv_def)

lemma sint_of_nat_heap: "a \<le> MAX_HEAP \<Longrightarrow> sint (of_nat a :: cint) = int a"
  by (subst sint_small) (simp_all add: MAX_HEAP_def unat_of_nat32)

lemma max_of_nat:
  assumes "a \<le> MAX_HEAP" "b \<le> MAX_HEAP"
  shows "(if of_nat a <s (of_nat b :: cint) then of_nat b else of_nat a) = (of_nat (max a b) :: cint)"
  using assms by (auto simp: max_def word_sless_alt sint_of_nat_heap)

context live_heap
begin

lemma store_uinv:
  assumes r: "repr s L" "L q = Some cs" and sz: "unat sz \<le> length cs"
    and t: "length (blocks t) = n" "length (block_sizes t) = n" and k: "k < n" "k \<notin> set rest"
    and rest: "\<forall>j \<in> set rest. j < n \<and> blocks t ! j \<noteq> q
      \<and> (\<exists>ds. L (blocks t ! j) = Some ds \<and> unat (block_sizes t ! j) \<le> length ds)"
    and inj: "inj_on (\<lambda>j. blocks t ! j) (set rest)"
    and B: "unat (mem_max_addr s) + B + 4112 < 2 ^ 32"
    and z: "\<And>j. z j = (if j = k then unat sz else if j \<in> set rest then unat (block_sizes t ! j) else 0)"
    and tot: "tot = of_nat (\<Sum>j<n. z j)" and mx: "mx \<le> used_bytes s" "0 < used_bytes s"
  shows "uinv repr n B (k # rest) z (max mx (\<Sum>j<n. z j)) \<lparr>u_mem = s, u_trace = stored t k q sz, u_total = tot,
    u_max = (if of_nat mx <s tot then tot else of_nat mx)\<rparr>"
proof -
  let ?t = "stored t k q sz"
  note S = stored_same [of k t q sz, unfolded t, OF k(1) k(1)]
  have other: "j \<noteq> k" if "j \<in> set rest" for j using that k(2) by auto
  have inj': "inj_on (\<lambda>j. blocks ?t ! j) (set (k # rest))"
  proof -
    have "inj_on (\<lambda>j. blocks ?t ! j) (set rest)"
      using inj other by (subst inj_on_cong [of _ _ "\<lambda>j. blocks t ! j"]) (simp_all add: stored_other(2))
    moreover have "q \<notin> (\<lambda>j. blocks ?t ! j) ` set rest"
      using rest other by (auto simp: stored_other(2))
    ultimately show ?thesis using S(2) by (simp add: inj_on_insert k(2))
  qed
  have h: "\<forall>j \<in> set (k # rest). \<exists>ds. L (blocks ?t ! j) = Some ds \<and> z j \<le> length ds"
    using S(2) r(2) sz rest other by (auto simp: z stored_other(2))
  have zt: "z j = (if j \<in> set (k # rest) then unat (block_sizes ?t ! j) else 0)" for j
    using S(3) by (simp add: z stored_def)
  have sub: "set (k # rest) \<subseteq> {..<n}" using k(1) rest by auto
  have "(\<Sum>j \<in> set (k # rest). z j) = (\<Sum>j<n. z j)"
    by (rule sum.mono_neutral_left) (use sub zt in simp_all)
  with live_total [OF r(1) _ inj' h] have le: "(\<Sum>j<n. z j) \<le> used_bytes s" by simp
  have top: "used_bytes s \<le> MAX_HEAP" using used_room(1) [OF live_geom [OF r(1)]] by simp
  have "(if of_nat mx <s tot then tot else of_nat mx) = of_nat (max mx (\<Sum>j<n. z j))"
    using le mx top unfolding tot by (intro max_of_nat) simp_all
  moreover have "\<forall>j \<in> set (k # rest). j < n" using sub by auto
  ultimately show ?thesis
    unfolding uinv_def using r(1) S(4,5) t B zt inj' h le mx tot by (intro conjI) auto
qed

end

context sparing_package
begin

lemma util_op_served:
  assumes I: "uinv repr n B held z mx u" and w: "wf_ops n B held (p # ps)"
    and pk: "pk_malloc pk = malloc" "pk_free pk = free" "pk_realloc pk = realloc"
    and d: "demand (p # ps) \<le> room (u_mem u)"
  shows "\<exists>u' held'. util_op pk p u = Some (Ran u')
    \<and> uinv repr n B held' (size_step p z) (max mx (\<Sum>k<n. size_step p z k)) u'
    \<and> wf_ops n B held' ps \<and> demand ps \<le> room (u_mem u')"
proof -
  note D = uinvD [OF I]
  let ?t = "u_trace u" and ?s = "u_mem u" and ?k = "unat (op_index p)" and ?sz = "op_size p"
  obtain L where L: "repr ?s L" "\<forall>k \<in> set held. \<exists>cs. L (blocks ?t ! k) = Some cs \<and> z k \<le> length cs"
    using D(7) by blast
  have fits: "request_fits ?s ?sz" if "unat ?sz \<le> B" using D(3) that by (simp add: request_fits_def)
  have pos: "0 < ?sz" if "0 < sint ?sz" using sint_pos_unat [OF that] by (simp add: word_less_nat_alt)
  have i: "0 \<le> sint (op_index p)" "?k < n" using w by simp_all
  have ag: "aget (blocks ?t) (op_index p) = Some (blocks ?t ! ?k)"
    "aget (block_sizes ?t) (op_index p) = Some (block_sizes ?t ! ?k)"
    using i D(1,2) by (simp_all add: aget_index)
  have up: "(\<Sum>k<n. size_step p z k) + z ?k = (\<Sum>k<n. z k) + (if op_type p = FREE then 0 else unat ?sz)"
    unfolding size_step_def by (rule sum_upd [OF i(2)])
  then have tot: "u_total u + of_nat (if op_type p = FREE then 0 else unat ?sz) - of_nat (z ?k)
      = of_nat (\<Sum>k<n. size_step p z k)"
    unfolding D(8) by (metis add_diff_cancel_right' of_nat_add)
  have mono: "used_bytes ?s \<le> used_bytes s'" if "same_storage ?s s'" "geom s'" "room s' \<le> room ?s" for s' :: "'a mem_scheme"
    using used_room(1) [OF live_geom [OF L(1)]] used_room(1) [OF that(2)] that(3) by simp
  show ?thesis
  proof (cases "op_type p")
    case ALLOC
    with w have c: "?k \<notin> set held" "0 < sint ?sz" "unat ?sz \<le> B" "wf_ops n B (?k # held) ps" by simp_all
    obtain q s where m: "malloc ?s ?sz = Some (q, s)" "same_storage ?s s"
      and q: "if q = NULL then repr s L else L q = None \<and> (\<exists>cs. unat ?sz \<le> length cs \<and> repr s (L(q \<mapsto> cs)))"
      using malloc_ok [OF L(1) pos [OF c(2)] fits [OF c(3)]] by blast
    note R = malloc_room [OF L(1) pos [OF c(2)] fits [OF c(3)] m(1)]
    have q0: "q \<noteq> NULL" using R d ALLOC by auto
    with q obtain cs where cs: "L q = None" "unat ?sz \<le> length cs" "repr s (L(q \<mapsto> cs))" by auto
    let ?tot = "u_total u + ?sz"
    have "uinv repr n B (?k # held) (size_step p z) (max mx (\<Sum>j<n. size_step p z j))
      \<lparr>u_mem = s, u_trace = stored ?t ?k q ?sz, u_total = ?tot, u_max = (if of_nat mx <s ?tot then ?tot else of_nat mx)\<rparr>"
    proof (rule store_uinv [OF cs(3) _ cs(2) D(1,2) i(2) c(1) _ D(6)])
      show "\<forall>j \<in> set held. j < n \<and> blocks ?t ! j \<noteq> q
          \<and> (\<exists>ds. (L(q \<mapsto> cs)) (blocks ?t ! j) = Some ds \<and> unat (block_sizes ?t ! j) \<le> length ds)"
        using L(2) D(4,5) cs(1) by fastforce
      show "mx \<le> used_bytes s" "0 < used_bytes s" using D(11,12) mono [OF m(2) live_geom [OF cs(3)]] R by linarith+
      show "?tot = of_nat (\<Sum>j<n. size_step p z j)" using tot ALLOC c(1) D(4) [of ?k] by simp
    qed (use D(3,4) m(2) ALLOC in \<open>simp_all add: same_storage_def size_step_def\<close>)
    moreover have "util_op pk p u = Some (Ran \<lparr>u_mem = s, u_trace = stored ?t ?k q ?sz, u_total = ?tot,
        u_max = (if of_nat mx <s ?tot then ?tot else of_nat mx)\<rparr>)"
      using ALLOC m(1) pk(1) q0 D(9)
      by (simp add: util_op_def Let_def set_block_stored [OF i(1), of ?t, unfolded D(1,2), OF i(2) i(2)])
    ultimately show ?thesis using c(4) R d ALLOC
      by (intro exI [of _ "\<lparr>u_mem = s, u_trace = stored ?t ?k q ?sz, u_total = ?tot,
        u_max = (if of_nat mx <s ?tot then ?tot else of_nat mx)\<rparr>"] exI [of _ "?k # held"]) simp
  next
    case REALLOC
    with w have c: "?k \<in> set held" "0 < sint ?sz" "unat ?sz \<le> B" "wf_ops n B held ps" by simp_all
    let ?old = "blocks ?t ! ?k" and ?rest = "removeAll ?k held"
    obtain cs where cs: "L ?old = Some cs" using L(2) c(1) by blast
    obtain q s where m: "realloc ?s ?old ?sz = Some (q, s)" "same_storage ?s s"
      and q: "if q = NULL then repr s L else (L(?old := None)) q = None
        \<and> (\<exists>ds. unat ?sz \<le> length ds
          \<and> take (min (unat ?sz) (length cs)) ds = take (min (unat ?sz) (length cs)) cs
          \<and> repr s ((L(?old := None))(q \<mapsto> ds)))"
      using realloc_ok [OF L(1) cs pos [OF c(2)] fits [OF c(3)]] by blast
    note R = realloc_room [OF L(1) cs pos [OF c(2)] fits [OF c(3)] m(1)]
    have q0: "q \<noteq> NULL" using R d REALLOC by auto
    with q obtain ds where ds: "(L(?old := None)) q = None" "unat ?sz \<le> length ds" "repr s ((L(?old := None))(q \<mapsto> ds))"
      by auto
    have ne: "blocks ?t ! j \<noteq> ?old" if "j \<in> set ?rest" for j
      using inj_onD [OF D(6)] c(1) that by auto
    let ?tot = "u_total u + (?sz - block_sizes ?t ! ?k)"
    let ?u = "\<lparr>u_mem = s, u_trace = stored ?t ?k q ?sz, u_total = ?tot, u_max = (if of_nat mx <s ?tot then ?tot else of_nat mx)\<rparr>"
    have "uinv repr n B (?k # ?rest) (size_step p z) (max mx (\<Sum>j<n. size_step p z j)) ?u"
    proof (rule store_uinv [OF ds(3) _ ds(2) D(1,2) i(2)])
      show "\<forall>j \<in> set ?rest. j < n \<and> blocks ?t ! j \<noteq> q
          \<and> (\<exists>es. ((L(?old := None))(q \<mapsto> ds)) (blocks ?t ! j) = Some es \<and> unat (block_sizes ?t ! j) \<le> length es)"
      proof
        fix j
        assume j: "j \<in> set ?rest"
        then obtain es where es: "L (blocks ?t ! j) = Some es" "z j \<le> length es" using L(2) by auto
        then have "blocks ?t ! j \<noteq> q" using ds(1) ne [OF j] by (auto split: if_splits)
        with es ne [OF j] j D(4) [of j] D(5) show "j < n \<and> blocks ?t ! j \<noteq> q
          \<and> (\<exists>es. ((L(?old := None))(q \<mapsto> ds)) (blocks ?t ! j) = Some es \<and> unat (block_sizes ?t ! j) \<le> length es)"
          by auto
      qed
      show "inj_on (\<lambda>j. blocks ?t ! j) (set ?rest)" by (rule inj_on_subset [OF D(6)]) auto
      show "mx \<le> used_bytes s" "0 < used_bytes s" using D(11,12) mono [OF m(2) live_geom [OF ds(3)]] R by linarith+
      show "?tot = of_nat (\<Sum>j<n. size_step p z j)" using tot REALLOC c(1) D(4) [of ?k] by (simp add: add_diff_eq)
    qed (use D(3,4) m(2) REALLOC in \<open>auto simp: same_storage_def size_step_def\<close>)
    moreover have "set (?k # ?rest) = set held" using c(1) by auto
    ultimately have "uinv repr n B held (size_step p z) (max mx (\<Sum>j<n. size_step p z j)) ?u"
      using uinv_set by blast
    moreover have "util_op pk p u = Some (Ran ?u)"
      using REALLOC m(1) pk(3) q0 ag D(9)
      by (simp add: util_op_def Let_def set_block_stored [OF i(1), of ?t, unfolded D(1,2), OF i(2) i(2)])
    ultimately show ?thesis using c(4) R d REALLOC
      by (intro exI [of _ ?u] exI [of _ held]) simp
  next
    case FREE
    with w have c: "?k \<in> set held" "wf_ops n B (removeAll ?k held) ps" by simp_all
    let ?old = "blocks ?t ! ?k" and ?rest = "removeAll ?k held"
    obtain cs where cs: "L ?old = Some cs" using L(2) c(1) by blast
    obtain s where m: "free ?s ?old = Some s" "same_storage ?s s" "repr s (L(?old := None))"
      using free_ok [OF L(1) cs] by blast
    note R = free_room [OF L(1) cs m(1)]
    have ne: "blocks ?t ! j \<noteq> ?old" if "j \<in> set ?rest" for j
      using inj_onD [OF D(6)] c(1) that by auto
    let ?u = "u\<lparr>u_mem := s, u_total := u_total u - block_sizes ?t ! ?k\<rparr>"
    have le: "(\<Sum>j<n. size_step p z j) \<le> mx" using up FREE D(10) by simp
    have "\<exists>L'. repr s L' \<and> (\<forall>j \<in> set ?rest. \<exists>cs. L' (blocks ?t ! j) = Some cs \<and> size_step p z j \<le> length cs)"
      using m(3) L(2) ne FREE by (intro exI [of _ "L(?old := None)"]) (auto simp: size_step_def)
    moreover have "inj_on (\<lambda>j. blocks ?t ! j) (set ?rest)" by (rule inj_on_subset [OF D(6)]) auto
    moreover have "mx \<le> used_bytes s" "0 < used_bytes s" using D(11,12) mono [OF m(2) live_geom [OF m(3)]] R by linarith+
    moreover have "u_total u - block_sizes ?t ! ?k = of_nat (\<Sum>j<n. size_step p z j)"
      using tot FREE c(1) D(4) [of ?k] by simp
    moreover have "size_step p z j = (if j \<in> set ?rest then unat (block_sizes ?t ! j) else 0)" for j
      using D(4) [of j] FREE by (auto simp: size_step_def)
    ultimately have "uinv repr n B ?rest (size_step p z) mx ?u"
      unfolding uinv_def using D(1-3,5,9) m(2) le by (intro conjI) (auto simp: same_storage_def)
    moreover have "util_op pk p u = Some (Ran ?u)"
      using FREE m(1) pk(2) ag by (simp add: util_op_def)
    ultimately show ?thesis using c(2) R d FREE le
      by (intro exI [of _ ?u] exI [of _ ?rest]) (simp add: max_absorb1)
  qed
qed

lemma util_ops_served:
  assumes "uinv repr n B held z mx u" "wf_ops n B held ps" "demand ps \<le> room (u_mem u)"
    and pk: "pk_malloc pk = malloc" "pk_free pk = free" "pk_realloc pk = realloc"
  shows "\<exists>u' held' z'. util_ops pk ps u = Some (Ran u') \<and> uinv repr n B held' z' (max mx (peak_from n z ps)) u'"
  using assms(1-3)
proof (induction ps arbitrary: u held z mx)
  case Nil
  then have "max mx (peak_from n z []) = mx" using uinvD(10) [OF Nil(1)] by (simp add: peak_from_Nil max_absorb1)
  with Nil show ?case by auto
next
  case (Cons p ps)
  let ?z = "size_step p z" and ?mx = "max mx (\<Sum>k<n. size_step p z k)"
  obtain u1 held1 where u: "util_op pk p u = Some (Ran u1)" "uinv repr n B held1 ?z ?mx u1" "wf_ops n B held1 ps"
    "demand ps \<le> room (u_mem u1)"
    using util_op_served [OF Cons.prems(1,2) pk Cons.prems(3)] by blast
  have "max ?mx (peak_from n ?z ps) = max mx (peak_from n z (p # ps))"
    using peak_from_ge [of ?z n ps] uinvD(10) [OF Cons.prems(1)] unfolding peak_from_Cons by linarith
  with Cons.IH [OF u(2-4)] u(1) show ?case by auto
qed

text \<open>\<open>eval_mm_util\<close> is the high water mark over the size of the heap, and at most 1.\<close>

lemma eval_mm_util_served:
  assumes g: "geom s" and B: "unat (mem_max_addr s) + B + 4112 < 2 ^ 32"
    and n: "length (blocks t) = n" "length (block_sizes t) = n"
    and ps: "trace_ops t = Some ps" "wf_ops n B [] ps"
    and d: "demand ps + 4120 \<le> MAX_HEAP"
    and pk: "pk_init pk = init" "pk_malloc pk = malloc" "pk_free pk = free" "pk_realloc pk = realloc"
  shows "\<exists>u h. eval_mm_util pk s t = Some (Ran (of_nat (peak n ps) / of_nat h, u))
    \<and> h = unat (mem_heapsize (u_mem u)) \<and> 0 < h \<and> peak n ps \<le> h
    \<and> geom (u_mem u) \<and> unat (mem_max_addr (u_mem u)) + B + 4112 < 2 ^ 32"
proof -
  let ?s = "mem_reset_brk s"
  have s0: "geom ?s" "mem_brk ?s = mem_start_brk ?s" "request_fits ?s 0"
    using g B by (auto simp: geom_def mem_reset_brk_def request_fits_def)
  from init_ok [OF this] obtain s1 where s1: "init ?s = Some (0, s1)" "repr s1 Map.empty" "same_storage ?s s1"
    by blast
  let ?u = "\<lparr>u_mem = s1, u_trace = t, u_total = 0, u_max = 0\<rparr>"
  have "uinv repr n B [] (\<lambda>_. 0) 0 ?u"
    using s1(2,3) n B used_room(1) [OF live_geom [OF s1(2)]] init_room [OF s0 s1(1)]
    by (auto simp: uinv_def same_storage_def mem_reset_brk_def)
  moreover have "demand ps \<le> room (u_mem ?u)" using init_room [OF s0 s1(1)] d by simp
  ultimately obtain u held z where u: "util_ops pk ps ?u = Some (Ran u)" "uinv repr n B held z (peak n ps) u"
    using util_ops_served [OF _ ps(2) _ pk(2-4), of "\<lambda>_. 0" 0 ?u] by (auto simp: peak_def)
  note D = uinvD [OF u(2)]
  obtain L where "repr (u_mem u) L" using D(7) by blast
  then have g': "geom (u_mem u)" by (rule live_geom)
  note U = used_room [OF g']
  have "sint (u_max u) = int (peak n ps)" unfolding D(9) by (rule sint_of_nat_heap) (use D(11) U(1) in simp_all)
  then have "(signed (u_max u) :: rat) = of_nat (peak n ps)" by (metis of_int_sint of_int_of_nat_eq)
  with s1(1) ps(1) pk(1) u(1) have "eval_mm_util pk s t
      = Some (Ran (of_nat (peak n ps) / of_nat (unat (mem_heapsize (u_mem u))), u))"
    by (simp add: eval_mm_util_def)
  with D(3,11,12) U(2) g' show ?thesis by auto
qed

end

section \<open>The timed run\<close>

text \<open>\<open>eval_mm_speed\<close> makes the calls of \<open>eval_mm_util\<close>, on the same states, and only the sizes are not recorded.\<close>

lemma set_block_blocks:
  "set_block t i q = Some t' \<longleftrightarrow> (\<exists>bs. aset (blocks t) i q = Some bs \<and> t' = t\<lparr>blocks := bs\<rparr>)"
  "set_block_size t i sz = Some t' \<longleftrightarrow> (\<exists>bs. aset (block_sizes t) i sz = Some bs \<and> t' = t\<lparr>block_sizes := bs\<rparr>)"
  by (auto simp: set_block_def set_block_size_def split: Option.bind_splits)

lemma speed_op_follows:
  assumes "util_op pk p u = Some (Ran u')" "blocks t = blocks (u_trace u)"
  shows "\<exists>t'. speed_op pk p (u_mem u, t) = Some (Ran (u_mem u', t')) \<and> blocks t' = blocks (u_trace u')"
  using assms
  by (auto simp: util_op_def speed_op_def Let_def set_block_blocks set_block_def split: optype.splits Option.bind_splits if_splits)

lemma speed_ops_follow:
  "util_ops pk ps u = Some (Ran u') \<Longrightarrow> blocks t = blocks (u_trace u)
    \<Longrightarrow> \<exists>t'. speed_ops pk ps (u_mem u, t) = Some (Ran (u_mem u', t')) \<and> blocks t' = blocks (u_trace u')"
proof (induction ps arbitrary: u t)
  case (Cons p ps)
  then obtain u1 where u1: "util_op pk p u = Some (Ran u1)" "util_ops pk ps u1 = Some (Ran u')"
    by (auto split: Option.bind_splits run.splits)
  obtain t1 where "speed_op pk p (u_mem u, t) = Some (Ran (u_mem u1, t1))" "blocks t1 = blocks (u_trace u1)"
    using speed_op_follows [OF u1(1) Cons.prems(2)] by blast
  with Cons.IH [OF u1(2)] show ?case by auto
qed auto

lemma eval_mm_speed_follows:
  assumes "eval_mm_util pk s t = Some (Ran (x, u))"
  shows "\<exists>t'. eval_mm_speed pk s t = Some (Ran (u_mem u, t')) \<and> blocks t' = blocks (u_trace u)"
proof -
  obtain r s1 ps where e: "pk_init pk (mem_reset_brk s) = Some (r, s1)" "\<not> r < 0" "trace_ops t = Some ps"
    "util_ops pk ps \<lparr>u_mem = s1, u_trace = t, u_total = 0, u_max = 0\<rparr> = Some (Ran u)"
    using assms by (auto simp: eval_mm_util_def split: Option.bind_splits if_splits run.splits)
  from speed_ops_follow [OF e(4), of t] e(1-3) show ?thesis by (simp add: eval_mm_speed_def)
qed

end
