(* ===== verification/Trace_Shape.thy ===== *)
theory Trace_Shape
  imports Driver_Util
begin

text \<open>
  What the evaluation functions of \<open>src/mdriver.c\<close> change in a trace: the contents of its two arrays of blocks and sizes, not the
  requests and not the lengths.
\<close>

section \<open>What the evaluation changes in a trace\<close>

definition reshaped :: "trace \<Rightarrow> trace \<Rightarrow> bool" where
  "reshaped t t' \<longleftrightarrow> ops t' = ops t \<and> num_ops t' = num_ops t
     \<and> length (blocks t') = length (blocks t) \<and> length (block_sizes t') = length (block_sizes t)"

lemma reshaped_refl [simp]: "reshaped t t"
  by (simp add: reshaped_def)

lemma reshaped_trans: "reshaped t t' \<Longrightarrow> reshaped t' t'' \<Longrightarrow> reshaped t t''"
  by (simp add: reshaped_def)

lemma reshapedD:
  assumes "reshaped t t'"
  shows "length (blocks t') = length (blocks t)" "length (block_sizes t') = length (block_sizes t)" "trace_ops t' = trace_ops t"
  using assms by (simp_all add: reshaped_def trace_ops_def)

lemma set_block_reshaped:
  "set_block t i q = Some t' \<Longrightarrow> reshaped t t'"
  "set_block_size t i sz = Some t' \<Longrightarrow> reshaped t t'"
  by (auto simp: set_block_blocks aset_def reshaped_def split: if_splits)

lemma eval_op_reshaped:
  assumes "eval_op pk tracenum j p v = Some (good, v')"
  shows "reshaped (v_trace v) (v_trace v')"
  using assms
  by (auto simp: eval_op_def eval_alloc_def eval_realloc_def eval_free_def Let_def
    split: optype.splits Option.bind_splits if_splits dest!: set_block_reshaped) (simp_all add: reshaped_def)

lemma eval_ops_reshaped:
  "eval_ops pk tracenum j ps v = Some (good, v') \<Longrightarrow> reshaped (v_trace v) (v_trace v')"
proof (induction ps arbitrary: j v)
  case (Cons p ps)
  then show ?case
    by (auto split: Option.bind_splits if_splits dest: eval_op_reshaped intro: reshaped_trans)
qed simp

lemma eval_mm_valid_reshaped:
  assumes "eval_mm_valid pk tracenum v = Some (good, v')"
  shows "reshaped (v_trace v) (v_trace v')"
  using assms
  by (auto simp: eval_mm_valid_def Let_def split: Option.bind_splits if_splits dest!: eval_ops_reshaped)

lemma util_op_reshaped:
  assumes "util_op pk p u = Some (Ran u')"
  shows "reshaped (u_trace u) (u_trace u')"
  using assms by (auto simp: util_op_def Let_def split: optype.splits Option.bind_splits if_splits dest!: set_block_reshaped) (simp_all add: reshaped_def)

lemma util_ops_reshaped: "util_ops pk ps u = Some (Ran u') \<Longrightarrow> reshaped (u_trace u) (u_trace u')"
proof (induction ps arbitrary: u)
  case (Cons p ps)
  then show ?case
    by (auto split: Option.bind_splits run.splits dest: util_op_reshaped intro: reshaped_trans)
qed simp

lemma eval_mm_util_reshaped:
  assumes "eval_mm_util pk s t = Some (Ran (x, u))"
  shows "reshaped t (u_trace u)"
  using assms
  by (auto simp: eval_mm_util_def split: Option.bind_splits if_splits run.splits dest!: util_ops_reshaped)

lemma speed_op_reshaped:
  assumes "speed_op pk p st = Some (Ran st')"
  shows "reshaped (snd st) (snd st')"
  using assms by (auto simp: speed_op_def split: prod.splits optype.splits Option.bind_splits if_splits dest!: set_block_reshaped)

lemma speed_ops_reshaped: "speed_ops pk ps st = Some (Ran st') \<Longrightarrow> reshaped (snd st) (snd st')"
proof (induction ps arbitrary: st)
  case (Cons p ps)
  then show ?case
    by (auto split: Option.bind_splits run.splits dest: speed_op_reshaped intro: reshaped_trans simp del: snd_conv)
qed simp

lemma eval_mm_speed_reshaped:
  assumes "eval_mm_speed pk s t = Some (Ran (s', t'))"
  shows "reshaped t t'"
  using assms by (auto simp: eval_mm_speed_def split: Option.bind_splits if_splits dest!: speed_ops_reshaped)

end
