(* ===== verification/Driver_Libc.thy ===== *)
theory Driver_Libc
  imports Driver_Main Trace_Shape
begin

text \<open>
  The \<open>-l\<close> option of \<open>src/mdriver.c\<close>: the run on libc's own allocator. Nothing is known of libc but its types, so a run either ends
  or stops at the first call that returns NULL; on a well-formed trace it never leaves the arrays.
\<close>

lemma set_block_in:
  "0 \<le> sint i \<Longrightarrow> unat i < length (blocks t) \<Longrightarrow> \<exists>t'. set_block t i q = Some t' \<and> reshaped t t'"
  using set_block_reshaped(1) [of t i q] by (fastforce simp: set_block_def aset_index)

lemma libc_valid_ops_safe:
  "wf_ops n B held ps \<Longrightarrow> length (blocks t) = n
    \<Longrightarrow> \<exists>r. libc_valid_ops lc tracenum i d ps (l, t) = Some r \<and> (\<forall>l' t'. r = L_ran (l', t') \<longrightarrow> reshaped t t')"
proof (induction ps arbitrary: held i l t)
  case (Cons p ps)
  from Cons.prems have c: "0 \<le> sint (op_index p)" "unat (op_index p) < length (blocks t)" by simp_all
  obtain held' where w: "wf_ops n B held' ps" using Cons.prems(1) by (cases "op_type p") auto
  have ag: "aget (blocks t) (op_index p) = Some (blocks t ! unat (op_index p))" using c by (rule aget_index)
  have step: "\<exists>r. do { t \<leftarrow> set_block t (op_index p) q; libc_valid_ops lc tracenum (i + 1) d ps (l', t) } = Some r
      \<and> (\<forall>l'' t'. r = L_ran (l'', t') \<longrightarrow> reshaped t t')" for q l'
  proof -
    obtain t1 where t1: "set_block t (op_index p) q = Some t1" "reshaped t t1" using set_block_in [OF c] by blast
    have "length (blocks t1) = n" using reshapedD(1) [OF t1(2)] Cons.prems(2) by simp
    from Cons.IH [OF w this, of "i + 1" l'] t1 show ?thesis by (auto intro: reshaped_trans)
  qed
  show ?case
  proof (cases "op_type p")
    case ALLOC
    then show ?thesis using step by (simp split: prod.split)
  next
    case REALLOC
    then show ?thesis using step ag by (simp split: prod.split)
  next
    case FREE
    then show ?thesis using Cons.IH [OF w Cons.prems(2)] ag by simp
  qed
qed simp

text \<open>\<open>eval_libc_speed\<close> makes the same calls as \<open>eval_libc_valid\<close> and differs only in what it says when one fails.\<close>

lemma libc_speed_ops_follow:
  "libc_valid_ops lc tracenum i d ps (l, t) = Some r
    \<Longrightarrow> \<exists>r'. libc_speed_ops lc d' ps (l, t) = Some r' \<and> (\<forall>x. r' = L_ran x \<longleftrightarrow> r = L_ran x)"
proof (induction ps arbitrary: i l t)
  case (Cons p ps)
  show ?case
  proof (cases "op_type p")
    case ALLOC
    with Cons show ?thesis by (fastforce split: prod.splits if_splits Option.bind_splits)
  next
    case REALLOC
    with Cons show ?thesis by (fastforce split: prod.splits if_splits Option.bind_splits)
  next
    case FREE
    with Cons show ?thesis by (fastforce split: Option.bind_splits)
  qed
qed auto

lemma libc_speed_ops_safe:
  assumes "wf_ops n B held ps" "length (blocks t) = n"
  shows "\<exists>r. libc_speed_ops lc d ps (l, t) = Some r \<and> (\<forall>l' t'. r = L_ran (l', t') \<longrightarrow> reshaped t t')"
proof -
  obtain r where r: "libc_valid_ops lc 0 0 d ps (l, t) = Some r" "\<forall>l' t'. r = L_ran (l', t') \<longrightarrow> reshaped t t'"
    using libc_valid_ops_safe [OF assms, of lc 0 0 d l] by blast
  from libc_speed_ops_follow [OF r(1), of d] r(2) show ?thesis by metis
qed

text \<open>A trace the libc run can take: the requests are well-formed for the array of blocks.\<close>

definition libc_ready :: "nat \<Rightarrow> nat \<Rightarrow> traceop list \<Rightarrow> trace \<Rightarrow> bool" where
  "libc_ready n B ps t \<longleftrightarrow> wf_ops n B [] ps \<and> length (blocks t) = n \<and> trace_ops t = Some ps"

lemma libc_ready_reshaped: "libc_ready n B ps t \<Longrightarrow> reshaped t t' \<Longrightarrow> libc_ready n B ps t'"
  by (simp add: libc_ready_def reshapedD)

lemma eval_libc_valid_safe:
  assumes "libc_ready n B ps t"
  shows "\<exists>r. eval_libc_valid lc i d l t = Some r \<and> (\<forall>g l' t'. r = L_ran (g, l', t') \<longrightarrow> g \<and> libc_ready n B ps t')"
proof -
  obtain r where "libc_valid_ops lc i 0 d ps (l, t) = Some r" "\<forall>l' t'. r = L_ran (l', t') \<longrightarrow> reshaped t t'"
    using libc_valid_ops_safe [of n B "[]" ps t lc i 0 d l] assms unfolding libc_ready_def by blast
  with assms libc_ready_reshaped [OF assms] show ?thesis
    by (cases r) (auto simp: eval_libc_valid_def libc_ready_def [of n B ps t])
qed

lemma libc_runs_safe: "libc_ready n B ps t \<Longrightarrow> \<exists>r. libc_runs lc d k (l, t) = Some r"
proof (induction k arbitrary: l t)
  case (Suc k)
  obtain r where r: "libc_speed_ops lc d ps (l, t) = Some r" "\<forall>l' t'. r = L_ran (l', t') \<longrightarrow> reshaped t t'"
    using libc_speed_ops_safe [of n B "[]" ps t lc d l] Suc.prems unfolding libc_ready_def by blast
  have e: "eval_libc_speed lc d l t = Some r" using r(1) Suc.prems by (simp add: eval_libc_speed_def libc_ready_def)
  show ?case
  proof (cases r)
    case (L_ran lt)
    obtain l' t' where lt: "lt = (l', t')" by (cases lt)
    have "libc_ready n B ps t'" using libc_ready_reshaped [OF Suc.prems] r(2) L_ran lt by blast
    from Suc.IH [OF this, of l'] e L_ran lt show ?thesis by simp
  qed (use e in simp)
qed simp

lemma timed_libc_safe: "libc_ready n B ps t \<Longrightarrow> \<exists>r. timed_libc lc gettimeofday d (l, t) e = Some r"
  using libc_runs_safe [of n B ps t lc d 10 l]
  by (auto simp: timed_libc_def split: prod.splits lrun.splits)

end
