(* ===== verification/Driver_Facts.thy ===== *)
theory Driver_Facts
  imports Driver_Main Driver_Correct
begin

text \<open>
  Facts on the driver beside the evaluation: what the range list accepts and what it misses, the comparison
  in the realloc check, the trace directory after the command line, bounds on the performance index.
\<close>

section \<open>The range list\<close>

text \<open>
  What an accepted range is: aligned, inside the heap, and each earlier range is apart from it or lies
  strictly inside it. The last case is not excluded, because only the two ends of the new
  range are tested.
\<close>

lemma add_range_sound:
  assumes "add_range d s rs lo sz tracenum opnum = Some (True, d', rs')"
  shows "8 dvd unat lo" "mem_heap_lo s \<le> lo" "lo + sz - 1 \<le> mem_heap_hi s" "d' = d"
    "rs' = (lo, lo + sz - 1) # rs"
    "\<And>r. r \<in> set rs \<Longrightarrow> apart (lo, lo + sz - 1) r \<or> lo < fst r \<and> snd r < lo + sz - 1"
proof -
  note A = assms [unfolded add_range_def Let_def]
  show "8 dvd unat lo" "mem_heap_lo s \<le> lo" "lo + sz - 1 \<le> mem_heap_hi s" "d' = d"
    "rs' = (lo, lo + sz - 1) # rs"
    using A by (auto simp: IS_ALIGNED_iff split: if_splits option.splits)
  have "overlapping lo (lo + sz - 1) rs = None" using A by (auto split: if_splits option.splits)
  then show "apart (lo, lo + sz - 1) r \<or> lo < fst r \<and> snd r < lo + sz - 1" if "r \<in> set rs" for r
    using that unfolding overlapping_None apart_def by force
qed

lemma add_range_inside:
  assumes "0 < sint sz" "IS_ALIGNED lo" "mem_heap_lo s \<le> lo" "lo \<le> mem_heap_hi s"
    "mem_heap_lo s \<le> lo + sz - 1" "lo + sz - 1 \<le> mem_heap_hi s"
    and "\<And>r. r \<in> set rs \<Longrightarrow> lo < fst r \<and> fst r \<le> snd r \<and> snd r < lo + sz - 1"
  shows "add_range d s rs lo sz tracenum opnum = Some (True, d, (lo, lo + sz - 1) # rs)"
proof -
  have "overlapping lo (lo + sz - 1) rs = None"
    unfolding overlapping_None using assms(7) by force
  with assms(1-6) show ?thesis by (simp add: add_range_def Let_def not_less)
qed

section \<open>The comparison in the realloc check\<close>

lemma preserved_fails:
  assumes "128 \<le> unat index mod 256" "in_storage s (newp + of_nat j) 1"
  shows "preserved_from s newp index j (Suc k) = Some False"
  using signed_byte_neq [OF assms(1)] assms(2) by (simp add: Let_def)

section \<open>Options\<close>

lemma parse_opt_dir:
  assumes "parse_opt grants k c a opt = Some (Running opt')" "tracedir opt \<noteq> '''' \<and> last (tracedir opt) = CHR ''/''"
  shows "tracedir opt' \<noteq> '''' \<and> last (tracedir opt') = CHR ''/''"
  using assms by (auto simp: parse_opt_def Let_def split: if_splits)

lemma parse_opts_dir:
  "parse_opts grants k cs opt = Some (Running opt') \<Longrightarrow> tracedir opt \<noteq> '''' \<and> last (tracedir opt) = CHR ''/''
   \<Longrightarrow> tracedir opt' \<noteq> '''' \<and> last (tracedir opt') = CHR ''/''"
proof (induction grants k cs opt rule: parse_opts.induct)
  case (2 grants k c a cs opt)
  then obtain opt1 where o: "parse_opt grants k c a opt = Some (Running opt1)" "parse_opts grants (k + 1) cs opt1 = Some (Running opt')"
    by (auto split: prog.splits Option.bind_splits)
  show ?case using 2(1) [OF o(1) _ o(2)] parse_opt_dir [OF o(1) 2(3)] by simp
qed simp

section \<open>The performance index\<close>

lemma thru_share_bounds:
  assumes "0 \<le> n" "0 \<le> secs" "thru_share n secs = Some p"
  shows "0 \<le> p" "p \<le> 40 / 100"
proof -
  have q: "0 \<le> n / secs" using assms(1,2) by simp
  then show "0 \<le> p" "p \<le> 40 / 100"
    using assms(3) unfolding thru_share_def UTIL_WEIGHT_def AVG_LIBC_THRUPUT_def
    by (auto simp: not_less split: if_splits)
qed

lemma sum_list_le_length:
  "(\<And>x. x \<in> set xs \<Longrightarrow> 0 \<le> (f x :: rat) \<and> f x \<le> 1) \<Longrightarrow> 0 \<le> sum_list (map f xs) \<and> sum_list (map f xs) \<le> of_nat (length xs)"
  by (induction xs) force+

lemma perf_index_bounds:
  assumes "sts \<noteq> []" and st: "\<And>st. st \<in> set sts \<Longrightarrow> 0 \<le> st_util st \<and> st_util st \<le> 1 \<and> 0 \<le> st_ops st \<and> 0 \<le> st_secs st"
    and p: "perf_index errs sts = Some p"
  shows "0 \<le> p" "p \<le> 100"
proof -
  have "0 \<le> p \<and> p \<le> 100"
  proof (cases "errs = 0")
    case True
    let ?u = "sum_list (map st_util sts)"
    have u: "0 \<le> ?u" "?u \<le> of_nat (length sts)" using sum_list_le_length [of sts st_util] st by auto
    then have p1: "0 \<le> ?u / of_nat (length sts)" "?u / of_nat (length sts) \<le> 1"
      using assms(1) by (simp_all add: field_simps)
    obtain p2 where p2: "thru_share (sum_list (map st_ops sts)) (sum_list (map st_secs sts)) = Some p2"
      "p = (UTIL_WEIGHT * (?u / of_nat (length sts)) + p2) * 100"
      using p True by (auto simp: perf_index_def accumulate_def split: Option.bind_splits)
    have "0 \<le> sum_list (map st_ops sts)" "0 \<le> sum_list (map st_secs sts)"
      using st by (auto intro!: sum_list_nonneg)
    from thru_share_bounds [OF this p2(1)] have "0 \<le> p2" "p2 \<le> 40 / 100" .
    moreover have "0 \<le> (60 / 100 * q + p2) * 100 \<and> (60 / 100 * q + p2) * 100 \<le> 100"
      if "0 \<le> q" "q \<le> 1" "0 \<le> p2" "p2 \<le> 40 / 100" for q :: rat
      using that by simp
    ultimately show ?thesis using p1 unfolding p2(2) UTIL_WEIGHT_def by blast
  qed (use p in \<open>auto simp: perf_index_def\<close>)
  then show "0 \<le> p" "p \<le> 100" by simp_all
qed

end
