(* ===== verification/Trace_Typed.thy ===== *)
theory Trace_Typed
  imports Driver_Eval
begin

text \<open>
  What \<open>read_trace\<close> of \<open>src/mdriver.c\<close> guarantees of every trace it accepts: every announced request was read, the requests that
  allocate name an index below \<open>num_ids\<close>, and the two arrays of blocks and sizes have the entries the bytes asked for hold. Those are
  \<open>num_ids\<close> entries below \<open>2 ^ 30\<close>, where the byte count does not wrap.
\<close>

definition typed_trace :: "trace \<Rightarrow> bool" where
  "typed_trace t \<longleftrightarrow> 0 \<le> sint (num_ops t) \<and> length (ops t) = nat (sint (num_ops t))
     \<and> length (blocks t) = unat (num_ids t * 4) div 4 \<and> length (block_sizes t) = unat (num_ids t * 4) div 4
     \<and> (\<forall>p \<in> set (ops t). op_type p \<noteq> FREE \<and> num_ids t \<noteq> 0 \<longrightarrow> op_index p < num_ids t)"

lemma typed_trace_ops: "typed_trace t \<Longrightarrow> trace_ops t = Some (ops t)"
  by (simp add: typed_trace_def trace_ops_def)

lemma unat_mult_div:
  fixes x :: "32 word"
  assumes "unat x * k < 2 ^ 32" "0 < k"
  shows "unat (x * of_nat k) div k = unat x"
proof -
  have "x * of_nat k = of_nat (unat x * k)" by simp
  then have "unat (x * of_nat k) = unat x * k" using unat_of_nat32 [OF assms(1)] by (simp only:)
  then show ?thesis using assms(2) by simp
qed

lemma typed_trace_access:
  assumes t: "typed_trace t" and n: "unat (num_ids t) < 2 ^ 30"
  shows "length (blocks t) = unat (num_ids t)" "length (block_sizes t) = unat (num_ids t)"
    "p \<in> set (ops t) \<Longrightarrow> op_type p \<noteq> FREE \<Longrightarrow> num_ids t \<noteq> 0 \<Longrightarrow>
       set_block t (op_index p) a \<noteq> None \<and> set_block_size t (op_index p) m \<noteq> None"
proof -
  have "unat (num_ids t * of_nat 4) div 4 = unat (num_ids t)" by (rule unat_mult_div) (use n in simp_all)
  then show len: "length (blocks t) = unat (num_ids t)" "length (block_sizes t) = unat (num_ids t)"
    using t by (simp_all add: typed_trace_def)
  show "set_block t (op_index p) a \<noteq> None \<and> set_block_size t (op_index p) m \<noteq> None"
    if "p \<in> set (ops t)" "op_type p \<noteq> FREE" "num_ids t \<noteq> 0"
  proof -
    have "unat (op_index p) < unat (num_ids t)" using t that by (simp add: typed_trace_def word_less_nat_alt)
    moreover from this n have "sint (op_index p) = int (unat (op_index p))" by (intro sint_small) simp
    ultimately show ?thesis using len by (simp add: aset_def set_block_def set_block_size_def del: of_nat_unat)
  qed
qed

text \<open>The loop: \<open>r_op_index\<close> requests are stored, \<open>r_max_index\<close> bounds the indices of those that are not frees.\<close>

definition read_so_far :: "nat \<Rightarrow> reader \<Rightarrow> bool" where
  "read_so_far n r \<longleftrightarrow> length (r_ops r) = n \<and> r_op_index r \<le> n
     \<and> (\<forall>k < r_op_index r. op_type (r_ops r ! k) \<noteq> FREE \<longrightarrow> op_index (r_ops r ! k) \<le> r_max_index r)"

lemma store_op_some: "store_op r f = Some r' \<longleftrightarrow> r_op_index r < length (r_ops r)
    \<and> r' = r\<lparr>r_ops := (r_ops r)[r_op_index r := f (r_ops r ! r_op_index r)]\<rparr>"
  by (auto simp: store_op_def)

lemma read_so_far_next:
  assumes r: "read_so_far n r" "read_request c r cs = Some (Inr (r', cs'))"
  shows "read_so_far n (r'\<lparr>r_op_index := r_op_index r' + 1\<rparr>)"
proof -
  have sized: ?thesis if s: "read_sized ty r cs = Some (r', cs')" for ty
  proof -
    obtain i m cs1 where i: "scan_uu (r_index r) (r_size r) cs = (i, m, cs1)" by (metis prod_cases3)
    with s have lt: "r_op_index r < length (r_ops r)"
      and r': "r' = r\<lparr>r_index := i, r_size := m, r_max_index := (if i > r_max_index r then i else r_max_index r),
        r_ops := (r_ops r)[r_op_index r := (r_ops r ! r_op_index r)\<lparr>op_type := ty, op_index := i, op_size := m\<rparr>]\<rparr>"
      by (auto simp: read_sized_def store_op_some split: option.splits)
    have "op_index p \<le> max a i" if "op_index p \<le> a" for p :: traceop and a using that by (simp add: max.coboundedI1)
    with r(1) lt show ?thesis unfolding r'
      by (auto simp: read_so_far_def nth_list_update less_Suc_eq intro: order_trans less_imp_le)
  qed
  have free: ?thesis if s: "read_free r cs = Some (r', cs')"
  proof -
    obtain i cs1 where i: "scan_ud (r_index r) cs = (i, cs1)" by (metis surj_pair)
    with s have "r_op_index r < length (r_ops r)"
      and "r' = r\<lparr>r_index := i, r_ops := (r_ops r)[r_op_index r := (r_ops r ! r_op_index r)\<lparr>op_type := FREE, op_index := i\<rparr>]\<rparr>"
      by (auto simp: read_free_def store_op_some split: option.splits)
    with r(1) show ?thesis
      by (auto simp: read_so_far_def nth_list_update less_Suc_eq)
  qed
  from r(2) sized free show ?thesis
    by (auto simp: read_request_def split: if_splits)
qed

lemma read_so_far_all: "read_so_far n r \<Longrightarrow> read_requests r cs = Some (Inr r') \<Longrightarrow> read_so_far n r'"
proof (induction r cs rule: read_requests.induct)
  case (1 r cs)
  show ?case
  proof (cases "scan_s cs")
    case None
    with "1.prems" show ?thesis by (subst (asm) read_requests.simps) simp
  next
    case (Some a)
    obtain w cs1 where w: "scan_s cs = Some (w, cs1)" using Some by (cases a) auto
    note E = "1.prems"(2) [unfolded read_requests.simps [of r cs] w option.case prod.case]
    have m: "\<not> MAXLINE \<le> length w" using E by (simp split: if_splits)
    with E obtain r1 cs2 where q: "read_request (hd w) r cs1 = Some (Inr (r1, cs2))"
      "read_requests (r1\<lparr>r_op_index := r_op_index r1 + 1\<rparr>) cs2 = Some (Inr r')"
      by (auto split: option.splits sum.splits)
    from "1.IH" [OF w refl m q(1) refl refl read_so_far_next [OF "1.prems"(1) q(1)] q(2)] show ?thesis .
  qed
qed

lemma read_trace_is_typed:
  assumes "read_trace grants junk junk_ops junk_addr files dir fname = Some (Trace t)"
  shows "typed_trace t"
proof -
  obtain cs0 where f: "files (dir @ fname) = Some cs0"
    using assms by (cases "files (dir @ fname)") (auto simp: read_trace_def Let_def split: if_splits)
  obtain h cs1 where 1: "scan_d junk cs0 = (h, cs1)" by fastforce
  obtain ids cs2 where 2: "scan_d junk cs1 = (ids, cs2)" by fastforce
  obtain n cs3 where 3: "scan_d junk cs2 = (n, cs3)" by fastforce
  obtain wt cs4 where 4: "scan_d junk cs3 = (wt, cs4)" by fastforce
  let ?r = "\<lparr>r_ops = alloc_array junk_ops (n * 12) 12, r_op_index = 0, r_index = 0, r_size = junk, r_max_index = 0\<rparr>"
  note E = assms [unfolded read_trace_def Let_def f option.case 1 2 3 4 prod.case]
  then obtain r where r: "read_requests ?r cs4 = Some (Inr r)" by (auto split: option.splits sum.splits if_splits)
  from E have r2: "r_max_index r = ids - 1" "n = of_nat (r_op_index r)"
    and t: "num_ids t = ids" "num_ops t = n" "ops t = r_ops r" "length (blocks t) = unat (ids * 4) div 4"
      "length (block_sizes t) = unat (ids * 4) div 4"
    by (auto simp only: r option.case sum.case) (auto split: if_splits)
  have R: "read_so_far (unat (n * 12) div 12) r"
    by (rule read_so_far_all [OF _ r(1)]) (simp add: read_so_far_def)
  have "unat (n * 12) div 12 \<le> 357913941" using unat_lt32 [of "n * 12"] by (simp add: less_mult_imp_div_less)
  with R have small: "r_op_index r \<le> 357913941" by (simp add: read_so_far_def)
  then have un: "unat n = r_op_index r" unfolding r2(2) by (intro unat_of_nat32) simp
  have "unat (n * of_nat 12) div 12 = unat n" by (rule unat_mult_div) (use un small in simp_all)
  then have len: "length (r_ops r) = r_op_index r" using R un by (simp add: read_so_far_def)
  have sn: "sint n = int (r_op_index r)" using small un by (subst sint_small) (simp_all del: of_nat_unat)
  have "op_index p < ids" if p: "p \<in> set (r_ops r)" "op_type p \<noteq> FREE" "ids \<noteq> 0" for p
  proof -
    have "op_index p \<le> ids - 1" using p R len r2(1) by (auto simp: read_so_far_def in_set_conv_nth)
    then show ?thesis using p(3) unat_gt_0 [of ids] by (simp add: word_le_nat_alt word_less_nat_alt unat_minus_one)
  qed
  with t sn len show ?thesis by (simp add: typed_trace_def)
qed

end
