(* ===== verification/Driver_Whole.thy ===== *)
theory Driver_Whole
  imports Driver_Libc Driver_Facts Trace_Typed
begin

text \<open>
  The driver's components put together: for every trace file, \<open>read_trace\<close>, \<open>eval_mm_valid\<close>, \<open>eval_mm_util\<close> and ten timed runs of
  \<open>eval_mm_speed\<close>, and at the end the performance index. Each part leaves the trace and the memory as the next one needs them.
\<close>

section \<open>One trace file\<close>

text \<open>What every run of the requests needs of the memory and the trace, and leaves behind.\<close>

definition ready :: "nat \<Rightarrow> nat \<Rightarrow> traceop list \<Rightarrow> 'a mem_scheme \<Rightarrow> trace \<Rightarrow> bool" where
  "ready n B ps s t \<longleftrightarrow> geom s \<and> unat (mem_max_addr s) + B + 4112 < 2 ^ 32
     \<and> length (blocks t) = n \<and> length (block_sizes t) = n \<and> trace_ops t = Some ps"

lemma ready_reshaped:
  "ready n B ps s t \<Longrightarrow> reshaped t t' \<Longrightarrow> geom s' \<Longrightarrow> unat (mem_max_addr s') + B + 4112 < 2 ^ 32 \<Longrightarrow> ready n B ps s' t'"
  by (simp add: ready_def reshapedD)

text \<open>A clock that is read later shows no earlier time.\<close>

definition usecs :: "int \<times> int \<Rightarrow> int" where
  "usecs tv = 1000000 * fst tv + snd tv"

definition clock_forward :: "('e \<Rightarrow> (int \<times> int) \<times> 'e) \<Rightarrow> bool" where
  "clock_forward gettimeofday \<longleftrightarrow> (\<forall>e. usecs (fst (gettimeofday e)) \<le> usecs (fst (gettimeofday (snd (gettimeofday e)))))"

lemma gettod_secs_nonneg:
  assumes "usecs stv \<le> usecs etv"
  shows "0 \<le> gettod_secs stv etv n"
proof -
  have "1000 * of_int (fst etv - fst stv) + 1 / 1000 * of_int (snd etv - snd stv)
      = (of_int (usecs etv - usecs stv) :: rat) / 1000"
    by (simp add: usecs_def field_simps)
  note e = this
  have "0 \<le> 1000 * of_int (fst etv - fst stv) + 1 / 1000 * (of_int (snd etv - snd stv) :: rat)"
    unfolding e using assms by simp
  then show ?thesis unfolding gettod_secs_def Let_def by (intro mult_nonneg_nonneg divide_nonneg_nonneg) simp_all
qed

context sparing_package
begin

lemma valid_ready:
  assumes "ready n B ps (v_mem v) (v_trace v)" "wf_ops n B [] ps" "demand ps + 4120 \<le> MAX_HEAP"
    and pk: "pk_init pk = init" "pk_malloc pk = malloc" "pk_free pk = free" "pk_realloc pk = realloc"
  shows "\<exists>v'. eval_mm_valid pk tracenum v = Some (True, v') \<and> v_drv v' = v_drv v \<and> ready n B ps (v_mem v') (v_trace v')"
proof -
  obtain v' held where v: "eval_mm_valid pk tracenum v = Some (True, v')" "v_drv v' = v_drv v" "vinv repr n B held v'"
    using eval_mm_valid_served [of v B n ps pk tracenum] assms unfolding ready_def by blast
  note D = vinvD [OF v(3)]
  have "geom (v_mem v')" using D(8) live_geom by blast
  with D(3) ready_reshaped [OF assms(1) eval_mm_valid_reshaped [OF v(1)]] v(1,2) show ?thesis by blast
qed

lemma util_ready:
  assumes "ready n B ps s t" "wf_ops n B [] ps" "demand ps + 4120 \<le> MAX_HEAP"
    and pk: "pk_init pk = init" "pk_malloc pk = malloc" "pk_free pk = free" "pk_realloc pk = realloc"
  shows "\<exists>x u. eval_mm_util pk s t = Some (Ran (x, u)) \<and> 0 \<le> x \<and> x \<le> 1 \<and> ready n B ps (u_mem u) (u_trace u)"
proof -
  obtain u h where u: "eval_mm_util pk s t = Some (Ran (of_nat (peak n ps) / of_nat h, u))" "0 < h" "peak n ps \<le> h"
    "geom (u_mem u)" "unat (mem_max_addr (u_mem u)) + B + 4112 < 2 ^ 32"
    using eval_mm_util_served [of s B t n ps pk] assms unfolding ready_def by blast
  have "(of_nat (peak n ps) :: rat) / of_nat h \<le> 1" using u(2,3) by simp
  with u(1) ready_reshaped [OF assms(1) eval_mm_util_reshaped [OF u(1)] u(4,5)] show ?thesis
    by (intro exI [of _ "of_nat (peak n ps) / of_nat h"] exI [of _ u]) simp
qed

lemma speed_ready:
  assumes "ready n B ps s t" "wf_ops n B [] ps" "demand ps + 4120 \<le> MAX_HEAP"
    and pk: "pk_init pk = init" "pk_malloc pk = malloc" "pk_free pk = free" "pk_realloc pk = realloc"
  shows "\<exists>s' t'. eval_mm_speed pk s t = Some (Ran (s', t')) \<and> ready n B ps s' t'"
proof -
  obtain x u where u: "eval_mm_util pk s t = Some (Ran (x, u))" "ready n B ps (u_mem u) (u_trace u)"
    using util_ready [OF assms] by blast
  obtain t' where t': "eval_mm_speed pk s t = Some (Ran (u_mem u, t'))"
    using eval_mm_speed_follows [OF u(1)] by blast
  have "geom (u_mem u)" "unat (mem_max_addr (u_mem u)) + B + 4112 < 2 ^ 32" using u(2) by (simp_all add: ready_def)
  with ready_reshaped [OF assms(1) eval_mm_speed_reshaped [OF t']] t' show ?thesis by blast
qed

lemma speed_runs_ready:
  assumes "wf_ops n B [] ps" "demand ps + 4120 \<le> MAX_HEAP"
    and pk: "pk_init pk = init" "pk_malloc pk = malloc" "pk_free pk = free" "pk_realloc pk = realloc"
  shows "ready n B ps s t \<Longrightarrow> \<exists>s' t'. speed_runs pk k (s, t) = Some (Ran (s', t')) \<and> ready n B ps s' t'"
proof (induction k arbitrary: s t)
  case (Suc k)
  obtain s1 t1 where "eval_mm_speed pk s t = Some (Ran (s1, t1))" "ready n B ps s1 t1"
    using speed_ready [OF Suc.prems assms] by blast
  with Suc.IH [of s1 t1] show ?case by auto
qed simp

lemma timed_ready:
  assumes "ready n B ps s t" "wf_ops n B [] ps" "demand ps + 4120 \<le> MAX_HEAP"
    and pk: "pk_init pk = init" "pk_malloc pk = malloc" "pk_free pk = free" "pk_realloc pk = realloc"
    and clock: "clock_forward gettimeofday"
  shows "\<exists>secs s' e'. timed_speed pk gettimeofday s t e = Some (Ran (secs, s', e')) \<and> 0 \<le> secs
    \<and> geom s' \<and> unat (mem_max_addr s') + B + 4112 < 2 ^ 32"
proof -
  obtain stv e1 where 1: "gettimeofday e = (stv, e1)" by fastforce
  obtain etv e2 where 2: "gettimeofday e1 = (etv, e2)" by fastforce
  obtain s' t' where r: "speed_runs pk 10 (s, t) = Some (Ran (s', t'))" "ready n B ps s' t'"
    using speed_runs_ready [OF assms(2-7,1)] by blast
  have "usecs stv \<le> usecs etv" using clock 1 2 unfolding clock_forward_def by (metis fst_conv snd_conv)
  with gettod_secs_nonneg r 1 2 show ?thesis by (simp add: timed_speed_def Let_def ready_def)
qed

end

section \<open>All trace files\<close>

text \<open>
  A file the driver can grade: a well-formed trace with at least one request, which fits into the storage. Whether there is
  memory to read it into is another matter: \<open>out_of_memory\<close>.
\<close>

definition gradable :: "nat \<Rightarrow> world \<Rightarrow> string \<Rightarrow> string \<Rightarrow> bool" where
  "gradable B w dir fname \<longleftrightarrow> (case read_trace granted (o_junk w) (o_junk_ops w) (o_junk_addr w) (o_file w) dir fname of
     Some (Trace t) \<Rightarrow> ops t \<noteq> [] \<and> wf_ops (length (blocks t)) B [] (ops t) \<and> demand (ops t) + 4120 \<le> MAX_HEAP
   | _ \<Rightarrow> False)"

definition out_of_memory :: "world \<Rightarrow> bool" where
  "out_of_memory w \<longleftrightarrow> (\<exists>site n. \<not> o_grants w site n)"

lemma gradableE:
  assumes "gradable B w dir fname"
  obtains t where "read_trace granted (o_junk w) (o_junk_ops w) (o_junk_addr w) (o_file w) dir fname = Some (Trace t)"
    "ops t \<noteq> []" "wf_ops (length (blocks t)) B [] (ops t)" "demand (ops t) + 4120 \<le> MAX_HEAP" "typed_trace t"
  using assms read_trace_is_typed by (auto simp: gradable_def split: option.splits read_result.splits)

lemma read_or_exit:
  obtains "read_trace (\<lambda>k. o_grants w (Reading b i k)) junk junk_ops junk_addr files dir fname
      = read_trace granted junk junk_ops junk_addr files dir fname"
  | "read_trace (\<lambda>k. o_grants w (Reading b i k)) junk junk_ops junk_addr files dir fname = Some (Read_exit 1)" "out_of_memory w"
  using read_trace_refused [of "\<lambda>k. o_grants w (Reading b i k)" junk junk_ops junk_addr files dir fname]
  unfolding out_of_memory_def by blast

definition good_stats :: "stats \<Rightarrow> bool" where
  "good_stats st \<longleftrightarrow> st_valid st \<and> 0 < st_ops st \<and> 0 \<le> st_secs st \<and> 0 \<le> st_util st \<and> st_util st \<le> 1"

context sparing_package
begin

lemma eval_trace_good:
  assumes f: "gradable B w dir fname" and m: "geom (m_mem m)" "unat (mem_max_addr (m_mem m)) + B + 4112 < 2 ^ 32"
    and pk: "pk_init pk = init" "pk_malloc pk = malloc" "pk_free pk = free" "pk_realloc pk = realloc"
    and clock: "clock_forward gettimeofday"
  shows "(\<exists>st m'. eval_trace pk w gettimeofday dir i fname m = Some (Finished (st, m')) \<and> good_stats st
      \<and> m_drv m' = m_drv m \<and> geom (m_mem m') \<and> unat (mem_max_addr (m_mem m')) + B + 4112 < 2 ^ 32)
    \<or> out_of_memory w \<and> eval_trace pk w gettimeofday dir i fname m = Some (Exit_with 1)"
proof (rule read_or_exit [of w False i "o_junk w" "o_junk_ops w" "o_junk_addr w" "o_file w" dir fname])
  assume "out_of_memory w" "read_trace (\<lambda>k. o_grants w (Reading False i k)) (o_junk w) (o_junk_ops w) (o_junk_addr w) (o_file w)
    dir fname = Some (Read_exit 1)"
  then show ?thesis by (simp add: eval_trace_def)
next
  assume R: "read_trace (\<lambda>k. o_grants w (Reading False i k)) (o_junk w) (o_junk_ops w) (o_junk_addr w) (o_file w) dir fname
    = read_trace granted (o_junk w) (o_junk_ops w) (o_junk_addr w) (o_file w) dir fname"
  from f obtain t where t: "read_trace granted (o_junk w) (o_junk_ops w) (o_junk_addr w) (o_file w) dir fname = Some (Trace t)"
    "ops t \<noteq> []" "wf_ops (length (blocks t)) B [] (ops t)" "demand (ops t) + 4120 \<le> MAX_HEAP" and T: "typed_trace t"
    by (rule gradableE)
  let ?n = "length (blocks t)" and ?v = "\<lparr>v_drv = m_drv m, v_mem = m_mem m, v_ranges = m_ranges m, v_trace = t\<rparr>"
  have "ready ?n B (ops t) (v_mem ?v) (v_trace ?v)"
    using m T typed_trace_ops [OF T] by (simp add: ready_def typed_trace_def)
  from valid_ready [OF this t(3,4) pk, of i] obtain v where v: "eval_mm_valid pk i ?v = Some (True, v)"
    "v_drv v = m_drv m" "ready ?n B (ops t) (v_mem v) (v_trace v)" by auto
  obtain x u where u: "eval_mm_util pk (v_mem v) (v_trace v) = Some (Ran (x, u))" "0 \<le> x" "x \<le> 1"
    "ready ?n B (ops t) (u_mem u) (u_trace u)" using util_ready [OF v(3) t(3,4) pk] by blast
  obtain secs s e where s: "timed_speed pk gettimeofday (u_mem u) (u_trace u) (m_env m) = Some (Ran (secs, s, e))" "0 \<le> secs"
    "geom s" "unat (mem_max_addr s) + B + 4112 < 2 ^ 32"
    using timed_ready [OF u(4) t(3,4) pk clock] by blast
  have "0 < length (ops t)" using t(2) by simp
  moreover have "length (ops t) = nat (sint (num_ops t))" using T by (simp add: typed_trace_def)
  ultimately have "0 < sint (num_ops t)" by simp
  then have "good_stats (zero_stats\<lparr>st_ops := of_int (sint (num_ops t)), st_valid := True, st_util := x, st_secs := secs\<rparr>)"
    using u(2,3) s(2) by (simp add: good_stats_def zero_stats_def del: of_int_sint)
  with t(1) v(1,2) u(1) s(1,3,4) show ?thesis by (simp add: eval_trace_def Let_def R)
qed

lemma eval_traces_good:
  assumes pk: "pk_init pk = init" "pk_malloc pk = malloc" "pk_free pk = free" "pk_realloc pk = realloc"
    and clock: "clock_forward gettimeofday"
  shows "(\<And>f. f \<in> set fs \<Longrightarrow> gradable B w dir f) \<Longrightarrow> geom (m_mem m) \<Longrightarrow> unat (mem_max_addr (m_mem m)) + B + 4112 < 2 ^ 32
    \<Longrightarrow> (\<exists>sts m'. eval_traces pk w gettimeofday dir i fs m = Some (Finished (sts, m')) \<and> length sts = length fs
        \<and> (\<forall>st \<in> set sts. good_stats st) \<and> m_drv m' = m_drv m)
      \<or> out_of_memory w \<and> eval_traces pk w gettimeofday dir i fs m = Some (Exit_with 1)"
proof (induction fs arbitrary: i m)
  case (Cons f fs)
  have "gradable B w dir f" by (rule Cons.prems) simp
  from eval_trace_good [OF this Cons.prems(2,3) pk clock, of i] show ?case
  proof (elim disjE exE conjE)
    fix st m1
    assume 1: "eval_trace pk w gettimeofday dir i f m = Some (Finished (st, m1))" "good_stats st"
      "m_drv m1 = m_drv m" "geom (m_mem m1)" "unat (mem_max_addr (m_mem m1)) + B + 4112 < 2 ^ 32"
    have "(\<exists>sts m'. eval_traces pk w gettimeofday dir (i + 1) fs m1 = Some (Finished (sts, m')) \<and> length sts = length fs
        \<and> (\<forall>st \<in> set sts. good_stats st) \<and> m_drv m' = m_drv m1)
      \<or> out_of_memory w \<and> eval_traces pk w gettimeofday dir (i + 1) fs m1 = Some (Exit_with 1)"
      by (rule Cons.IH [OF _ 1(4,5)]) (simp add: Cons.prems(1))
    then show ?thesis
    proof (elim disjE exE conjE)
      fix sts m2
      assume "eval_traces pk w gettimeofday dir (i + 1) fs m1 = Some (Finished (sts, m2))" "length sts = length fs"
        "\<forall>st \<in> set sts. good_stats st" "m_drv m2 = m_drv m1"
      with 1 show ?thesis by (intro disjI1 exI [of _ "st # sts"] exI [of _ m2]) simp
    qed (use 1 in simp)
  qed simp
qed simp

end

text \<open>The run on libc's allocator comes to an end, or stops with exit code 1 where libc returns NULL.\<close>

lemma libc_traces_safe:
  "(\<And>f. f \<in> set fs \<Longrightarrow> gradable B w dir f)
    \<Longrightarrow> \<exists>r. libc_traces lc w gettimeofday dir i fs d (l, e) = Some r \<and> (r = Exit_with 1 \<or> (\<exists>x. r = Finished x))"
proof (induction fs arbitrary: i l e)
  case (Cons f fs)
  have "gradable B w dir f" by (rule Cons.prems) simp
  then obtain t where t0: "read_trace granted (o_junk w) (o_junk_ops w) (o_junk_addr w) (o_file w) dir f = Some (Trace t)"
    "wf_ops (length (blocks t)) B [] (ops t)" "typed_trace t" by (rule gradableE)
  show ?case
  proof (cases "read_trace (\<lambda>k. o_grants w (Reading True i k)) (o_junk w) (o_junk_ops w) (o_junk_addr w) (o_file w) dir f
      = Some (Read_exit 1)")
    case True
    then show ?thesis by simp
  next
    case False
    then have t: "read_trace (\<lambda>k. o_grants w (Reading True i k)) (o_junk w) (o_junk_ops w) (o_junk_addr w) (o_file w) dir f
      = Some (Trace t)" "wf_ops (length (blocks t)) B [] (ops t)"
      using t0 read_or_exit [of w True i "o_junk w" "o_junk_ops w" "o_junk_addr w" "o_file w" dir f] by auto
    have L: "libc_ready (length (blocks t)) B (ops t) t"
      using t(2) typed_trace_ops [OF t0(3)] by (simp add: libc_ready_def)
    obtain r where r: "eval_libc_valid lc i d l t = Some r"
      "\<forall>g l' t'. r = L_ran (g, l', t') \<longrightarrow> g \<and> libc_ready (length (blocks t)) B (ops t) t'"
      using eval_libc_valid_safe [OF L, of lc i d l] by blast
    show ?thesis
    proof (cases r)
      case (L_ran x)
      obtain g l1 t1 where x: "x = (g, l1, t1)" by (cases x)
      with r(2) L_ran have g: "g" "libc_ready (length (blocks t)) B (ops t) t1" by blast+
      obtain q where q: "timed_libc lc gettimeofday d (l1, t1) e = Some q" using timed_libc_safe [OF g(2), of lc gettimeofday d l1 e] by blast
      show ?thesis
      proof (cases q)
        case (L_ran y)
        obtain secs l2 t2 e2 where y: "y = (secs, (l2, t2), e2)" by (cases y) auto
        obtain z where "libc_traces lc w gettimeofday dir (i + 1) fs d (l2, e2) = Some z" "z = Exit_with 1 \<or> (\<exists>x. z = Finished x)"
          using Cons.IH [of "i + 1" l2 e2] Cons.prems by auto
        with t(1) r(1) \<open>r = L_ran x\<close> x g(1) q L_ran y show ?thesis by (auto simp: Let_def)
      qed (use t(1) r(1) L_ran x g(1) q in simp)
    qed (use t(1) r(1) in simp)
  qed
qed simp

section \<open>The program\<close>

lemma perf_index_good:
  assumes "sts \<noteq> []" "\<forall>st \<in> set sts. good_stats st"
  shows "\<exists>p. perf_index 0 sts = Some p \<and> 0 \<le> p \<and> p \<le> 100" "snd (accumulate sts) = length sts"
proof -
  have g: "0 < st_ops st \<and> 0 \<le> st_secs st \<and> 0 \<le> st_util st \<and> st_util st \<le> 1 \<and> st_valid st" if "st \<in> set sts" for st
    using assms(2) that by (simp add: good_stats_def)
  obtain st sts' where "sts = st # sts'" using assms(1) by (cases sts) auto
  moreover have "0 \<le> sum_list (map st_ops sts')" using g calculation by (intro sum_list_nonneg) (auto intro: less_imp_le)
  ultimately have "0 < sum_list (map st_ops sts)" using g [of st] by simp
  then have "\<exists>q. thru_share (sum_list (map st_ops sts)) (sum_list (map st_secs sts)) = Some q" by (simp add: thru_share_def)
  then obtain p where p: "perf_index 0 sts = Some p" by (auto simp: perf_index_def accumulate_def)
  with perf_index_bounds [OF assms(1) _ p] g show "\<exists>p. perf_index 0 sts = Some p \<and> 0 \<le> p \<and> p \<le> 100"
    by (metis less_imp_le)
  have "filter st_valid sts = sts" using g by (simp add: filter_id_conv)
  then show "snd (accumulate sts) = length sts" by (simp add: accumulate_def)
qed

lemma mem_init_geom:
  assumes "p \<noteq> NULL" "8 dvd unat p" "unat p + MAX_HEAP + B + 4112 < 2 ^ 32"
  shows "\<exists>s'. mem_init p s = Inr s' \<and> geom s' \<and> unat (mem_max_addr s') + B + 4112 < 2 ^ 32"
proof -
  have "unat (p + of_nat MAX_HEAP) = unat p + MAX_HEAP" using assms(3) by (intro unat_add_of_nat32) simp
  with assms show ?thesis by (simp add: mem_init_def geom_def word_le_nat_alt)
qed

text \<open>
  The whole program on gradable trace files, with a package that keeps its contract: no error, every trace correct, an index
  between 0 and 100; or libc runs out of memory, for the driver itself or, under \<open>-l\<close>, for the requests.
\<close>

context sparing_package
begin

lemma mdriver_grades:
  assumes pk: "pk_init pk = init" "pk_malloc pk = malloc" "pk_free pk = free" "pk_realloc pk = realloc"
    and args: "parse_opts (o_grants w) 0 args default_options = Some (Running opt)"
    and team: "team_check opt \<Longrightarrow> check_team tm = Running ()"
    and files: "fs = (case tracefiles opt of Some fs \<Rightarrow> fs | None \<Rightarrow> default_tracefiles)" "fs \<noteq> []"
      "\<And>f. f \<in> set fs \<Longrightarrow> gradable B w (tracedir opt) f"
    and storage: "storage \<noteq> NULL" "8 dvd unat storage" "unat storage + MAX_HEAP + B + 4112 < 2 ^ 32"
    and clock: "clock_forward gettimeofday" and errs: "errors (m_drv m) = 0"
  shows "(\<exists>rep. mdriver_main pk lc w gettimeofday tm storage args l m = Some (Finished rep)
      \<and> rep_errors rep = 0 \<and> rep_correct rep = length fs \<and> 0 \<le> rep_perf rep \<and> rep_perf rep \<le> 100)
    \<or> (run_libc opt \<or> out_of_memory w) \<and> mdriver_main pk lc w gettimeofday tm storage args l m = Some (Exit_with 1)"
proof -
  let ?table = "of_nat (length fs) * 28"
  have nt: "\<not> (team_check opt \<and> check_team tm = Exited 1)" using team by auto
  obtain r where r: "(if run_libc opt then
        (if o_grants w (Stats_table True) ?table
         then libc_traces lc w gettimeofday (tracedir opt) 0 fs (m_drv m) (l, m_env m) else Some (Exit_with 1))
      else Some (Finished ([], l, m_env m))) = Some r" "r = Exit_with 1 \<and> run_libc opt \<or> (\<exists>x. r = Finished x)"
  proof (cases "run_libc opt \<and> o_grants w (Stats_table True) ?table")
    case True
    with libc_traces_safe [OF files(3), of fs lc gettimeofday 0 "m_drv m" l "m_env m"] that show thesis by auto
  qed (use that in \<open>cases "run_libc opt"; auto\<close>)
  note M = mdriver_main_def [of pk lc w gettimeofday tm storage args l m, unfolded args Option.bind.bind_lunit prog.case Let_def,
      folded files(1), unfolded if_not_P [OF nt] r(1) Option.bind.bind_lunit]
  consider "r = Exit_with 1" "run_libc opt" | "\<exists>x. r = Finished x" "\<not> o_grants w (Stats_table False) ?table"
    | "\<exists>x. r = Finished x" "o_grants w (Stats_table False) ?table" using r(2) by blast
  then show ?thesis
  proof cases
    case 1
    then show ?thesis by (simp add: M)
  next
    case 2
    then show ?thesis unfolding out_of_memory_def by (auto simp: M)
  next
    case 3
    then obtain lsts l1 e1 where x: "r = Finished (lsts, l1, e1)" by auto
    obtain s where s: "mem_init storage (m_mem m) = Inr s" "geom s" "unat (mem_max_addr s) + B + 4112 < 2 ^ 32"
      using mem_init_geom [OF storage] by blast
    let ?m = "m\<lparr>m_mem := s, m_env := e1\<rparr>"
    have "(\<exists>sts m'. eval_traces pk w gettimeofday (tracedir opt) 0 fs ?m = Some (Finished (sts, m'))
        \<and> length sts = length fs \<and> (\<forall>st \<in> set sts. good_stats st) \<and> m_drv m' = m_drv ?m)
      \<or> out_of_memory w \<and> eval_traces pk w gettimeofday (tracedir opt) 0 fs ?m = Some (Exit_with 1)"
      by (rule eval_traces_good [OF pk clock files(3)]) (use s(2,3) in simp_all)
    then show ?thesis
    proof (elim disjE exE conjE)
      fix sts m'
      assume t: "eval_traces pk w gettimeofday (tracedir opt) 0 fs ?m = Some (Finished (sts, m'))"
        "length sts = length fs" "\<forall>st \<in> set sts. good_stats st" "m_drv m' = m_drv ?m"
      have "sts \<noteq> []" using t(2) files(2) by auto
      from perf_index_good [OF this t(3)] obtain p where "perf_index 0 sts = Some p" "0 \<le> p" "p \<le> 100"
        "snd (accumulate sts) = length fs" using t(2) by auto
      then show ?thesis using x s(1) t(1,4) errs 3(2) by (simp add: M)
    qed (use x s(1) 3(2) in \<open>simp add: M\<close>)
  qed
qed

end

end
