(* ===== verification/Driver_Plain.thy ===== *)
theory Driver_Plain
  imports Driver_Correct
begin

text \<open>
  The driver on allocators whose \<open>mm_realloc\<close> does not keep the contract (\<open>src/malloc/segregated_list-85.c\<close>,
  \<open>src/malloc/buddy.c\<close>): traces without reallocations only need an \<open>alloc_package\<close>. After a trace that frees all it has allocated the
  package can be initialised again.
\<close>

definition no_realloc :: "traceop list \<Rightarrow> bool" where
  "no_realloc ps \<longleftrightarrow> (\<forall>p \<in> set ps. op_type p \<noteq> REALLOC)"

lemma no_realloc_Cons: "no_realloc (p # ps) \<longleftrightarrow> op_type p \<noteq> REALLOC \<and> no_realloc ps"
  by (simp add: no_realloc_def)

text \<open>The indices that hold a block after the requests.\<close>

fun held_after :: "nat list \<Rightarrow> traceop list \<Rightarrow> nat list" where
  "held_after held [] = held"
| "held_after held (p # ps) = held_after (case op_type p of
     ALLOC \<Rightarrow> unat (op_index p) # held
   | REALLOC \<Rightarrow> held
   | FREE \<Rightarrow> removeAll (unat (op_index p)) held) ps"

definition balanced :: "traceop list \<Rightarrow> bool" where
  "balanced ps \<longleftrightarrow> held_after [] ps = []"

context alloc_package
begin

lemma eval_ops_plain:
  assumes "vinv repr n B held v" "wf_ops n B held ps" "no_realloc ps"
    and pk: "pk_malloc pk = malloc" "pk_free pk = free"
  shows "\<exists>good v'. eval_ops pk tracenum j ps v = Some (good, v')
    \<and> (if good then vinv repr n B (held_after held ps) v' \<and> v_drv v' = v_drv v
       else fails_with tracenum v v' Mm_malloc_failed)"
  using assms(1-3)
proof (induction ps arbitrary: v held j)
  case (Cons p ps)
  note I = Cons.prems(1) and w = Cons.prems(2)
  have nr: "op_type p \<noteq> REALLOC" "no_realloc ps" using Cons.prems(3) by (simp_all add: no_realloc_Cons)
  let ?held = "case op_type p of ALLOC \<Rightarrow> unat (op_index p) # held | REALLOC \<Rightarrow> held | FREE \<Rightarrow> removeAll (unat (op_index p)) held"
  have "\<exists>good v'. eval_op pk tracenum j p v = Some (good, v')
    \<and> (if good then vinv repr n B ?held v' \<and> v_drv v' = v_drv v else fails_with tracenum v v' Mm_malloc_failed)"
  proof (cases "op_type p")
    case ALLOC
    with w have c: "0 \<le> sint (op_index p)" "unat (op_index p) < n" "unat (op_index p) \<notin> set held"
      "0 < sint (op_size p)" "unat (op_size p) \<le> B" by simp_all
    from eval_alloc_ok [OF I pk(1) c, of tracenum j] ALLOC show ?thesis
      by (elim exE conjE) (auto simp: eval_op_def)
  next
    case FREE
    with w have c: "0 \<le> sint (op_index p)" "unat (op_index p) < n" "unat (op_index p) \<in> set held" by simp_all
    from eval_free_ok [OF I pk(2) c] FREE show ?thesis by (auto simp: eval_op_def)
  qed (use nr in simp)
  then obtain good v1 where e: "eval_op pk tracenum j p v = Some (good, v1)"
    and o: "if good then vinv repr n B ?held v1 \<and> v_drv v1 = v_drv v else fails_with tracenum v v1 Mm_malloc_failed" by blast
  show ?case
  proof (cases good)
    case False
    with e o show ?thesis by auto
  next
    case True
    have w1: "wf_ops n B ?held ps" using w nr(1) by (cases "op_type p") simp_all
    from True o have o1: "vinv repr n B ?held v1" "v_drv v1 = v_drv v" by simp_all
    from Cons.IH [OF o1(1) w1 nr(2), of "j + 1"] obtain good2 v2 where
      "eval_ops pk tracenum (j + 1) ps v1 = Some (good2, v2)"
      "if good2 then vinv repr n B (held_after ?held ps) v2 \<and> v_drv v2 = v_drv v1
       else fails_with tracenum v1 v2 Mm_malloc_failed" by blast
    with e True o1(2) show ?thesis
      by (intro exI [of _ good2] exI [of _ v2]) (cases good2; simp add: fails_with_def)
  qed
qed auto

lemma eval_mm_valid_plain:
  assumes b: "blank (mem_reset_brk (v_mem v))" and B: "unat (mem_max_addr (v_mem v)) + B + 4112 < 2 ^ 32"
    and n: "length (blocks (v_trace v)) = n" "length (block_sizes (v_trace v)) = n"
    and ps: "trace_ops (v_trace v) = Some ps" "wf_ops n B [] ps" "no_realloc ps"
    and pk: "pk_init pk = init" "pk_malloc pk = malloc" "pk_free pk = free"
  shows "\<exists>good v'. eval_mm_valid pk tracenum v = Some (good, v')
    \<and> (if good then v_drv v' = v_drv v \<and> (balanced ps \<longrightarrow> blank (mem_reset_brk (v_mem v')))
       else fails_with tracenum v v' Mm_malloc_failed)"
proof -
  let ?s = "mem_reset_brk (v_mem v)"
  from init_blank [OF b] obtain s where s: "init ?s = Some (0, s)" "repr s Map.empty" "same_storage ?s s" by blast
  let ?v = "v\<lparr>v_ranges := clear_ranges (v_ranges v), v_mem := s\<rparr>"
  have "vinv repr n B [] ?v"
    using s(2,3) n B by (auto simp: vinv_def clear_ranges_def same_storage_def mem_reset_brk_def)
  from eval_ops_plain [OF this ps(2,3) pk(2,3), of tracenum 0] obtain good v' where
    e: "eval_ops pk tracenum 0 ps ?v = Some (good, v')"
      "if good then vinv repr n B (held_after [] ps) v' \<and> v_drv v' = v_drv ?v else fails_with tracenum ?v v' Mm_malloc_failed"
    by blast
  have "blank (mem_reset_brk (v_mem v'))" if "good" "balanced ps"
  proof -
    from that e(2) have I: "vinv repr n B [] v'" by (simp add: balanced_def)
    from vinvD(8) [OF I] obtain L where L: "repr (v_mem v') L" "dom L = {}" by auto
    then have "L = Map.empty" by simp
    with L(1) have "repr (v_mem v') Map.empty" by (simp only:)
    then show ?thesis by (rule blank_again) (use vinvD(3) [OF I] in \<open>simp add: request_fits_def\<close>)
  qed
  with e s(1) ps(1) pk(1) show ?thesis
    by (intro exI [of _ good] exI [of _ v']) (cases good; simp add: eval_mm_valid_def Let_def fails_with_def)
qed

end

end
