(* ===== verification/Trace_Roundtrip.thy ===== *)
theory Trace_Roundtrip
  imports Trace_Typed
begin

text \<open>
  \<open>read_trace\<close> reads back what is written in the format of the trace files.
\<close>


section \<open>Decimal numbers\<close>

fun dec :: "nat \<Rightarrow> string" where
  "dec n = (if n < 10 then [] else dec (n div 10)) @ [char_of (48 + n mod 10)]"

declare dec.simps [simp del]

lemma digit_of_char: "k < 10 \<Longrightarrow> digit_of (char_of (48 + k)) = Some k"
  by (simp add: digit_of_def Let_def)

lemma scan_digits_dec:
  "\<exists>e. scan_digits m (dec n @ cs) = scan_digits (10 ^ e * m + n) cs"
proof (induction n arbitrary: m cs rule: dec.induct)
  case (1 n)
  show ?case
  proof (cases "n < 10")
    case True
    then show ?thesis
      by (subst dec.simps) (intro exI [of _ 1], simp add: digit_of_char)
  next
    case False
    then obtain e where e: "scan_digits m (dec (n div 10) @ char_of (48 + n mod 10) # cs)
        = scan_digits (10 ^ e * m + n div 10) (char_of (48 + n mod 10) # cs)"
      using 1 by blast
    have "dec n @ cs = dec (n div 10) @ char_of (48 + n mod 10) # cs"
      using False by (subst dec.simps) simp
    then have "scan_digits m (dec n @ cs) = scan_digits (10 * (10 ^ e * m + n div 10) + n mod 10) cs"
      using e by (simp add: digit_of_char)
    moreover have "10 * (10 ^ e * m + n div 10) + n mod 10 = 10 ^ Suc e * m + n"
      by (simp add: algebra_simps)
    ultimately show ?thesis by metis
  qed
qed

lemma scan_digits_stop: "cs = [] \<or> digit_of (hd cs) = None \<Longrightarrow> scan_digits n cs = (n, cs)"
  by (cases cs) auto

lemma dec_digit: "dec n \<noteq> [] \<and> digit_of (hd (dec n)) \<noteq> None"
proof (induction n rule: dec.induct)
  case (1 n)
  then show ?case by (subst (1 2) dec.simps) (auto simp: digit_of_char hd_append)
qed

lemma digit_facts:
  assumes "digit_of c \<noteq> None" shows "\<not> isspace c" "c \<noteq> CHR ''-''" "c \<noteq> CHR ''+''"
  using assms by (auto simp: isspace_def digit_of_def Let_def split: if_splits)

lemma scan_number_dec:
  assumes ws: "\<forall>c \<in> set ws. isspace c" and cs: "cs = [] \<or> digit_of (hd cs) = None"
  shows "scan_number (ws @ dec n @ cs) = (Some (False, n), cs)"
proof -
  have sk: "skip_ws (ws @ dec n @ cs) = dec n @ cs"
    using ws dec_digit [of n] digit_facts(1) [of "hd (dec n)"]
    by (cases "dec n") (simp_all add: skip_ws_def dropWhile_append2)
  have "hd (dec n @ cs) = hd (dec n)" "dec n @ cs \<noteq> []" using dec_digit [of n] by simp_all
  moreover have "scan_digits 0 (dec n @ cs) = (n, cs)"
    using scan_digits_dec [of 0 n cs] scan_digits_stop [OF cs] by auto
  ultimately show ?thesis
    using dec_digit [of n] digit_facts(2,3) [of "hd (dec n)"] sk
    by (simp add: scan_number_def Let_def)
qed

lemma scan_u_dec:
  "\<forall>c \<in> set ws. isspace c \<Longrightarrow> cs = [] \<or> digit_of (hd cs) = None
   \<Longrightarrow> scan_u old (ws @ dec (unat i) @ cs) = (True, i, cs)"
  using unat_lt32 [of i] by (simp add: scan_u_def scan_number_dec not_le [symmetric])

lemma scan_d_dec:
  assumes "\<forall>c \<in> set ws. isspace c" "cs = [] \<or> digit_of (hd cs) = None" "0 \<le> sint i"
  shows "scan_d old (ws @ dec (unat i) @ cs) = (i, cs)"
proof -
  have "unat i < 2 ^ 31" using sint_nonneg [OF assms(3)] sint_less [of i] by (simp del: of_nat_unat)
  then show ?thesis using assms(1,2) by (simp add: scan_d_def scan_number_dec min_def)
qed

section \<open>Printing a trace\<close>

text \<open>The format the trace generators write: four numbers, then a line for each request.\<close>

definition nl :: char where "nl = CHR 0x0A"

definition show_op :: "traceop \<Rightarrow> string" where
  "show_op p = (case op_type p of
     ALLOC \<Rightarrow> ''a '' @ dec (unat (op_index p)) @ '' '' @ dec (unat (op_size p))
   | REALLOC \<Rightarrow> ''r '' @ dec (unat (op_index p)) @ '' '' @ dec (unat (op_size p))
   | FREE \<Rightarrow> ''f '' @ dec (unat (op_index p))) @ [nl]"

definition show_trace :: "trace \<Rightarrow> string" where
  "show_trace t = dec (unat (sugg_heapsize t)) @ nl # dec (unat (num_ids t)) @ nl # dec (unat (num_ops t))
     @ nl # dec (unat (weight t)) @ nl # concat (map show_op (ops t))"

lemma nl_simps [simp]: "isspace nl" "digit_of nl = None" "isspace CHR '' ''" "digit_of CHR '' '' = None" "nl \<noteq> CHR ''d''"
  by (simp_all add: nl_def isspace_def digit_of_def)

definition sizes_kept :: "(nat \<Rightarrow> traceop) \<Rightarrow> nat \<Rightarrow> traceop \<Rightarrow> traceop" where
  "sizes_kept junk k p = (if op_type p = FREE then p\<lparr>op_size := op_size (junk k)\<rparr> else p)"

definition max_id :: "traceop list \<Rightarrow> 32 word \<Rightarrow> 32 word" where
  "max_id ps m = fold (\<lambda>p m. if op_type p \<noteq> FREE \<and> op_index p > m then op_index p else m) ps m"

lemma same_op:
  "q\<lparr>op_type := op_type p, op_index := op_index p, op_size := op_size p\<rparr> = (p :: traceop)"
  by (cases p; cases q) simp

lemma same_free:
  "op_type p = FREE \<Longrightarrow> q\<lparr>op_type := FREE, op_index := op_index p\<rparr> = p\<lparr>op_size := op_size q\<rparr>" for p :: traceop
  by (cases p; cases q) simp

text \<open>\<open>ws\<close> is the white space left in front of the line.\<close>

lemma read_line:
  assumes ws: "\<forall>c \<in> set ws. isspace c" and k: "r_op_index r < length (r_ops r)"
    and junk: "r_ops r ! r_op_index r = junk (r_op_index r)"
  shows "\<exists>w cs1 r'. scan_s (ws @ show_op p @ cs) = Some (w, cs1) \<and> length w = 1
    \<and> read_request (hd w) r cs1 = Some (Inr (r', nl # cs))
    \<and> r_ops r' = (r_ops r)[r_op_index r := sizes_kept junk (r_op_index r) p]
    \<and> r_op_index r' = r_op_index r \<and> r_max_index r' = max_id [p] (r_max_index r)"
proof -
  have scan: "scan_s (ws @ c # ds) = Some ([c], ds)"
    if "\<not> isspace c" "ds \<noteq> []" "isspace (hd ds)" for c ds
    using ws that by (cases ds) (simp_all add: scan_s_def skip_ws_def dropWhile_append2)
  have sp: "\<forall>c \<in> set '' ''. isspace c" by simp
  have uu: "scan_uu i0 n0 (CHR '' '' # dec (unat i) @ CHR '' '' # dec (unat n) @ nl # cs) = (i, n, nl # cs)"
    for i0 n0 i n
    using scan_u_dec [OF sp, of "CHR '' '' # dec (unat n) @ nl # cs" i0 i]
      scan_u_dec [OF sp, of "nl # cs" n0 n] by (simp add: scan_uu_def)
  have ud: "scan_ud i0 (CHR '' '' # dec (unat i) @ nl # cs) = (i, nl # cs)" for i0 i
    using scan_u_dec [OF sp, of "nl # cs" i0 i] by (simp add: scan_ud_def)
  have sized: "\<exists>r'. read_sized (op_type p) r (CHR '' '' # dec (unat (op_index p)) @ CHR '' '' # dec (unat (op_size p)) @ nl # cs)
      = Some (r', nl # cs) \<and> r_ops r' = (r_ops r)[r_op_index r := p]
      \<and> r_op_index r' = r_op_index r
      \<and> r_max_index r' = (if op_index p > r_max_index r then op_index p else r_max_index r)"
    using k by (simp add: read_sized_def uu store_op_def same_op)
  have line: "scan_s (ws @ c # CHR '' '' # ds @ cs) = Some ([c], CHR '' '' # ds @ cs)" if "\<not> isspace c" for c ds
    using scan [OF that, of "CHR '' '' # ds @ cs"] by simp
  show ?thesis
  proof (cases "op_type p")
    case ALLOC
    then show ?thesis using sized line [of "CHR ''a''" "dec (unat (op_index p)) @ CHR '' '' # dec (unat (op_size p)) @ [nl]"]
      by (auto simp: show_op_def isspace_def read_request_def sizes_kept_def max_id_def)
  next
    case REALLOC
    then show ?thesis using sized line [of "CHR ''r''" "dec (unat (op_index p)) @ CHR '' '' # dec (unat (op_size p)) @ [nl]"]
      by (auto simp: show_op_def isspace_def read_request_def sizes_kept_def max_id_def)
  next
    case FREE
    have "\<exists>r'. read_free r (CHR '' '' # dec (unat (op_index p)) @ nl # cs) = Some (r', nl # cs)
        \<and> r_ops r' = (r_ops r)[r_op_index r := sizes_kept junk (r_op_index r) p]
        \<and> r_op_index r' = r_op_index r \<and> r_max_index r' = r_max_index r"
      using k junk FREE by (simp add: read_free_def ud store_op_def sizes_kept_def same_free)
    with FREE show ?thesis using line [of "CHR ''f''" "dec (unat (op_index p)) @ [nl]"]
      by (auto simp: show_op_def isspace_def read_request_def max_id_def)
  qed
qed

text \<open>The loop over the remaining requests.\<close>

lemma take_upd_last: "k < length xs \<Longrightarrow> take (Suc k) (xs[k := x]) = take k xs @ [x]"
  by (simp add: take_Suc_conv_app_nth)

lemma read_lines:
  assumes "\<forall>c \<in> set ws. isspace c" "r_op_index r + length ps \<le> length (r_ops r)"
    and "\<And>k. r_op_index r \<le> k \<Longrightarrow> k < length (r_ops r) \<Longrightarrow> r_ops r ! k = junk k"
  shows "\<exists>r'. read_requests r (ws @ concat (map show_op ps)) = Some (Inr r')
    \<and> length (r_ops r') = length (r_ops r) \<and> r_op_index r' = r_op_index r + length ps
    \<and> take (r_op_index r') (r_ops r') = take (r_op_index r) (r_ops r)
        @ map (\<lambda>(k, p). sizes_kept junk k p) (zip [r_op_index r..<r_op_index r + length ps] ps)
    \<and> r_max_index r' = max_id ps (r_max_index r)"
  using assms
proof (induction ps arbitrary: r ws)
  case Nil
  then have "scan_s ws = None" by (simp add: scan_s_def skip_ws_def dropWhile_eq_Nil_conv)
  then show ?case by (subst read_requests.simps) (simp add: max_id_def)
next
  case (Cons p ps)
  have k: "r_op_index r < length (r_ops r)" "r_ops r ! r_op_index r = junk (r_op_index r)"
    using Cons.prems(2,3) by simp_all
  obtain w cs1 r1 where l: "scan_s (ws @ show_op p @ concat (map show_op ps)) = Some (w, cs1)"
    "length w = 1" "read_request (hd w) r cs1 = Some (Inr (r1, [nl] @ concat (map show_op ps)))"
    and r1: "r_ops r1 = (r_ops r)[r_op_index r := sizes_kept junk (r_op_index r) p]"
      "r_op_index r1 = r_op_index r" "r_max_index r1 = max_id [p] (r_max_index r)"
    using read_line [of ws r junk p "concat (map show_op ps)", OF Cons.prems(1) k] by fastforce
  let ?r = "r1\<lparr>r_op_index := r_op_index r1 + 1\<rparr>"
  have e: "read_requests r (ws @ concat (map show_op (p # ps)))
      = read_requests ?r ([nl] @ concat (map show_op ps))"
    using l by (subst read_requests.simps) (simp add: MAXLINE_def)
  have "\<exists>r'. read_requests ?r ([nl] @ concat (map show_op ps)) = Some (Inr r')
    \<and> length (r_ops r') = length (r_ops ?r) \<and> r_op_index r' = r_op_index ?r + length ps
    \<and> take (r_op_index r') (r_ops r') = take (r_op_index ?r) (r_ops ?r)
        @ map (\<lambda>(k, p). sizes_kept junk k p) (zip [r_op_index ?r..<r_op_index ?r + length ps] ps)
    \<and> r_max_index r' = max_id ps (r_max_index ?r)"
    by (rule Cons.IH) (use Cons.prems r1 in \<open>auto simp: nth_list_update\<close>)
  then obtain r' where r': "read_requests ?r ([nl] @ concat (map show_op ps)) = Some (Inr r')"
    "length (r_ops r') = length (r_ops r)" "r_op_index r' = Suc (r_op_index r) + length ps"
    "take (r_op_index r') (r_ops r') = take (r_op_index r) (r_ops r) @ [sizes_kept junk (r_op_index r) p]
        @ map (\<lambda>(k, p). sizes_kept junk k p) (zip [Suc (r_op_index r)..<Suc (r_op_index r) + length ps] ps)"
    "r_max_index r' = max_id ps (max_id [p] (r_max_index r))"
    using r1 k(1) by (auto simp: take_upd_last)
  have z: "zip [r_op_index r..<r_op_index r + length (p # ps)] (p # ps)
      = (r_op_index r, p) # zip [Suc (r_op_index r)..<Suc (r_op_index r) + length ps] ps"
    by (subst upt_conv_Cons) simp_all
  show ?case unfolding e z using r' by (intro exI [of _ r']) (simp add: max_id_def)
qed

text \<open>Memory for the trace record and its three arrays, and a path that fits into its buffer.\<close>

definition readable :: "(nat \<Rightarrow> 32 word \<Rightarrow> bool) \<Rightarrow> string \<Rightarrow> string \<Rightarrow> trace \<Rightarrow> bool" where
  "readable grants dir fname t \<longleftrightarrow> grants 1 28 \<and> grants 2 (num_ops t * 12) \<and> grants 3 (num_ids t * 4) \<and> grants 4 (num_ids t * 4)
     \<and> length (dir @ fname) < MAXLINE"

lemma read_show_trace:
  assumes f: "files (dir @ fname) = Some (show_trace t)" "readable grants dir fname t"
    and n: "num_ops t = of_nat (length (ops t))" "12 * length (ops t) < 2 ^ 32"
    and pos: "0 \<le> sint (sugg_heapsize t)" "0 \<le> sint (num_ids t)" "0 \<le> sint (weight t)"
    and m: "max_id (ops t) 0 = num_ids t - 1"
  shows "read_trace grants junk junk_ops junk_addr files dir fname = Some (Trace
    (t\<lparr>ops := map (\<lambda>(k, p). sizes_kept junk_ops k p) (zip [0..<length (ops t)] (ops t)),
       blocks := alloc_array junk_addr (num_ids t * 4) 4, block_sizes := alloc_array junk_addr (num_ids t * 4) 4\<rparr>))"
proof -
  let ?n = "length (ops t)" and ?body = "concat (map show_op (ops t))"
  have un: "unat (num_ops t) = ?n" unfolding n(1) using n(2) by (intro unat_of_nat32) simp
  then have sn: "sint (num_ops t) = int ?n" using sint_small [of "num_ops t"] n(2) by (simp del: of_nat_unat)
  have arr: "unat (num_ops t * 12) div 12 = ?n"
    using unat_mult_div [of "num_ops t" 12] un n(2) by (simp add: mult.commute)
  have head: "scan_d junk (dec (unat i) @ nl # cs) = (i, nl # cs)" if "0 \<le> sint i" for i cs
    using scan_d_dec [of "[]" "nl # cs" i junk] that by simp
  have line: "scan_d junk (nl # dec (unat i) @ nl # cs) = (i, nl # cs)" if "0 \<le> sint i" for i cs
    using scan_d_dec [of "[nl]" "nl # cs" i junk] that by simp
  let ?r = "\<lparr>r_ops = alloc_array junk_ops (num_ops t * 12) 12, r_op_index = 0, r_index = 0, r_size = junk, r_max_index = 0\<rparr>"
  have "\<exists>r'. read_requests ?r ([nl] @ ?body) = Some (Inr r')
    \<and> length (r_ops r') = length (r_ops ?r) \<and> r_op_index r' = r_op_index ?r + ?n
    \<and> take (r_op_index r') (r_ops r') = take (r_op_index ?r) (r_ops ?r)
        @ map (\<lambda>(k, p). sizes_kept junk_ops k p) (zip [r_op_index ?r..<r_op_index ?r + ?n] (ops t))
    \<and> r_max_index r' = max_id (ops t) (r_max_index ?r)"
    by (rule read_lines) (simp_all add: arr alloc_array_def)
  then obtain r' where r': "read_requests ?r (nl # ?body) = Some (Inr r')" "r_op_index r' = ?n"
    "r_ops r' = map (\<lambda>(k, p). sizes_kept junk_ops k p) (zip [0..<?n] (ops t))"
    "r_max_index r' = num_ids t - 1" using m by (auto simp: arr)
  with r' f(2) show ?thesis
    unfolding read_trace_def Let_def f(1) show_trace_def readable_def
    using head [OF pos(1)] line [OF pos(2)] line [of "num_ops t"] line [OF pos(3)] sn n(1)
    by simp
qed

end
