(* ===== verification/Timing_Facts.thy ===== *)
theory Timing_Facts
  imports Timing
begin

text \<open>
  What the timing layer computes: the counter difference is a 64-bit subtraction, the sampler keeps the
  smallest samples in order, the sampling loop ends within \<open>maxsamples\<close> rounds, and clearing the
  cache ends when a cache block holds at least one word.
\<close>

section \<open>The counter is a 64-bit subtraction\<close>

lemma borrow_subtract:
  fixes a b c d M :: int
  assumes M: "0 < M" and r: "0 \<le> c" "c < M" "0 \<le> d" "d < M"
  shows "((a - b - (if (c - d) mod M > c then 1 else 0)) mod M) * M + (c - d) mod M
    = (M * a + c - (M * b + d)) mod (M * M)"
proof -
  let ?x = "M * (a - b) + (c - d)"
  have "?x mod (M * M) = M * (?x div M mod M) + ?x mod M"
    using M by (intro zmod_zmult2_eq) simp
  moreover have "?x div M = a - b + (c - d) div M" "?x mod M = (c - d) mod M"
    using M by (simp_all add: add.commute)
  moreover have "(c - d) div M = (if (c - d) mod M > c then - 1 else 0)"
  proof (cases "c < d")
    case True
    then have "(c - d + M) div M = 0" "(c - d + M) mod M = c - d + M"
      using M r by (intro div_pos_pos_trivial mod_pos_pos_trivial; simp)+
    moreover have "(c - d + M) div M = (c - d) div M + 1" "(c - d + M) mod M = (c - d) mod M"
      using M by simp_all
    ultimately show ?thesis using r by simp
  next
    case False
    then have "(c - d) div M = 0" "(c - d) mod M = c - d" using r by simp_all
    then show ?thesis using r by simp
  qed
  moreover have "M * a + c - (M * b + d) = ?x" by (simp add: algebra_simps)
  ultimately show ?thesis by (cases "(c - d) mod M > c") (simp_all only: if_True if_False, simp_all add: mult.commute)
qed

lemma elapsed_eq:
  "elapsed hi0 lo0 hi lo
     = of_int ((2 ^ 32 * uint hi + uint lo - (2 ^ 32 * uint hi0 + uint lo0)) mod 2 ^ 64)"
proof -
  let ?b = "if lo - lo0 > lo then 1 else 0 :: 32 word"
  have lt: "uint lo < 2 ^ 32" "uint lo0 < 2 ^ 32"
    using uint_bounded [of lo] uint_bounded [of lo0] by simp_all
  have lo: "uint (lo - lo0) = (uint lo - uint lo0) mod 2 ^ 32" by (simp add: uint_word_ariths)
  have b: "lo - lo0 > lo \<longleftrightarrow> (uint lo - uint lo0) mod 2 ^ 32 > uint lo"
    by (simp add: word_less_alt lo)
  have hi: "uint (hi - hi0 - ?b) = (uint hi - uint hi0 - uint ?b) mod 2 ^ 32"
    by (simp add: uint_word_ariths mod_diff_left_eq)
  have "uint (hi - hi0 - ?b) * 2 ^ 32 + uint (lo - lo0)
      = (2 ^ 32 * uint hi + uint lo - (2 ^ 32 * uint hi0 + uint lo0)) mod (2 ^ 32 * 2 ^ 32)"
    unfolding hi lo using borrow_subtract [of "2 ^ 32" "uint lo" "uint lo0" "uint hi" "uint hi0"]
      lt b by (simp add: if_distrib [of uint] cong: if_cong)
  then have "of_int (uint (hi - hi0 - ?b) * 2 ^ 32 + uint (lo - lo0))
      = (of_int ((2 ^ 32 * uint hi + uint lo - (2 ^ 32 * uint hi0 + uint lo0)) mod 2 ^ 64) :: rat)"
    by simp
  then show ?thesis by (simp add: elapsed_def Let_def)
qed

section \<open>The \<open>K\<close> smallest samples\<close>

lemma sorted_mset_eq: "sorted (xs :: rat list) \<Longrightarrow> sorted ys \<Longrightarrow> mset xs = mset ys \<Longrightarrow> xs = ys"
  by (metis properties_for_sort sorted_sort_id)

lemma insort_past:
  assumes "sorted (as @ bs)" "\<forall>y \<in> set as. y \<le> (x :: rat)"
  shows "insort x (as @ bs) = as @ insort x bs"
  by (rule sorted_mset_eq) (use assms in \<open>auto simp: sorted_append sorted_insort set_insort_key\<close>)

lemma insort_small:
  "\<forall>z \<in> set zs. x < z \<Longrightarrow> insort (x :: rat) (ys @ zs) = insort x ys @ zs"
  by (induction ys) (cases zs; auto)+

text \<open>\<open>sift\<close> is the insertion of the element at \<open>pos\<close> into the sorted stretch before it.\<close>

lemma sift_insort:
  "sorted (take pos vs) \<Longrightarrow> pos < length vs
   \<Longrightarrow> sift vs pos = insort (vs ! pos) (take pos vs) @ drop (Suc pos) vs"
proof (induction pos arbitrary: vs)
  case 0
  then show ?case by (cases vs) simp_all
next
  case (Suc pos)
  let ?x = "vs ! Suc pos" and ?y = "vs ! pos"
  have t: "take (Suc pos) vs = take pos vs @ [?y]" using Suc.prems(2) by (simp add: take_Suc_conv_app_nth)
  then have s: "sorted (take pos vs)" "\<forall>z \<in> set (take pos vs). z \<le> ?y"
    using Suc.prems(1) by (simp_all add: sorted_append)
  show ?case
  proof (cases "?y > ?x")
    case True
    let ?vs = "vs[pos := ?x, Suc pos := ?y]"
    have "sift ?vs pos = insort ?x (take pos vs) @ drop (Suc pos) ?vs"
      using Suc.IH [of ?vs] s(1) Suc.prems(2) by simp
    moreover have "drop (Suc pos) ?vs = ?y # drop (Suc (Suc pos)) vs"
      using Suc.prems(2) by (subst Cons_nth_drop_Suc [symmetric]) simp_all
    moreover have "insort ?x (take pos vs @ [?y]) = insort ?x (take pos vs) @ [?y]"
      using True by (intro insort_small) simp
    ultimately show ?thesis using True t by simp
  next
    case False
    then have "\<forall>z \<in> set (take (Suc pos) vs). z \<le> ?x" using s(2) t by (auto intro: order_trans)
    then have "insort ?x (take (Suc pos) vs) = take (Suc pos) vs @ [?x]"
      using Suc.prems(1) insort_past [of "take (Suc pos) vs" "[]" ?x] by simp
    moreover have "vs = take (Suc pos) vs @ ?x # drop (Suc (Suc pos)) vs"
      using Suc.prems(2) by (simp add: id_take_nth_drop)
    ultimately show ?thesis using False by simp
  qed
qed

lemma take_insort:
  assumes "sorted ys" "k \<le> length ys" "0 < k"
  shows "take k (insort (x :: rat) ys) = (if x < ys ! (k - 1) then insort x (take (k - 1) ys) else take k ys)"
proof (cases "x < ys ! (k - 1)")
  case True
  have "\<forall>z \<in> set (drop (k - 1) ys). x < z"
  proof
    fix z
    assume "z \<in> set (drop (k - 1) ys)"
    then obtain i where "i < length ys - (k - 1)" "z = ys ! (k - 1 + i)"
      using assms by (auto simp: in_set_conv_nth)
    then have "ys ! (k - 1) \<le> z" using assms by (auto intro!: sorted_nth_mono)
    with True show "x < z" by simp
  qed
  then have "insort x ys = insort x (take (k - 1) ys) @ drop (k - 1) ys"
    using insort_small [of "drop (k - 1) ys" x "take (k - 1) ys"] by simp
  with True assms show ?thesis by simp
next
  case False
  have "\<forall>y \<in> set (take k ys). y \<le> x"
  proof
    fix y
    assume "y \<in> set (take k ys)"
    then obtain i where "i < k" "y = ys ! i" using assms by (auto simp: in_set_conv_nth)
    then have "y \<le> ys ! (k - 1)" using assms by (auto intro!: sorted_nth_mono)
    with False show "y \<le> x" by simp
  qed
  then have "insort x ys = take k ys @ insort x (drop k ys)"
    using insort_past [of "take k ys" "drop k ys" x] assms(1) by simp
  with False assms show ?thesis by simp
qed

text \<open>
  \<open>sampled f xs\<close>: after the samples \<open>xs\<close> the array starts with the smallest of them, in order, at
  most \<open>kbest\<close> many.
\<close>

definition sampled :: "sampler \<Rightarrow> rat list \<Rightarrow> bool" where
  "sampled f xs \<longleftrightarrow> 0 < kbest f \<and> samplecount f = int (length xs) \<and>
     (\<exists>vs. vals f = Some vs \<and> length vs = nat (kbest f)
       \<and> take (min (length xs) (nat (kbest f))) vs = take (nat (kbest f)) (sort xs))"

text \<open>All but the samples.\<close>

definition params :: "sampler \<Rightarrow> sampler" where
  "params f = f\<lparr>vals := None, samplecount := 0, cache_buf := None, sink := 0\<rparr>"

lemma params_simps [simp]:
  "kbest (params f) = kbest f" "maxsamples (params f) = maxsamples f"
  "clear_cache (params f) = clear_cache f" "compensate (params f) = compensate f"
  "cache_block (params f) = cache_block f" "cache_bytes (params f) = cache_bytes f"
  "params (f\<lparr>vals := v\<rparr>) = params f" "params (f\<lparr>samplecount := c\<rparr>) = params f"
  "params (f\<lparr>cache_buf := b, sink := x\<rparr>) = params f"
  by (simp_all add: params_def)

lemma paramsD:
  "params f' = params f \<Longrightarrow> maxsamples f' = maxsamples f \<and> clear_cache f' = clear_cache f
     \<and> kbest f' = kbest f \<and> cache_block f' = cache_block f \<and> cache_bytes f' = cache_bytes f"
  by (metis params_simps(1,2,3,5,6))

lemma sampledE:
  assumes "sampled f xs"
  obtains k vs where "0 < k" "kbest f = int k" "samplecount f = int (length xs)" "vals f = Some vs"
    "length vs = k" "take (min (length xs) k) vs = take k (sort xs)"
proof -
  obtain vs where "vals f = Some vs" "length vs = nat (kbest f)"
    "take (min (length xs) (nat (kbest f))) vs = take (nat (kbest f)) (sort xs)"
    using assms unfolding sampled_def by blast
  moreover have "0 < kbest f" "samplecount f = int (length xs)" using assms unfolding sampled_def by blast+
  ultimately show thesis by (intro that [of "nat (kbest f)" vs]) simp_all
qed

lemma sampledI:
  "0 < k \<Longrightarrow> kbest f = int k \<Longrightarrow> samplecount f = int (length xs) \<Longrightarrow> vals f = Some vs \<Longrightarrow> length vs = k
   \<Longrightarrow> take (min (length xs) k) vs = take k (sort xs) \<Longrightarrow> sampled f xs"
  by (simp add: sampled_def)

lemma sampled_init: "0 < kbest f \<Longrightarrow> kbest f < 2 ^ 29 \<Longrightarrow> sampled (init_sampler True f) []"
  by (simp add: sampled_def init_sampler_def)

lemma add_sample_ok:
  assumes "sampled f xs"
  shows "\<exists>f'. add_sample f x = Some f' \<and> sampled f' (x # xs)
    \<and> params f' = params f"
proof -
  obtain k vs where k: "0 < k" "kbest f = int k" and n: "samplecount f = int (length xs)"
    and vs: "vals f = Some vs" "length vs = k" "take (min (length xs) k) vs = take k (sort xs)"
    using assms by (rule sampledE)
  show ?thesis
  proof (cases "length xs < k")
    case True
    let ?n = "length xs" and ?us = "vs[length xs := x]"
    have t: "take ?n ?us = sort xs" using vs(3) True by (simp add: min_def)
    then have "sift ?us ?n = insort x (sort xs) @ drop (Suc ?n) ?us"
      using sift_insort [of ?n ?us] True vs(2) by simp
    moreover have "add_sample f x = Some (f\<lparr>vals := Some (sift ?us ?n), samplecount := samplecount f + 1\<rparr>)"
      using True vs(1,2) k n by (simp add: add_sample_def)
    ultimately show ?thesis using True k n vs(2)
      by (simp add: sampled_def min_def)
  next
    case False
    have ts: "vs = take k (sort xs)" using vs(2,3) False by (simp add: min_def)
    have nth: "vs ! (k - 1) = sort xs ! (k - 1)" using k(1) by (simp add: ts)
    note T = take_insort [of "sort xs" k x]
    show ?thesis
    proof (cases "x < vs ! (k - 1)")
      case True
      let ?us = "vs[k - 1 := x]"
      have tk: "take (k - 1) ?us = take (k - 1) (sort xs)" using k(1) ts by (simp add: min_def)
      have "sorted (take (k - 1) ?us)" unfolding tk by (simp add: sorted_wrt_take)
      from sift_insort [OF this] have "sift ?us (k - 1) = insort x (take (k - 1) (sort xs)) @ drop k ?us"
        unfolding tk using k(1) vs(2) by simp
      then have "sift ?us (k - 1) = take k (sort (x # xs))"
        using T True nth False k(1) vs(2) by simp
      moreover have "add_sample f x
          = Some (f\<lparr>vals := Some (sift ?us (k - 1)), samplecount := samplecount f + 1\<rparr>)"
        using True False vs(1,2) k n by (simp add: add_sample_def nat_diff_distrib)
      ultimately show ?thesis using False k n vs(2)
        by (simp add: sampled_def)
    next
      case small: False
      have "add_sample f x = Some (f\<lparr>vals := Some vs, samplecount := samplecount f + 1\<rparr>)"
        using small False vs(1,2) k n by (simp add: add_sample_def nat_diff_distrib)
      moreover have "vs = take k (sort (x # xs))" using T small nth False k(1) ts by simp
      ultimately show ?thesis using False k n vs(2)
        by (simp add: sampled_def)
    qed
  qed
qed

lemma has_converged_ok: "sampled f xs \<Longrightarrow> \<exists>c. has_converged f = Some c"
  by (auto simp: sampled_def has_converged_def)

lemma sampled_least:
  assumes "sampled f xs" "xs \<noteq> []"
  shows "\<exists>vs. vals f = Some vs \<and> vs \<noteq> [] \<and> vs ! 0 = Min (set xs)"
proof -
  obtain k vs where k: "0 < k" and vs: "vals f = Some vs" "length vs = k"
    "take (min (length xs) k) vs = take k (sort xs)"
    using assms(1) by (rule sampledE)
  have "vs ! 0 = take (min (length xs) k) vs ! 0" using k assms(2) by simp
  also have "\<dots> = sort xs ! 0" unfolding vs(3) using k by simp
  also have "\<dots> = Min (set xs)"
  proof (rule Min_eqI [symmetric])
    show "sort xs ! 0 \<le> y" if "y \<in> set xs" for y
    proof -
      have "y \<in> set (sort xs)" using that by simp
      then obtain i where "i < length (sort xs)" "y = sort xs ! i" by (auto simp only: in_set_conv_nth)
      then show ?thesis using sorted_nth_mono [of "sort xs" 0 i] by simp
    qed
    have "sort xs ! 0 \<in> set (sort xs)" using assms(2) by (intro nth_mem) simp
    then show "sort xs ! 0 \<in> set xs" by simp
  qed simp
  finally show ?thesis using vs(1,2) k by auto
qed

section \<open>Clearing the cache\<close>

text \<open>With step 0 the loop never ends.\<close>

lemma sum_words_some:
  assumes "sum_words buf incr cend cptr x = Some y"
  shows "incr * 4 = 0 \<longrightarrow> \<not> cptr < cend"
  using sum_words.raw_induct [of "\<lambda>buf incr cend cptr x y. incr * 4 = 0 \<longrightarrow> \<not> cptr < cend" "((((buf, incr), cend), cptr), x)" y] assms
  by (fastforce split: if_splits Option.bind_splits)

lemma sum_words_spins: "incr * 4 = 0 \<Longrightarrow> cptr < cend \<Longrightarrow> sum_words buf incr cend cptr x = None"
  using sum_words_some [of buf incr cend cptr x] by (cases "sum_words buf incr cend cptr x") auto

text \<open>
  With a positive step it ends, if the pointer cannot wrap past the end of the buffer: the buffer and one more block lie below the end of the address
  space, or the blocks divide the buffer evenly.
\<close>

definition walkable :: "addr \<times> cint list \<Rightarrow> addr \<Rightarrow> bool" where
  "walkable buf incr \<longleftrightarrow> 0 < incr \<and> unat incr < 2 ^ 30 \<and> length (snd buf) < 2 ^ 30
     \<and> (unat (fst buf) + 4 * (length (snd buf) + unat incr) \<le> 2 ^ 32 \<or> unat incr dvd length (snd buf))"

lemma sum_words_ends:
  assumes w: "walkable buf incr" and cend: "cend = fst buf + of_nat (length (snd buf)) * 4"
    and nowrap: "unat (fst buf) + 4 * length (snd buf) < 2 ^ 32"
  shows "unat incr dvd i \<Longrightarrow> unat (fst buf) + 4 * i < 2 ^ 32
    \<Longrightarrow> \<exists>y. sum_words buf incr cend (fst buf + of_nat i * 4) x = Some y"
proof (induction "length (snd buf) - i" arbitrary: i x rule: less_induct)
  case (less i x)
  let ?p = "fst buf" and ?n = "length (snd buf)" and ?k = "unat incr"
  have at: "unat (?p + of_nat m * 4) = unat ?p + 4 * m" if "unat ?p + 4 * m < 2 ^ 32" for m
  proof -
    have e: "of_nat m * 4 = (of_nat (4 * m) :: addr)" by simp
    show ?thesis unfolding e using that by (intro unat_add_of_nat32) simp
  qed
  have c: "unat cend = unat ?p + 4 * ?n" unfolding cend by (rule at [OF nowrap])
  show ?case
  proof (cases "i < ?n")
    case False
    then have "\<not> ?p + of_nat i * 4 < cend" using at [OF less.prems(2)] c by (simp add: word_less_nat_alt)
    then show ?thesis by (subst sum_words.simps) simp
  next
    case True
    then have lt: "?p + of_nat i * 4 < cend" using at [OF less.prems(2)] c by (simp add: word_less_nat_alt)
    have "unat (of_nat i * 4 :: addr) = 4 * i"
      using unat_of_nat32 [of "4 * i"] less.prems(2) by (simp add: mult.commute)
    then have r: "read_word buf (?p + of_nat i * 4) = Some (snd buf ! i)" using True by (simp add: read_word_def Let_def)
    have k: "0 < ?k" using w by (simp add: walkable_def word_less_nat_alt)
    have "unat ?p + 4 * (i + ?k) < 2 ^ 32"
    proof (cases "?k dvd ?n")
      case True
      then obtain a b where ab: "i = ?k * a" "?n = ?k * b" using less.prems(1) by (auto elim!: dvdE)
      with \<open>i < ?n\<close> k have "a < b" by simp
      then have "?k * (a + 1) \<le> ?k * b" by (intro mult_le_mono2) simp
      then have "i + ?k \<le> ?n" using ab by (simp add: algebra_simps)
      then have "unat ?p + 4 * (i + ?k) \<le> unat ?p + 4 * ?n" by simp
      then show ?thesis using nowrap by (rule le_less_trans)
    next
      case False
      then show ?thesis using w \<open>i < ?n\<close> by (simp add: walkable_def)
    qed
    moreover have "?n - (i + ?k) < ?n - i" using True k by (intro diff_less_mono2) simp_all
    moreover have "?k dvd i + ?k" using less.prems(1) by simp
    ultimately obtain y where "sum_words buf incr cend (?p + of_nat (i + ?k) * 4) (x + snd buf ! i) = Some y"
      using less.hyps [of "i + ?k" "x + snd buf ! i"] by blast
    then show ?thesis using lt r
      by (subst sum_words.simps) (auto simp: algebra_simps)
  qed
qed

lemma sum_words_all:
  assumes w: "walkable buf incr" and cend: "cend = fst buf + of_nat (length (snd buf)) * 4"
  shows "\<exists>y. sum_words buf incr cend (fst buf) x = Some y"
proof (cases "unat (fst buf) + 4 * length (snd buf) < 2 ^ 32")
  case True
  from sum_words_ends [OF assms this, of 0 x] show ?thesis using unat_lt32 [of "fst buf"] by simp
next
  case False
  have e: "of_nat (length (snd buf)) * 4 = (of_nat (4 * length (snd buf)) :: addr)" by simp
  have n: "unat (of_nat (4 * length (snd buf)) :: addr) = 4 * length (snd buf)"
    using w by (intro unat_of_nat32) (simp add: walkable_def)
  have "unat cend = (unat (fst buf) + 4 * length (snd buf)) mod 2 ^ 32"
    unfolding cend e unat_word_ariths(1) n by simp
  also have "\<dots> = (unat (fst buf) + 4 * length (snd buf) - 2 ^ 32) mod 2 ^ 32" using False by (intro le_mod_geq) simp
  also have "\<dots> = unat (fst buf) + 4 * length (snd buf) - 2 ^ 32"
  proof (rule mod_less)
    define p n where "p = unat (fst buf)" and "n = length (snd buf)"
    have "p < 2 ^ 32" "n < 2 ^ 30" using w unat_lt32 [of "fst buf"] by (simp_all add: p_def n_def walkable_def)
    then show "unat (fst buf) + 4 * length (snd buf) - 2 ^ 32 < 2 ^ 32" unfolding p_def [symmetric] n_def [symmetric] by simp
  qed
  also have "\<dots> \<le> unat (fst buf)"
  proof -
    have "4 * length (snd buf) \<le> 2 ^ 32" using w by (simp add: walkable_def)
    then show ?thesis by simp
  qed
  finally have "\<not> fst buf < cend" by (simp add: word_less_nat_alt)
  then show ?thesis by (subst sum_words.simps) simp
qed

text \<open>Clearing the cache is off, or there is a buffer of the announced size the loop can walk through.\<close>

definition clearable :: "(addr \<times> (nat \<Rightarrow> cint)) option \<Rightarrow> sampler \<Rightarrow> bool" where
  "clearable junk f \<longleftrightarrow> (clear_cache f \<longrightarrow> (\<exists>buf. cache_buffer junk f = Some buf
     \<and> length (snd buf) = unat (cache_words f) \<and> walkable buf (of_int (cache_block f) div 4)))"

lemma clear_ok:
  assumes "clearable junk f" "clear_cache f"
  shows "\<exists>f'. clear junk f = Some (Inr f') \<and> params f' = params f \<and> vals f' = vals f
    \<and> samplecount f' = samplecount f \<and> cache_buffer junk f' = cache_buffer junk f"
proof -
  obtain buf where b: "cache_buffer junk f = Some buf" "length (snd buf) = unat (cache_words f)"
    "walkable buf (of_int (cache_block f) div 4)" using assms by (auto simp: clearable_def)
  have "fst buf + cache_words f * 4 = fst buf + of_nat (length (snd buf)) * 4" by (simp add: b(2))
  from sum_words_all [OF b(3) this, of "sink f"] obtain x where
    "sum_words buf (of_int (cache_block f) div 4) (fst buf + cache_words f * 4) (fst buf) (sink f) = Some x" by blast
  then show ?thesis using b(1) by (simp add: clear_def Let_def) (simp add: cache_buffer_def)
qed

lemma clearable_cong:
  "params f' = params f \<Longrightarrow> cache_buffer junk f' = cache_buffer junk f \<Longrightarrow> clearable junk f' = clearable junk f"
  using paramsD [of f' f] by (simp add: clearable_def cache_words_def)

lemma cache_words_vals [simp]: "cache_words (f\<lparr>vals := v, samplecount := n\<rparr>) = cache_words f"
  by (simp add: cache_words_def)

lemma init_sampler_buffer [simp]: "cache_buffer junk (init_sampler mem f) = cache_buffer junk f"
  by (simp add: init_sampler_def cache_buffer_def split: option.split)

lemma add_sample_buffer: "add_sample f x = Some f' \<Longrightarrow> cache_buffer junk f' = cache_buffer junk f"
  by (auto simp: add_sample_def cache_buffer_def split: Option.bind_splits if_splits option.splits)

lemma sampled_cong:
  "sampled f xs \<Longrightarrow> params f' = params f \<Longrightarrow> vals f' = vals f \<Longrightarrow> samplecount f' = samplecount f \<Longrightarrow> sampled f' xs"
  using paramsD [of f' f] by (simp add: sampled_def)

section \<open>The sampling loop ends\<close>

text \<open>The first \<open>n\<close> measurements from a state.\<close>

primrec measurements :: "('c \<Rightarrow> (rat \<times> 'c) option) \<Rightarrow> nat \<Rightarrow> 'c \<Rightarrow> rat list option" where
  "measurements meas 0 c = Some []"
| "measurements meas (Suc n) c = do {
     (x, c) \<leftarrow> meas c;
     xs \<leftarrow> measurements meas n c;
     Some (x # xs) }"

text \<open>A measurement that returns from every state satisfying \<open>P\<close>, and stays there.\<close>

definition returns_within :: "('c \<Rightarrow> bool) \<Rightarrow> ('c \<Rightarrow> (rat \<times> 'c) option) \<Rightarrow> bool" where
  "returns_within P meas \<longleftrightarrow> (\<forall>c. P c \<longrightarrow> (\<exists>x c'. meas c = Some (x, c') \<and> P c'))"

lemma returns_withinE:
  assumes "returns_within P meas" "P c"
  obtains x c' where "meas c = Some (x, c')" "P c'"
  using assms by (auto simp: returns_within_def)

text \<open>One round: the next state, and whether the loop goes on.\<close>

lemma sample_round:
  assumes "sampled f xs" "clearable junk f" "meas c = Some (x, c')"
  shows "\<exists>f'. sampled f' (x # xs) \<and> params f' = params f \<and> cache_buffer junk f' = cache_buffer junk f \<and>
    (sample_loop junk meas f c = Some (Inr (f', c'))
     \<or> samplecount f' < maxsamples f' \<and> sample_loop junk meas f c = sample_loop junk meas f' c')"
proof -
  obtain f0 where f0: "(if clear_cache f then clear junk f else Some (Inr f)) = Some (Inr f0)"
    "params f0 = params f" "vals f0 = vals f" "samplecount f0 = samplecount f" "cache_buffer junk f0 = cache_buffer junk f"
    using clear_ok [OF assms(2)] by (cases "clear_cache f") auto
  obtain f' where f': "add_sample f0 x = Some f'" "sampled f' (x # xs)"
    "params f' = params f0" using add_sample_ok [OF sampled_cong [OF assms(1) f0(2-4)]] by blast
  obtain b where "has_converged f' = Some b" using has_converged_ok [OF f'(2)] by blast
  with f0(1) f'(1) assms(3) have "sample_loop junk meas f c = (if \<not> b \<and> samplecount f' < maxsamples f'
      then sample_loop junk meas f' c' else Some (Inr (f', c')))"
    by (subst sample_loop.simps) simp
  then show ?thesis using f'(2,3) f0(2,5) add_sample_buffer [OF f'(1)] by (intro exI [of _ f']) auto
qed

lemma sample_loop_ok:
  assumes R: "returns_within P meas"
    and "sampled f xs" "clearable junk f" "nat (maxsamples f - samplecount f) \<le> n" "P c"
  shows "\<exists>m ms f' c'. sample_loop junk meas f c = Some (Inr (f', c')) \<and> 0 < m \<and> m \<le> max 1 n
    \<and> measurements meas m c = Some ms \<and> ms \<noteq> [] \<and> sampled f' (rev ms @ xs) \<and> params f' = params f"
  using assms(2-5)
proof (induction n arbitrary: f xs c)
  case (0 f xs c)
  obtain x c' where x: "meas c = Some (x, c')" by (rule returns_withinE [OF R 0(4)])
  from sample_round [of f xs junk meas c x c', OF 0(1,2) x] obtain f' where
    f': "sampled f' (x # xs)" "params f' = params f"
    and "sample_loop junk meas f c = Some (Inr (f', c')) \<or> samplecount f' < maxsamples f'" by blast
  moreover have "\<not> samplecount f' < maxsamples f'"
    using 0 f'(1) paramsD [OF f'(2)] by (simp add: sampled_def)
  ultimately show ?case using x
    by (intro exI [of _ 1] exI [of _ "[x]"] exI [of _ f'] exI [of _ c']) simp
next
  case (Suc n f xs c)
  obtain x c1 where x: "meas c = Some (x, c1)" "P c1" by (rule returns_withinE [OF R Suc.prems(4)])
  from sample_round [of f xs junk meas c x c1, OF Suc.prems(1,2) x(1)] obtain f1 where
    f1: "sampled f1 (x # xs)" "params f1 = params f" "cache_buffer junk f1 = cache_buffer junk f"
    and alt: "sample_loop junk meas f c = Some (Inr (f1, c1))
      \<or> samplecount f1 < maxsamples f1 \<and> sample_loop junk meas f c = sample_loop junk meas f1 c1"
    by blast
  have cnt: "samplecount f1 = samplecount f + 1" "maxsamples f1 = maxsamples f"
    using Suc.prems(1) f1(1) paramsD [OF f1(2)] by (simp_all add: sampled_def)
  from alt show ?case
  proof (elim disjE conjE)
    assume "sample_loop junk meas f c = Some (Inr (f1, c1))"
    then show ?case using f1 x(1)
      by (intro exI [of _ 1] exI [of _ "[x]"] exI [of _ f1] exI [of _ c1]) simp
  next
    assume go: "samplecount f1 < maxsamples f1"
      and e: "sample_loop junk meas f c = sample_loop junk meas f1 c1"
    have n: "nat (maxsamples f1 - samplecount f1) \<le> n" "0 < n" using go cnt Suc.prems(3) by linarith+
    have "clearable junk f1" using Suc.prems(2) clearable_cong [OF f1(2,3)] by simp
    from Suc.IH [OF f1(1) this n(1) x(2)] obtain m ms f' c' where
      r: "sample_loop junk meas f1 c1 = Some (Inr (f', c'))" "0 < m" "m \<le> max 1 n"
        "measurements meas m c1 = Some ms" "sampled f' (rev ms @ x # xs)" "params f' = params f1" by blast
    moreover have "Suc m \<le> max 1 (Suc n)" using r(3) n(2) by simp
    ultimately show ?case using e f1(2) x(1)
      by (intro exI [of _ "Suc m"] exI [of _ "x # ms"] exI [of _ f'] exI [of _ c']) simp
  qed
qed

section \<open>What one measurement is\<close>

text \<open>
  The compensated counters calibrate themselves when they are first used, waiting for clock ticks, and again whenever the calibration
  has found no tick length. \<open>calibrated\<close>: that is over and done with after at most one calibration.
\<close>

definition calibrated :: "('e \<Rightarrow> (32 word \<times> 32 word) \<times> 'e) \<Rightarrow> ('e \<Rightarrow> int \<times> 'e) \<Rightarrow> 'e clk \<Rightarrow> bool" where
  "calibrated rdtsc utime c \<longleftrightarrow>
     cyc_per_tick c \<noteq> 0 \<or> (\<exists>c'. callibrate rdtsc utime c = Some c' \<and> cyc_per_tick c' \<noteq> 0)"

lemma cyc_per_tick_start: "cyc_per_tick (start_counter rdtsc c) = cyc_per_tick c"
  by (simp add: start_counter_def split_beta)

lemma cyc_per_tick_get: "cyc_per_tick (snd (get_counter rdtsc c)) = cyc_per_tick c"
  by (simp add: get_counter_def split_beta)

lemma cycles_return: "returns_within (\<lambda>_. True) (cycles_of rdtsc run)"
  by (simp add: returns_within_def cycles_of_def Let_def)

lemma comp_cycles_return: "returns_within (calibrated rdtsc utime) (comp_cycles_of rdtsc utime run)"
  unfolding returns_within_def
proof (intro allI impI)
  fix c assume c: "calibrated rdtsc utime c"
  obtain c0 where c0: "(if cyc_per_tick c = 0 then callibrate rdtsc utime c else Some c) = Some c0" "cyc_per_tick c0 \<noteq> 0"
    using c by (cases "cyc_per_tick c = 0") (auto simp: calibrated_def)
  let ?c1 = "start_counter rdtsc (c0\<lparr>start_tick := fst (utime (env c0)), env := snd (utime (env c0))\<rparr>)"
  let ?c2 = "?c1\<lparr>env := run (env ?c1)\<rparr>"
  have "comp_cycles_of rdtsc utime run c = Some (get_comp_counter rdtsc utime ?c2)"
    using c0(1) by (simp add: comp_cycles_of_def start_comp_counter_def split_beta Let_def)
  moreover have "cyc_per_tick (snd (get_comp_counter rdtsc utime ?c2)) = cyc_per_tick c0"
    by (simp add: get_comp_counter_def split_beta Let_def cyc_per_tick_get cyc_per_tick_start)
  ultimately show "\<exists>x c'. comp_cycles_of rdtsc utime run c = Some (x, c') \<and> calibrated rdtsc utime c'"
    using c0(2) by (intro exI [of _ "fst (get_comp_counter rdtsc utime ?c2)"] exI [of _ "snd (get_comp_counter rdtsc utime ?c2)"])
      (simp add: calibrated_def)
qed

text \<open>A plain measurement is the number of cycles between the two readings.\<close>

lemma cycles_of_eq:
  assumes "rdtsc (env c) = ((hi0, lo0), e1)" "rdtsc (run e1) = ((hi, lo), e2)"
  shows "cycles_of rdtsc run c
    = Some (of_int ((2 ^ 32 * uint hi + uint lo - (2 ^ 32 * uint hi0 + uint lo0)) mod 2 ^ 64),
        c\<lparr>cyc_hi := hi0, cyc_lo := lo0, env := e2\<rparr>)"
  using assms by (simp only: elapsed_eq [symmetric]) (simp add: cycles_of_def start_counter_def get_counter_def)

text \<open>The calibration ends as soon as it has seen its events.\<close>

lemma callibrate_loop_ends:
  "NEVENT \<le> fst ((callibrate_step rdtsc utime ^^ k) st) \<Longrightarrow> \<exists>j \<le> k. callibrate_loop rdtsc utime st
     = Some (snd (snd (snd ((callibrate_step rdtsc utime ^^ j) st)))) \<and> NEVENT \<le> fst ((callibrate_step rdtsc utime ^^ j) st)"
proof (induction k arbitrary: st)
  case 0
  then show ?case by (subst callibrate_loop.simps) simp
next
  case (Suc k)
  show ?case
  proof (cases "fst st < NEVENT")
    case True
    from Suc.prems have "NEVENT \<le> fst ((callibrate_step rdtsc utime ^^ k) (callibrate_step rdtsc utime st))"
      by (simp add: funpow_swap1)
    from Suc.IH [OF this] obtain j where "j \<le> k" "callibrate_loop rdtsc utime (callibrate_step rdtsc utime st)
        = Some (snd (snd (snd ((callibrate_step rdtsc utime ^^ Suc j) st))))"
      "NEVENT \<le> fst ((callibrate_step rdtsc utime ^^ Suc j) st)"
      by (auto simp: funpow_swap1)
    with True show ?thesis
      by (intro exI [of _ "Suc j"]) (subst callibrate_loop.simps, simp)
  next
    case False
    then show ?thesis by (intro exI [of _ 0]) (subst callibrate_loop.simps, simp)
  qed
qed

section \<open>\<open>fcyc\<close>\<close>

lemma fcyc_ok:
  assumes k: "0 < kbest f" "kbest f < 2 ^ 29" and cl: "clearable junk f"
    and m: "meas = (if compensate f then comp_cycles_of rdtsc utime run else cycles_of rdtsc run)"
    and cal: "compensate f \<Longrightarrow> calibrated rdtsc utime c"
  shows "\<exists>m ms f' c'. fcyc True junk rdtsc utime run f c = Some (Inr (Min (set ms), f', c'))
    \<and> measurements meas m c = Some ms \<and> 0 < m \<and> m \<le> max 1 (nat (maxsamples f)) \<and> params f' = params f"
proof -
  have i: "params (init_sampler True f) = params f" by (simp add: init_sampler_def)
  have n: "nat (maxsamples (init_sampler True f) - samplecount (init_sampler True f)) \<le> nat (maxsamples f)"
    by (simp add: init_sampler_def)
  have cl': "clearable junk (init_sampler True f)" using cl clearable_cong [OF i, of junk] by simp
  obtain P where P: "returns_within P meas" "P c"
    using m cal cycles_return [of rdtsc run] comp_cycles_return [of rdtsc utime run] by (cases "compensate f"; simp)
  from sample_loop_ok [OF P(1) sampled_init [OF k] cl' n P(2)] obtain m ms f' c' where
    r: "sample_loop junk meas (init_sampler True f) c = Some (Inr (f', c'))" "0 < m" "m \<le> max 1 (nat (maxsamples f))"
      "measurements meas m c = Some ms" "ms \<noteq> []" "sampled f' (rev ms)" "params f' = params f" unfolding i by auto
  with sampled_least [OF r(6)] obtain vs where "vals f' = Some vs" "vs \<noteq> []" "vs ! 0 = Min (set ms)" by auto
  then show ?thesis using r m
    by (intro exI [of _ m] exI [of _ ms] exI [of _ "f'\<lparr>vals := None\<rparr>"] exI [of _ c']) (simp add: fcyc_def)
qed

end
