(* ===== verification/Timing_Config.thy ===== *)
theory Timing_Config
  imports Timing_Facts
begin

text \<open>
  What the preprocessor selects in the timing layer: the cycle counters of \<open>src/clock.c\<close> on platforms other than the Pentium, and
  \<open>init_fsecs\<close> and \<open>fsecs\<close> of \<open>src/fsecs.c\<close> for the three timing methods of \<open>src/config.h\<close> (which sets \<open>USE_GETTOD\<close>). At the end a
  concrete clock on which the calibration of the compensated counters comes to its end.
\<close>

section \<open>Other platforms\<close>

text \<open>On the Alpha \<open>counter\<close> is a routine in machine code that yields 32 bits. Elsewhere the two functions print an error and exit.\<close>

definition start_counter_alpha :: "('e \<Rightarrow> 32 word \<times> 'e) \<Rightarrow> 'e clk \<Rightarrow> 'e clk" where
  "start_counter_alpha counter c =
     (let c = c\<lparr>cyc_hi := 0\<rparr>; (lo, e) = counter (env c) in c\<lparr>cyc_lo := lo, env := e\<rparr>)"

definition get_counter_alpha :: "('e \<Rightarrow> 32 word \<times> 'e) \<Rightarrow> 'e clk \<Rightarrow> rat \<times> 'e clk" where
  "get_counter_alpha counter c =
     (let (ncyc_lo, e) = counter (env c);
          ncyc_hi = 0;
          lo = ncyc_lo - cyc_lo c;
          borrow = (if lo > ncyc_lo then 1 else 0);
          hi = ncyc_hi - cyc_hi c - borrow
      in (of_nat (unat hi) * of_nat (2 ^ 30) * 4 + of_nat (unat lo), c\<lparr>env := e\<rparr>))"

definition start_counter_none :: "'e clk \<Rightarrow> nat + 'e clk" where
  "start_counter_none c = Inl 1"

definition get_counter_none :: "'e clk \<Rightarrow> nat + rat \<times> 'e clk" where
  "get_counter_none c = Inl 1"

text \<open>
  The Alpha's two readings are 32 bits wide, but the borrow is taken from an upper half that is always 0: the result is right as
  long as the counter does not wrap, and beyond \<open>2 ^ 63\<close> when it does.
\<close>

lemma alpha_counter:
  assumes "counter e = (lo0, e1)" "counter e1 = (lo, e2)" "env c = e"
  shows "get_counter_alpha counter (start_counter_alpha counter c)
    = (of_int ((uint lo - uint lo0) mod 2 ^ 64), c\<lparr>cyc_hi := 0, cyc_lo := lo0, env := e2\<rparr>)"
proof -
  have "get_counter_alpha counter (start_counter_alpha counter c)
      = (elapsed 0 lo0 0 lo, c\<lparr>cyc_hi := 0, cyc_lo := lo0, env := e2\<rparr>)"
    using assms by (simp add: get_counter_alpha_def start_counter_alpha_def elapsed_def Let_def)
  then show ?thesis using elapsed_eq [of 0 lo0 0 lo] by simp
qed

lemma alpha_counter_no_wrap:
  assumes "counter e = (lo0, e1)" "counter e1 = (lo, e2)" "env c = e" "lo0 \<le> lo"
  shows "fst (get_counter_alpha counter (start_counter_alpha counter c)) = of_nat (unat lo - unat lo0)"
proof -
  have "uint lo0 \<le> uint lo" using assms(4) by (simp add: word_le_def)
  moreover have "uint lo < 2 ^ 64" using uint_lt2p [of lo] by simp
  ultimately have "(uint lo - uint lo0) mod 2 ^ 64 = uint lo - uint lo0"
    using uint_ge_0 [of lo0] by (intro mod_pos_pos_trivial) linarith+
  then have "fst (get_counter_alpha counter (start_counter_alpha counter c)) = of_int (uint lo - uint lo0)"
    unfolding alpha_counter [OF assms(1-3)] fst_conv by (simp only:)
  also have "uint lo - uint lo0 = int (unat lo - unat lo0)"
    using \<open>uint lo0 \<le> uint lo\<close>
    unfolding unat_eq_nat_uint nat_diff_distrib [OF uint_ge_0 \<open>uint lo0 \<le> uint lo\<close>, symmetric] by (simp only: int_nat_eq) simp
  finally show ?thesis by (simp only: of_int_of_nat_eq)
qed

lemma alpha_counter_wrap:
  assumes "counter e = (lo0, e1)" "counter e1 = (lo, e2)" "env c = e" "lo < lo0"
  shows "2 ^ 63 \<le> fst (get_counter_alpha counter (start_counter_alpha counter c))"
proof -
  have lt: "uint lo < uint lo0" using assms(4) by (simp add: word_less_def)
  have hi: "uint lo0 < 2 ^ 32" using uint_lt2p [of lo0] by simp
  have "(2::int) ^ 63 + 2 ^ 32 \<le> 2 ^ 64" by simp
  with hi uint_ge_0 [of lo] have ge: "2 ^ 63 \<le> uint lo - uint lo0 + 2 ^ 64" by linarith
  have "(uint lo - uint lo0 + 2 ^ 64) mod 2 ^ 64 = uint lo - uint lo0 + 2 ^ 64"
    by (rule mod_pos_pos_trivial [OF order_trans [OF _ ge]]) (use lt in simp_all)
  then have "(uint lo - uint lo0) mod 2 ^ 64 = uint lo - uint lo0 + 2 ^ 64" by simp
  with ge have "(of_int (2 ^ 63) :: rat) \<le> of_int ((uint lo - uint lo0) mod 2 ^ 64)" by (simp only: of_int_le_iff)
  then show ?thesis unfolding alpha_counter [OF assms(1-3)] by simp
qed

section \<open>\<open>fsecs.c\<close>\<close>

datatype timing_method = USE_FCYC | USE_ITIMER | USE_GETTOD

text \<open>\<open>init_fsecs\<close> returns \<open>Mhz\<close> with the parameters of \<open>fcyc\<close>; its messages are left out.\<close>

definition init_fsecs ::
  "timing_method \<Rightarrow> ('e \<Rightarrow> (32 word \<times> 32 word) \<times> 'e) \<Rightarrow> (int \<Rightarrow> 'e \<Rightarrow> 'e) \<Rightarrow> sampler \<Rightarrow> 'e clk \<Rightarrow> rat \<times> sampler \<times> 'e clk" where
  "init_fsecs m rdtsc sleep f c = (case m of
     USE_FCYC \<Rightarrow>
       (let f = set_fcyc_maxsamples 20 f;
            f = set_fcyc_clear_cache True f;
            f = set_fcyc_compensate True f;
            f = set_fcyc_epsilon (1 / 100) f;
            f = set_fcyc_k 3 f;
            (Mhz, c) = mhz rdtsc sleep c
        in (Mhz, f, c))
   | USE_ITIMER \<Rightarrow> (0, f, c)
   | USE_GETTOD \<Rightarrow> (0, f, c))"

text \<open>\<open>run\<close> is a call of the timed function; the timers that do not use the cycle counter leave its variables alone.\<close>

definition fsecs ::
  "timing_method \<Rightarrow> rat \<Rightarrow> bool \<Rightarrow> (addr \<times> (nat \<Rightarrow> cint)) option \<Rightarrow> ('e \<Rightarrow> (32 word \<times> 32 word) \<times> 'e) \<Rightarrow> ('e \<Rightarrow> int \<times> 'e)
   \<Rightarrow> (itimer \<Rightarrow> int \<times> int \<Rightarrow> 'e \<Rightarrow> 'e) \<Rightarrow> (itimer \<Rightarrow> 'e \<Rightarrow> (int \<times> int) \<times> 'e) \<Rightarrow> ('e \<Rightarrow> (int \<times> int) \<times> 'e)
   \<Rightarrow> ('e \<Rightarrow> 'e) \<Rightarrow> sampler \<Rightarrow> 'e clk \<Rightarrow> (nat + rat \<times> sampler \<times> 'e clk) option" where
  "fsecs m Mhz mem junk rdtsc utime setitimer getitimer gettimeofday run f c = (case m of
     USE_FCYC \<Rightarrow> do {
       r \<leftarrow> fcyc mem junk rdtsc utime run f c;
       (case r of Inl code \<Rightarrow> Some (Inl code)
        | Inr (cycles, f, c) \<Rightarrow> if Mhz = 0 then None else Some (Inr (cycles / (Mhz * 1000000), f, c))) }
   | USE_ITIMER \<Rightarrow> (let (t, e) = ftimer_itimer setitimer getitimer run 10 (env c) in Some (Inr (t, f, c\<lparr>env := e\<rparr>)))
   | USE_GETTOD \<Rightarrow> (let (t, e) = ftimer_gettod gettimeofday run 10 (env c) in Some (Inr (t, f, c\<lparr>env := e\<rparr>))))"

text \<open>The cycle counter as \<open>init_fsecs\<close> sets it up.\<close>

lemma fsecs_cycles:
  assumes i: "init_fsecs USE_FCYC rdtsc sleep sampler_init c0 = (Mhz, f, c)" and z: "Mhz \<noteq> 0" "junk \<noteq> None"
    and cal: "calibrated rdtsc utime c"
  shows "\<exists>m ms f' c'. fsecs USE_FCYC Mhz True junk rdtsc utime setitimer getitimer gettimeofday run f c
      = Some (Inr (Min (set ms) / (Mhz * 1000000), f', c'))
    \<and> measurements (comp_cycles_of rdtsc utime run) m c = Some ms \<and> 0 < m \<and> m \<le> 20 \<and> params f' = params f"
proof -
  have f: "f = sampler_init\<lparr>maxsamples := 20, clear_cache := True, compensate := True, epsilon := 1 / 100, kbest := 3\<rparr>"
    using i by (simp add: init_fsecs_def Let_def set_fcyc_maxsamples_def set_fcyc_clear_cache_def set_fcyc_compensate_def
        set_fcyc_epsilon_def set_fcyc_k_def split: prod.splits)
  obtain p ws where j: "junk = Some (p, ws)" using z(2) by auto
  have "unat (131072 :: addr) = 131072" "unat (8 :: addr) = 8" by simp_all
  moreover have "(524288 :: addr) div 4 = 131072" "(32 :: addr) div 4 = 8" by simp_all
  ultimately have k: "0 < kbest f" "kbest f < 2 ^ 29" "clearable junk f" "compensate f" "maxsamples f = 20"
    by (simp_all add: f j sampler_init_def clearable_def cache_buffer_def cache_words_def walkable_def)
  from fcyc_ok [OF k(1-3) refl cal, of run] obtain m ms f' c' where
    "fcyc True junk rdtsc utime run f c = Some (Inr (Min (set ms), f', c'))"
    "measurements (comp_cycles_of rdtsc utime run) m c = Some ms" "0 < m" "m \<le> 20" "params f' = params f"
    by (auto simp: k(4,5))
  then show ?thesis
    by (intro exI [of _ m] exI [of _ ms] exI [of _ f'] exI [of _ c']) (simp add: fsecs_def z(1))
qed

section \<open>A clock on which the calibration ends\<close>

text \<open>A cycle counter that goes up by 10000 and a process clock that goes up by 1 whenever either is read.\<close>

definition tick_rdtsc :: "nat \<Rightarrow> (32 word \<times> 32 word) \<times> nat" where
  "tick_rdtsc n = ((0, of_nat (10000 * n)), Suc n)"

definition tick_utime :: "nat \<Rightarrow> int \<times> nat" where
  "tick_utime n = (int n, Suc n)"

definition tick_clk :: "rat \<Rightarrow> nat \<Rightarrow> nat \<Rightarrow> nat clk" where
  "tick_clk r a n = \<lparr>cyc_hi = 0, cyc_lo = of_nat (10000 * a), cyc_per_tick = r, start_tick = 0, env = n\<rparr>"

lemma tick_env: "env (tick_clk r a n) = n"
  by (simp add: tick_clk_def)

lemma tick_elapsed:
  assumes "a \<le> n" "n < 400000"
  shows "elapsed 0 (of_nat (10000 * a)) 0 (of_nat (10000 * n)) = of_nat (10000 * (n - a))"
proof -
  have u: "uint (of_nat (10000 * k) :: 32 word) = int (10000 * k)" if "k < 400000" for k
    unfolding uint_nat using that by (simp add: unat_of_nat32 del: of_nat_mult)
  have "(int (10000 * n) - int (10000 * a)) mod 2 ^ 64 = int (10000 * (n - a))"
    using assms by (subst mod_pos_pos_trivial) (simp_all add: of_nat_diff right_diff_distrib)
  with u [of n] u [of a] assms show ?thesis by (simp add: elapsed_eq)
qed

lemma tick_get: "a \<le> n \<Longrightarrow> n < 400000
  \<Longrightarrow> get_counter tick_rdtsc (tick_clk r a n) = (of_nat (10000 * (n - a)), tick_clk r a (Suc n))"
  using tick_elapsed [of a n] by (simp add: get_counter_def tick_rdtsc_def tick_clk_def del: of_nat_mult)

lemma tick_start: "start_counter tick_rdtsc (tick_clk r a n) = tick_clk r n (Suc n)"
  by (simp add: start_counter_def tick_rdtsc_def tick_clk_def)

text \<open>From the second round on every round of the calibration is an event of 20000 cycles in two ticks.\<close>

lemma tick_step:
  assumes "a \<le> n" "Suc (Suc n) < 400000" "r = 0 \<or> r = 10000"
  shows "callibrate_step tick_rdtsc tick_utime (e, of_nat (10000 * (n - a)), int (Suc n), tick_clk r a (Suc (Suc n)))
    = (Suc e, of_nat (10000 * (Suc (Suc n) - a)), int (Suc (Suc (Suc n))), tick_clk 10000 a (Suc (Suc (Suc (Suc n)))))"
proof -
  have g: "get_counter tick_rdtsc (tick_clk r a (Suc (Suc n))) = (of_nat (10000 * (Suc (Suc n) - a)), tick_clk r a (Suc (Suc (Suc n))))"
    using assms by (intro tick_get) simp_all
  have d: "(of_nat (10000 * (Suc (Suc n) - a)) :: rat) - of_nat (10000 * (n - a)) = 20000"
    using assms(1) by (simp add: Suc_diff_le)
  have u: "tick_utime (env (tick_clk r a (Suc (Suc (Suc n))))) = (int (Suc (Suc (Suc n))), Suc (Suc (Suc (Suc n))))"
    by (simp add: tick_utime_def tick_clk_def)
  show ?thesis
    unfolding callibrate_step_def prod.case g u d Let_def
    using assms(3) by (auto simp: THRESHOLD_def RECORDTHRESH_def tick_clk_def)
qed

lemma tick_steps:
  assumes "a \<le> n" "n + 2 * k < 399000" "r = 0 \<or> r = 10000"
  shows "(callibrate_step tick_rdtsc tick_utime ^^ Suc k) (e, of_nat (10000 * (n - a)), int (Suc n), tick_clk r a (Suc (Suc n)))
    = (Suc e + k, of_nat (10000 * (n + 2 * Suc k - a)), int (n + 2 * Suc k + 1), tick_clk 10000 a (n + 2 * Suc k + 2))"
  using assms(2)
proof (induction k)
  case 0
  then show ?case using tick_step [OF assms(1) _ assms(3)] by simp
next
  case (Suc k)
  have "(callibrate_step tick_rdtsc tick_utime ^^ Suc (Suc k)) (e, of_nat (10000 * (n - a)), int (Suc n), tick_clk r a (Suc (Suc n)))
    = callibrate_step tick_rdtsc tick_utime (Suc e + k, of_nat (10000 * (n + 2 * Suc k - a)), int (Suc (n + 2 * Suc k)),
        tick_clk 10000 a (Suc (Suc (n + 2 * Suc k))))"
    using Suc by (simp del: of_nat_Suc of_nat_mult of_nat_add of_nat_diff)
  also have "\<dots> = (Suc e + Suc k, of_nat (10000 * (n + 2 * Suc (Suc k) - a)), int (n + 2 * Suc (Suc k) + 1),
      tick_clk 10000 a (n + 2 * Suc (Suc k) + 2))"
    using tick_step [of a "n + 2 * Suc k" 10000 "Suc e + k"] Suc.prems assms(1)
    by (simp del: of_nat_Suc of_nat_mult of_nat_add of_nat_diff)
  finally show ?case .
qed

lemma tick_calibrated:
  assumes "n < 390000"
  shows "calibrated tick_rdtsc tick_utime (tick_clk 0 a n)"
proof -
  let ?step = "callibrate_step tick_rdtsc tick_utime" and ?a = "Suc n" and ?m = "Suc (Suc (Suc n))"
  let ?st = "(0 :: nat, 10000 :: rat, int n, tick_clk 0 ?a ?m)"
  let ?st1 = "(1 :: nat, of_nat (10000 * (?m - ?a)) :: rat, int (Suc ?m), tick_clk 0 ?a (Suc (Suc ?m)))"
  have c: "(tick_clk 0 a n)\<lparr>env := Suc n\<rparr> = tick_clk 0 a (Suc n)" by (simp add: tick_clk_def)
  have "get_counter tick_rdtsc (tick_clk 0 ?a (Suc (Suc n))) = (10000, tick_clk 0 ?a ?m)"
    using tick_get [of ?a "Suc (Suc n)" 0] assms by simp
  then have 0: "callibrate tick_rdtsc tick_utime (tick_clk 0 a n) = callibrate_loop tick_rdtsc tick_utime ?st"
    by (simp add: callibrate_def Let_def tick_utime_def c tick_start tick_env)
  have g: "get_counter tick_rdtsc (tick_clk 0 ?a ?m) = (20000, tick_clk 0 ?a (Suc ?m))"
    using tick_get [of ?a ?m 0] assms by simp
  have "?step ?st = ?st1"
    unfolding callibrate_step_def prod.case g Let_def
    by (simp add: tick_utime_def THRESHOLD_def RECORDTHRESH_def tick_clk_def)
  then have 1: "callibrate_loop tick_rdtsc tick_utime ?st = callibrate_loop tick_rdtsc tick_utime ?st1"
    by (subst callibrate_loop.simps) (simp add: NEVENT_def)
  note S = tick_steps [of ?a ?m _ 0 1]
  have "NEVENT \<le> fst ((?step ^^ Suc 98) ?st1)" using assms by (subst S) (simp_all add: NEVENT_def)
  from callibrate_loop_ends [OF this] obtain j where j: "j \<le> Suc 98" "NEVENT \<le> fst ((?step ^^ j) ?st1)"
    "callibrate_loop tick_rdtsc tick_utime ?st1 = Some (snd (snd (snd ((?step ^^ j) ?st1))))" by blast
  from j(2) obtain i where i: "j = Suc i" by (cases j) (simp_all add: NEVENT_def)
  have "cyc_per_tick (snd (snd (snd ((?step ^^ j) ?st1)))) = 10000"
    unfolding i using assms j(1) i by (subst S) (simp_all add: tick_clk_def)
  with 0 1 j(3) show ?thesis by (simp add: calibrated_def del: funpow.simps)
qed

end
