(* ===== verification/Memlib_Facts.thy ===== *)
theory Memlib_Facts
  imports Boundary_Tags
begin

text \<open>
  What \<open>mem_sbrk\<close> does within the address space, and what its check lets through beyond it.
\<close>


section \<open>mem_sbrk\<close>

lemma mem_sbrk_cases:
  assumes "geom s" "unat (mem_brk s) + unat incr < 2 ^ 32"
  shows "mem_sbrk s incr =
    (if 0 \<le> sint incr \<and> unat (mem_brk s) + unat incr \<le> unat (mem_start_brk s) + MAX_HEAP
     then (mem_brk s, s\<lparr>mem_brk := mem_brk s + incr\<rparr>) else (- 1, s))"
proof -
  have "unat (mem_brk s + incr) = unat (mem_brk s) + unat incr"
    using unat_add_of_nat32 [of "mem_brk s" "unat incr"] assms(2) by simp
  then have "mem_brk s + incr > mem_max_addr s
      \<longleftrightarrow> \<not> unat (mem_brk s) + unat incr \<le> unat (mem_start_brk s) + MAX_HEAP"
    using unat_max_addr [OF assms(1)] by (simp add: word_less_nat_alt not_le)
  then show ?thesis by (auto simp: mem_sbrk_def Let_def)
qed

lemma mem_sbrk_geom:
  assumes "geom s" "unat (mem_brk s) + unat incr < 2 ^ 32" "mem_sbrk s incr = (p, s')"
  shows "geom s'" "mem_brk s \<le> mem_brk s'" "same_storage s s'"
proof -
  have g: "geom s'" "mem_brk s \<le> mem_brk s'" "same_storage s s'" if "s' = s"
    using that assms(1) by simp_all
  have h: "geom s'" "mem_brk s \<le> mem_brk s'" "same_storage s s'"
    if "unat (mem_brk s) + unat incr \<le> unat (mem_start_brk s) + MAX_HEAP" "s' = s\<lparr>mem_brk := mem_brk s + incr\<rparr>"
  proof -
    have u: "unat (mem_brk s + incr) = unat (mem_brk s) + unat incr"
      using unat_add_of_nat32 [of "mem_brk s" "unat incr"] assms(2) by simp
    then show "geom s'" "mem_brk s \<le> mem_brk s'"
      using that assms(1) unat_max_addr [OF assms(1)]
      by (auto simp: geom_def word_le_nat_alt)
    show "same_storage s s'" by (simp add: that(2) same_storage_def)
  qed
  show "geom s'" "mem_brk s \<le> mem_brk s'" "same_storage s s'"
    using g h mem_sbrk_cases [OF assms(1,2)] assms(3) by (auto split: if_splits)
qed

text \<open>The check adds first and compares afterwards, so a sum that wraps round passes it.\<close>

lemma mem_sbrk_wraps_below:
  assumes g: "geom s" and i: "0 \<le> sint incr" and w: "2 ^ 32 \<le> unat (mem_brk s) + unat incr"
  shows "\<exists>s'. mem_sbrk s incr = (mem_brk s, s') \<and> mem_brk s' < mem_start_brk s'"
proof -
  have inc: "unat incr < 2 ^ 31" using sint_nonneg [OF i] sint_less [of incr] by (simp del: of_nat_unat)
  have "unat (mem_brk s + incr) = unat (mem_brk s) + unat incr - 2 ^ 32"
    using w unat_lt32 [of "mem_brk s"] unat_lt32 [of incr]
    by (simp add: unat_word_ariths mod_if)
  moreover have "unat (mem_brk s) \<le> unat (mem_start_brk s) + MAX_HEAP" "mem_start_brk s \<le> mem_max_addr s"
    using geom_brk_le [OF g] unat_max_addr [OF g] by (simp_all add: word_le_nat_alt)
  ultimately have "unat (mem_brk s + incr) < unat (mem_start_brk s)"
    using inc w by (simp add: MAX_HEAP_def)
  then have "mem_brk s + incr < mem_start_brk s" by (simp add: word_less_nat_alt)
  moreover from this have "\<not> mem_brk s + incr > mem_max_addr s"
    using \<open>mem_start_brk s \<le> mem_max_addr s\<close> by (simp add: not_less)
  ultimately show ?thesis using i by (simp add: mem_sbrk_def Let_def)
qed

end
