(* ===== verification/Free_Store.thy ===== *)
theory Free_Store
  imports Malloc_Interface
begin

text \<open>
  What the list allocators share. A free store keeps some of the free blocks in a list of its own (a ring, a
  chain, twenty sorted chains, or nothing at all); \<open>free_list\<close> is the contract of its two list operations,
  \<open>list_allocator\<close> that of the routines built on them, and \<open>list_package\<close> that of the four entry points. The
  correctness of coalescing, heap growth, allocation and release is proved here once, for every allocator that
  keeps these contracts.
\<close>

section \<open>The steps of the shared routines\<close>

text \<open>The two tags of a block of \<open>m\<close> words at \<open>i\<close> are written, in either order.\<close>

definition retagged :: "'a mem_scheme \<Rightarrow> nat \<Rightarrow> nat \<Rightarrow> 'a mem_scheme \<Rightarrow> bool" where
  "retagged s i m t \<longleftrightarrow>
     t = put_word (put_word s (i - 1) (hdr m False)) (i + m - 2) (hdr m False)
     \<or> t = put_word (put_word s (i + m - 2) (hdr m False)) (i - 1) (hdr m False)"

definition tag_split :: "'a mem_scheme \<Rightarrow> nat \<Rightarrow> nat \<Rightarrow> nat \<Rightarrow> 'a mem_scheme" where
  "tag_split s j m n =
     put_word (put_word (put_word (put_word s (j - 1) (hdr m True)) (j + m - 2) (hdr m True))
       (j + m - 1) (hdr (n - m) False)) (j + n - 2) (hdr (n - m) False)"

definition tag_whole :: "'a mem_scheme \<Rightarrow> nat \<Rightarrow> nat \<Rightarrow> 'a mem_scheme" where
  "tag_whole s j n = put_word (put_word s (j - 1) (hdr n True)) (j + n - 2) (hdr n True)"

text \<open>A sequence of blocks leaves the list; \<open>ok\<close> holds after every step.\<close>

primrec unlinks ::
  "('a mem_scheme \<Rightarrow> addr \<Rightarrow> 'a mem_scheme option) \<Rightarrow> ('a mem_scheme \<Rightarrow> bool) \<Rightarrow> nat list
    \<Rightarrow> 'a mem_scheme \<Rightarrow> 'a mem_scheme \<Rightarrow> bool" where
  "unlinks rm ok [] s t \<longleftrightarrow> t = s"
| "unlinks rm ok (p # ps) s t \<longleftrightarrow>
     (\<exists>u. rm s (ptr (mem_start_brk s) p) = Some u \<and> same_storage s u \<and> ok u \<and> unlinks rm ok ps u t)"

text \<open>Which neighbours of the block at \<open>j\<close> are unlinked, and in which order.\<close>

definition neighbours :: "bool \<Rightarrow> bool \<Rightarrow> nat \<Rightarrow> bool \<Rightarrow> nat \<Rightarrow> nat list" where
  "neighbours next_first pa i qa k =
     (let ps = (if pa then [] else [i]); qs = (if qa then [] else [k])
      in if next_first then qs @ ps else ps @ qs)"

lemma set_neighbours: "set (neighbours nf pa i qa k) = (if pa then {} else {i}) \<union> (if qa then {} else {k})"
  by (auto simp: neighbours_def Let_def)

lemma distinct_neighbours: "i \<noteq> k \<Longrightarrow> distinct (neighbours nf pa i qa k)"
  by (auto simp: neighbours_def Let_def)

text \<open>\<open>extend_heap\<close> of \<open>refer.c\<close> and \<open>segregated_list-85.c\<close> tests the low bit.\<close>

lemma even_words_size_AND:
  assumes "even n" "n < 2 ^ 30"
  shows "(if (bsize n div WSIZE) AND 1 \<noteq> 0 then (bsize n div WSIZE + 1) * WSIZE
    else bsize n div WSIZE * WSIZE) = bsize n"
  using even_words_size [OF assms] by (simp add: and_one_eq)

lemma geom_same_frame [simp]:
  "mem_start_brk (tag_split s j m n) = mem_start_brk s" "mem_start_brk (tag_whole s j n) = mem_start_brk s"
  "geom (tag_split s j m n) = geom s" "geom (tag_whole s j n) = geom s"
  "only_heap s (tag_split s' j m n) = only_heap s s'" "only_heap s (tag_whole s' j n) = only_heap s s'"
  by (simp_all add: tag_split_def tag_whole_def)

section \<open>The list of free blocks\<close>

text \<open>
  \<open>pn\<close> words of prologue, blocks from word \<open>j0\<close> on. \<open>listed s bs F\<close>: the blocks \<open>bs\<close> tile the heap and the list
  \<open>F\<close> threads some of the free ones (all of them between two calls). \<open>ins bs p F\<close> is the list with \<open>p\<close> entered,
  \<open>keep P F\<close> the list without the members outside \<open>P\<close>. \<open>frame\<close> is what every operation leaves alone.
\<close>

locale free_list =
  fixes pn j0 :: nat
    and listed :: "'a mem_scheme \<Rightarrow> blk list \<Rightarrow> 'f \<Rightarrow> bool"
    and members :: "'f \<Rightarrow> nat set"
    and ins :: "blk list \<Rightarrow> nat \<Rightarrow> 'f \<Rightarrow> 'f"
    and keep :: "(nat \<Rightarrow> bool) \<Rightarrow> 'f \<Rightarrow> 'f"
    and frame :: "'a mem_scheme \<Rightarrow> 'a mem_scheme \<Rightarrow> bool"
    and add :: "'a mem_scheme \<Rightarrow> addr \<Rightarrow> addr \<Rightarrow> 'a mem_scheme option"
    and remove :: "'a mem_scheme \<Rightarrow> addr \<Rightarrow> 'a mem_scheme option"
  assumes j0: "j0 = pn + 2"
    and listed_heap: "listed s bs F \<Longrightarrow> heap_blocks s pn bs"
    and listed_members: "listed s bs F \<Longrightarrow> members F \<subseteq> set (frees j0 bs)"
    and members_ins: "members (ins bs p F) = insert p (members F)"
    and members_keep: "members (keep P F) = {k \<in> members F. P k}"
    and keep_keep: "keep P (keep Q F) = keep (\<lambda>k. P k \<and> Q k) F"
    and keep_cong: "(\<And>k. k \<in> members F \<Longrightarrow> P k = Q k) \<Longrightarrow> keep P F = keep Q F"
    and keep_all: "keep (\<lambda>k. True) F = F"
    and frame_heap: "only_heap s s' \<Longrightarrow> frame s s'"
    and frame_trans: "frame s s' \<Longrightarrow> frame s' s'' \<Longrightarrow> frame s s''"
    and frame_storage: "frame s s' \<Longrightarrow> same_storage s s'"
    and add_ok: "listed s bs F \<Longrightarrow> p \<in> set (frees j0 bs) \<Longrightarrow> p \<notin> members F
      \<Longrightarrow> \<exists>s'. add s (ptr (mem_start_brk s) p) (bsize (block_words j0 bs p)) = Some s'
        \<and> listed s' bs (ins bs p F) \<and> frame s s'"
    and remove_ok: "listed s bs F \<Longrightarrow> p \<in> members F
      \<Longrightarrow> \<exists>s'. remove s (ptr (mem_start_brk s) p) = Some s' \<and> listed s' bs (keep (\<lambda>k. k \<noteq> p) F) \<and> frame s s'"
    and listed_transfer: "listed s bs F \<Longrightarrow> heap_blocks s' pn bs' \<Longrightarrow> only_heap s s'
      \<Longrightarrow> (\<And>k. k < pn \<Longrightarrow> hw s' k = hw s k)
      \<Longrightarrow> (\<And>k. k \<in> members F \<Longrightarrow> k \<in> set (frees j0 bs') \<and> block_words j0 bs' k = block_words j0 bs k
            \<and> hw s' k = hw s k \<and> hw s' (Suc k) = hw s (Suc k))
      \<Longrightarrow> listed s' bs' F"
begin

lemma frame_bounds:
  "frame s s' \<Longrightarrow> mem_start_brk s' = mem_start_brk s" "frame s s' \<Longrightarrow> mem_max_addr s' = mem_max_addr s"
  by (drule frame_storage, simp add: same_storage_def)+

text \<open>Exchanging a stretch of blocks whose members have left the list.\<close>

lemma listed_replace:
  assumes L: "listed s (xs @ mid @ ys) F" and H: "heap_blocks s' pn (xs @ new @ ys)"
    and s': "only_heap s s'" and i: "i = j0 + twords xs" and m: "twords new = twords mid"
    and out: "\<And>k. Suc k < i \<or> i + twords mid \<le> Suc k \<Longrightarrow> hw s' k = hw s k"
    and F: "members F \<subseteq> set (frees j0 xs) \<union> set (frees (i + twords mid) ys)"
  shows "listed s' (xs @ new @ ys) F"
proof (rule listed_transfer [OF L H s'])
  note D = heap_blocksD [OF listed_heap [OF L]]
  show "hw s' k = hw s k" if "k < pn" for k
    by (rule out) (use that i j0 in simp)
  fix k
  assume "k \<in> members F"
  then have k: "k \<in> set (frees j0 xs) \<or> k \<in> set (frees (i + twords mid) ys)" using F by blast
  then have "k + 4 \<le> i \<or> i + twords mid \<le> k"
    using frees_range_wf [of k j0 xs] frees_range [of k "i + twords mid" ys] D(9) i by auto
  then have "hw s' k = hw s k \<and> hw s' (Suc k) = hw s (Suc k)"
    using out [of k] out [of "Suc k"] by auto
  moreover have "block_words j0 (xs @ new @ ys) k = block_words j0 (xs @ mid @ ys) k"
    by (rule block_words_replace) (use k D(9) heap_blocksD(9) [OF H] i m in auto)
  moreover have "k \<in> set (frees j0 (xs @ new @ ys))" using k i m by (auto simp: add.assoc)
  ultimately show "k \<in> set (frees j0 (xs @ new @ ys))
      \<and> block_words j0 (xs @ new @ ys) k = block_words j0 (xs @ mid @ ys) k
      \<and> hw s' k = hw s k \<and> hw s' (Suc k) = hw s (Suc k)" by simp
qed

text \<open>Unlinking several members.\<close>

lemma unlinks_ok:
  assumes "listed s bs F" "distinct ps" "set ps \<subseteq> members F" "\<And>t G. listed t bs G \<Longrightarrow> ok t"
  shows "\<exists>t. unlinks remove ok ps s t \<and> listed t bs (keep (\<lambda>k. k \<notin> set ps) F) \<and> frame s t"
  using assms
proof (induction ps arbitrary: s F)
  case Nil
  then show ?case by (simp add: keep_all frame_heap)
next
  case (Cons p ps)
  then obtain u where u: "remove s (ptr (mem_start_brk s) p) = Some u"
    "listed u bs (keep (\<lambda>k. k \<noteq> p) F)" "frame s u"
    using remove_ok [of s bs F p] by auto
  have "set ps \<subseteq> members (keep (\<lambda>k. k \<noteq> p) F)" using Cons.prems(2,3) by (auto simp: members_keep)
  with Cons obtain t where t: "unlinks remove ok ps u t"
    "listed t bs (keep (\<lambda>k. k \<notin> set ps) (keep (\<lambda>k. k \<noteq> p) F))" "frame u t"
    using Cons.IH [OF u(2)] by auto
  have "keep (\<lambda>k. k \<notin> set ps) (keep (\<lambda>k. k \<noteq> p) F) = keep (\<lambda>k. k \<notin> set (p # ps)) F"
    unfolding keep_keep by (rule keep_cong) auto
  with t u frame_trans [OF u(3) t(3)] frame_storage [OF u(3)] Cons.prems(4) [OF u(2)] show ?case
    by (intro exI [of _ t]) auto
qed

text \<open>Splitting a block that has left the list, and giving all of it away.\<close>

lemma split_ok:
  assumes L: "listed s (xs @ Free n # ys) F" and j: "j = j0 + twords xs" "j \<notin> members F"
    and m: "even m" "4 \<le> m" "m + 4 \<le> n"
  shows "\<exists>ws. length ws = m - 2 \<and> listed (tag_split s j m n) (xs @ Used ws # Free (n - m) # ys) F
    \<and> j + m \<in> set (frees j0 (xs @ Used ws # Free (n - m) # ys)) \<and> j + m \<notin> members F
    \<and> block_words j0 (xs @ Used ws # Free (n - m) # ys) (j + m) = n - m"
proof -
  let ?t = "tag_split s j m n" and ?ws = "map (hw s) [j..<j + m - 2]"
  have j2: "j = pn + 2 + twords xs" using j j0 by simp
  note H = listed_heap [OF L]
  note D = heap_blocksD [OF H] and V = heap_block_view [OF H j2]
  have H1: "heap_blocks ?t pn (xs @ Used ?ws # Free (n - m) # ys)"
    unfolding tag_split_def by (rule heap_blocks_split [OF H j2 m])
  have F: "members F \<subseteq> set (frees j0 xs) \<union> set (frees (j + n) ys)"
    using listed_members [OF L] j by auto
  have "listed ?t (xs @ [Used ?ws, Free (n - m)] @ ys) F"
  proof (rule listed_replace [of s xs "[Free n]" ys F ?t _ j])
    show "hw ?t k = hw s k" if "Suc k < j \<or> j + twords [Free n] \<le> Suc k" for k
    proof -
      have "k \<noteq> j - 1" "k \<noteq> j + m - 2" "k \<noteq> j + m - 1" "k \<noteq> j + n - 2"
        using that V(6) m by auto
      then show ?thesis using V(6,10) m by (simp add: hw_put_word tag_split_def)
    qed
  qed (use L H1 F j m in auto)
  moreover have "j + m \<notin> members F"
  proof
    assume "j + m \<in> members F"
    with F have "j + m \<in> set (frees j0 xs) \<or> j + m \<in> set (frees (j + n) ys)" by blast
    then show False
      using frees_range [of "j + m" j0 xs] frees_range [of "j + m" "j + n" ys] m j by auto
  qed
  moreover have "block_words j0 ((xs @ [Used ?ws]) @ Free (n - m) # ys) (j0 + twords (xs @ [Used ?ws])) = n - m"
    using heap_blocksD(9) [OF H1] by (subst block_words_middle) auto
  ultimately show ?thesis using m j by (intro exI [of _ ?ws]) (auto simp: add.assoc)
qed

lemma whole_ok:
  assumes L: "listed s (xs @ Free n # ys) F" and j: "j = j0 + twords xs" "j \<notin> members F"
  shows "\<exists>ws. length ws = n - 2 \<and> listed (tag_whole s j n) (xs @ Used ws # ys) F"
proof -
  let ?t = "tag_whole s j n" and ?ws = "map (hw s) [j..<j + n - 2]"
  have j2: "j = pn + 2 + twords xs" using j j0 by simp
  note H = listed_heap [OF L]
  note V = heap_block_view [OF H j2]
  have H1: "heap_blocks ?t pn (xs @ Used ?ws # ys)"
    using heap_blocks_retag_used [OF H j2] by (simp add: tag_whole_def)
  have F: "members F \<subseteq> set (frees j0 xs) \<union> set (frees (j + n) ys)"
    using listed_members [OF L] j by auto
  have "listed ?t (xs @ [Used ?ws] @ ys) F"
  proof (rule listed_replace [of s xs "[Free n]" ys F ?t _ j])
    show "hw ?t k = hw s k" if "Suc k < j \<or> j + twords [Free n] \<le> Suc k" for k
      unfolding tag_whole_def by (rule retag_frame(1)) (use that V in simp_all)
  qed (use L H1 F j V in auto)
  then show ?thesis using V by (intro exI [of _ ?ws]) simp
qed

text \<open>The list after \<open>place\<close>: the block leaves it, a split-off rest enters it.\<close>

lemma remove_place:
  assumes L: "listed s (xs @ Free n # ys) F" and j: "j = j0 + twords xs" "j \<in> members F"
    and m: "even m" "4 \<le> m" "m \<le> n"
  obtains s1 s' ws where "remove s (ptr (mem_start_brk s) j) = Some s1" "frame s s1"
    "(if m + 4 \<le> n then add (tag_split s1 j m n) (ptr (mem_start_brk s) (j + m)) (bsize (n - m))
      else Some (tag_whole s1 j n)) = Some s'"
    "length ws = place_gets n m - 2" "frame s s'"
    "listed s' (xs @ Used ws # place_rest n m @ ys)
      (if m + 4 \<le> n then ins (xs @ Used ws # place_rest n m @ ys) (j + m) (keep (\<lambda>k. k \<noteq> j) F)
       else keep (\<lambda>k. k \<noteq> j) F)"
proof -
  obtain s1 where s1: "remove s (ptr (mem_start_brk s) j) = Some s1"
    "listed s1 (xs @ Free n # ys) (keep (\<lambda>k. k \<noteq> j) F)" "frame s s1"
    using remove_ok [OF L j(2)] by blast
  have nj: "j \<notin> members (keep (\<lambda>k. k \<noteq> j) F)" by (simp add: members_keep)
  show thesis
  proof (cases "m + 4 \<le> n")
    case True
    obtain ws where ws: "length ws = m - 2"
      "listed (tag_split s1 j m n) (xs @ Used ws # Free (n - m) # ys) (keep (\<lambda>k. k \<noteq> j) F)"
      "j + m \<in> set (frees j0 (xs @ Used ws # Free (n - m) # ys))" "j + m \<notin> members (keep (\<lambda>k. k \<noteq> j) F)"
      "block_words j0 (xs @ Used ws # Free (n - m) # ys) (j + m) = n - m"
      using split_ok [OF s1(2) j(1) nj m(1,2) True] by blast
    obtain s' where "add (tag_split s1 j m n) (ptr (mem_start_brk s) (j + m)) (bsize (n - m)) = Some s'"
      "listed s' (xs @ Used ws # Free (n - m) # ys)
        (ins (xs @ Used ws # Free (n - m) # ys) (j + m) (keep (\<lambda>k. k \<noteq> j) F))" "frame (tag_split s1 j m n) s'"
      using add_ok [OF ws(2-4)] ws(5) frame_bounds [OF s1(3)] by auto
    moreover have "frame s1 (tag_split s1 j m n)" by (rule frame_heap) simp
    ultimately show thesis
      using True s1 ws(1) frame_trans [OF s1(3)] frame_trans [of s1 "tag_split s1 j m n" s']
      by (intro that [of s1 s' ws]) (simp_all add: place_gets_def place_rest_def)
  next
    case False
    obtain ws where "length ws = n - 2" "listed (tag_whole s1 j n) (xs @ Used ws # ys) (keep (\<lambda>k. k \<noteq> j) F)"
      using whole_ok [OF s1(2) j(1) nj] by blast
    moreover have "frame s1 (tag_whole s1 j n)" by (rule frame_heap) simp
    ultimately show thesis
      using False s1 frame_trans [OF s1(3)]
      by (intro that [of s1 "tag_whole s1 j n" ws]) (simp_all add: place_gets_def place_rest_def)
  qed
qed

end

section \<open>Coalescing, growing and releasing\<close>

text \<open>
  The routines on top of the list. \<open>next_first\<close>: of two free neighbours the one behind is unlinked first. The laws
  ending in \<open>_code\<close> say what a routine does step by step, the others what it achieves.
\<close>

locale coalescing_list = free_list pn j0 listed members ins keep frame add remove
  for pn j0 :: nat
    and listed :: "'a mem_scheme \<Rightarrow> blk list \<Rightarrow> 'f \<Rightarrow> bool"
    and members :: "'f \<Rightarrow> nat set"
    and ins :: "blk list \<Rightarrow> nat \<Rightarrow> 'f \<Rightarrow> 'f"
    and keep :: "(nat \<Rightarrow> bool) \<Rightarrow> 'f \<Rightarrow> 'f"
    and frame :: "'a mem_scheme \<Rightarrow> 'a mem_scheme \<Rightarrow> bool"
    and add :: "'a mem_scheme \<Rightarrow> addr \<Rightarrow> addr \<Rightarrow> 'a mem_scheme option"
    and remove :: "'a mem_scheme \<Rightarrow> addr \<Rightarrow> 'a mem_scheme option" +
  fixes next_first :: bool
    and coalesce :: "'a mem_scheme \<Rightarrow> addr \<Rightarrow> (addr \<times> 'a mem_scheme) option"
    and extend_heap :: "'a mem_scheme \<Rightarrow> addr \<Rightarrow> (addr \<times> 'a mem_scheme) option"
    and free :: "'a mem_scheme \<Rightarrow> addr \<Rightarrow> 'a mem_scheme option"
  assumes coalesce_code: "nbhd s j p pa n False q qa
      \<Longrightarrow> unlinks remove (\<lambda>u. nbhd u j p pa n False q qa) (neighbours next_first pa (j - p) qa (j + n)) s u
      \<Longrightarrow> i = (if pa then j else j - p) \<Longrightarrow> m = (if pa then 0 else p) + n + (if qa then 0 else q)
      \<Longrightarrow> \<exists>t. (if pa \<and> qa then t = u else retagged u i m t)
        \<and> coalesce s (ptr (mem_start_brk s) j) = do {
            s' \<leftarrow> add t (ptr (mem_start_brk s) i) (bsize m); Some (ptr (mem_start_brk s) i, s') }"
    and extend_code: "even n \<Longrightarrow> n < 2 ^ 30 \<Longrightarrow> extend_heap s (bsize n div WSIZE) =
      (let (bp, s) = mem_sbrk s (bsize n)
       in if bp = - 1 then Some (NULL, s)
          else do {
            s \<leftarrow> PUT s (HDRP bp) (PACK (bsize n) 0);
            f \<leftarrow> FTRP s bp;
            s \<leftarrow> PUT s f (PACK (bsize n) 0);
            nb \<leftarrow> NEXT_BLKP s bp;
            s \<leftarrow> PUT s (HDRP nb) (PACK 0 1);
            coalesce s bp })"
    and free_code: "free s bp = do {
      sz \<leftarrow> GET_SIZE s (HDRP bp);
      s \<leftarrow> PUT s (HDRP bp) (PACK sz 0);
      f \<leftarrow> FTRP s bp;
      s \<leftarrow> PUT s f (PACK sz 0);
      (_, s) \<leftarrow> coalesce s bp;
      Some s }"
begin

lemma coalesce_ok:
  assumes L: "listed s (xs @ Free n # ys) F" and j: "j = j0 + twords xs"
    and F: "members F = set (frees j0 xs) \<union> set (frees (j + n) ys)"
    and c: "coalesced xs n ys = (xs', m, ys')" and i: "i = j0 + twords xs'"
  shows "\<exists>s'. coalesce s (ptr (mem_start_brk s) j) = Some (ptr (mem_start_brk s) i, s') \<and> frame s s'
    \<and> listed s' (xs' @ Free m # ys') (ins (xs' @ Free m # ys') i (keep (\<lambda>k. k < i \<or> i + m \<le> k) F))"
proof -
  let ?b = "mem_start_brk s"
  define p pa q qa where "p = prev_words pn xs" and "pa = prev_used xs" and "q = next_words ys" and "qa = next_used ys"
  define ps qs where "ps = (if pa then [] else [Free p])" and "qs = (if qa then [] else [Free q])"
  have S: "xs = xs' @ ps" "ys = qs @ ys'" "m = (if pa then 0 else p) + n + (if qa then 0 else q)"
    using coalesced_split(1) [OF c, where pn = pn] coalesced_split(2) [OF c]
      coalesced_split(3) [OF c, where pn = pn] by (simp_all only: p_def pa_def q_def qa_def ps_def qs_def)
  let ?mid = "ps @ Free n # qs"
  have bs: "xs @ Free n # ys = xs' @ ?mid @ ys'" using S by simp
  have N: "nbhd t j p pa n False q qa" if "listed t (xs @ Free n # ys) G" for t G
    using nbhd_heap_blocks [OF listed_heap [OF that]] j j0 by (simp add: p_def pa_def q_def qa_def)
  note H = listed_heap [OF L]
  note D = heap_blocksD [OF H] and NB = nbhdD [OF N [OF L]]
  have w: "\<forall>c \<in> set xs'. wf_blk c" "\<forall>c \<in> set ?mid. wf_blk c" using D(9) unfolding bs by auto
  have p4: "\<not> pa \<Longrightarrow> 4 \<le> p" "\<not> qa \<Longrightarrow> 4 \<le> q" using w by (auto simp: ps_def qs_def)
  have ij: "i = (if pa then j else j - p)" using i j S(1) by (auto simp: ps_def)
  have jp: "\<not> pa \<Longrightarrow> j = i + p" using i j S(1) by (auto simp: ps_def)
  have tm: "twords ?mid = m" using S(3) by (auto simp: ps_def qs_def)
  have m: "even m" "4 \<le> m" using S(3) NB(3,4,5,8) by simp_all
  define N2 where "N2 = neighbours next_first pa (j - p) qa (j + n)"
  have F': "members F = set (frees j0 xs') \<union> set N2 \<union> set (frees (i + m) ys')"
    using F S i j NB(6-8) jp
    by (auto simp: ps_def qs_def N2_def set_neighbours ij add.assoc add.commute add.left_commute)
  have d: "distinct N2" unfolding N2_def using NB(6-8) by (intro distinct_neighbours) simp
  obtain u where u: "unlinks remove (\<lambda>u. nbhd u j p pa n False q qa) N2 s u" "frame s u"
    "listed u (xs @ Free n # ys) (keep (\<lambda>k. k \<notin> set N2) F)"
    using unlinks_ok [OF L d, of "\<lambda>u. nbhd u j p pa n False q qa"] N F' by blast
  have "i \<le> k \<and> k < i + m" if "k \<in> set N2" for k
    using that NB(6-8) jp ij S(3) p4 by (auto simp: N2_def set_neighbours split: if_splits)
  moreover have "k + 4 \<le> i" if "k \<in> set (frees j0 xs')" for k
    using frees_range_wf [OF that w(1)] i by simp
  moreover have "i + m \<le> k" if "k \<in> set (frees (i + m) ys')" for k
    using frees_range [OF that] by simp
  ultimately have o: "keep (\<lambda>k. k \<notin> set N2) F = keep (\<lambda>k. k < i \<or> i + m \<le> k) F"
    unfolding F' by (intro keep_cong) (unfold F', fastforce)
  let ?G = "keep (\<lambda>k. k < i \<or> i + m \<le> k) F"
  have bu: "mem_start_brk u = ?b" using frame_bounds [OF u(2)] by simp
  obtain t where t: "if pa \<and> qa then t = u else retagged u i m t"
    "coalesce s (ptr ?b j) = do { s' \<leftarrow> add t (ptr ?b i) (bsize m); Some (ptr ?b i, s') }"
    using coalesce_code [OF N [OF L] u(1) [unfolded N2_def] ij S(3)] by blast
  have Lt: "listed t (xs' @ Free m # ys') ?G \<and> only_heap u t \<and> mem_start_brk t = ?b"
  proof (cases "pa \<and> qa")
    case True
    then show ?thesis using t(1) u(3) o bu S by (simp add: ps_def qs_def)
  next
    case False
    then have r: "retagged u i m t" using t(1) by simp
    have Lu: "listed u (xs' @ ?mid @ ys') ?G" using u(3) unfolding bs o .
    have i2: "i = pn + 2 + twords xs'" using i j0 by simp
    have "heap_blocks t pn (xs' @ Free m # ys')"
      using r heap_blocks_retag_free [OF listed_heap [OF Lu] i2 tm m] by (auto simp: retagged_def)
    then have Ht: "heap_blocks t pn (xs' @ [Free m] @ ys')" by simp
    have ou: "only_heap u t" using r by (auto simp: retagged_def)
    have "listed t (xs' @ [Free m] @ ys') ?G"
    proof (rule listed_replace [OF Lu Ht ou i])
      have "i + m \<le> HEAPW" "2 \<le> i"
        using heap_blocksD(10) [OF Ht] heap_blocksD(3) [OF Ht] i2 by simp_all
      then show "hw t k = hw u k" if "Suc k < i \<or> i + twords ?mid \<le> Suc k" for k
        using r that retag_frame [of i m k u] m(2) unfolding tm by (auto simp: retagged_def)
      show "members ?G \<subseteq> set (frees j0 xs') \<union> set (frees (i + twords ?mid) ys')"
        using F' o tm by (auto simp: members_keep simp flip: o)
    qed (use tm in simp)
    then show ?thesis using ou only_heap_bounds [OF ou] bu by simp
  qed
  have "i \<notin> members ?G" using m by (simp add: members_keep)
  moreover have "i \<in> set (frees j0 (xs' @ Free m # ys'))" using i by simp
  moreover have "block_words j0 (xs' @ Free m # ys') i = m"
    unfolding i using w(1) by (subst block_words_middle) simp_all
  ultimately obtain s' where s': "add t (ptr ?b i) (bsize m) = Some s'" "frame t s'"
    "listed s' (xs' @ Free m # ys') (ins (xs' @ Free m # ys') i ?G)"
    using add_ok [of t "xs' @ Free m # ys'" ?G i] Lt by auto
  have "frame s s'"
    using frame_trans [OF u(2)] frame_trans [OF frame_heap s'(2)] Lt by blast
  with t(2) s' show ?thesis by simp
qed

text \<open>After the merge the list is complete again.\<close>

lemma members_coalesced:
  assumes L: "listed s (xs' @ Free m # ys') (ins (xs' @ Free m # ys') i (keep (\<lambda>k. k < i \<or> i + m \<le> k) F))"
    and i: "i = j0 + twords xs'"
    and c: "coalesced xs n ys = (xs', m, ys')" 
    and F: "members F = set (frees j0 xs) \<union> set (frees (j0 + twords xs + n) ys)"
  shows "members (ins (xs' @ Free m # ys') i (keep (\<lambda>k. k < i \<or> i + m \<le> k) F)) = set (frees j0 (xs' @ Free m # ys'))"
proof -
  obtain ps qs where S: "xs = xs' @ ps" "ys = qs @ ys'" "m = twords ps + n + twords qs"
    using coalesced_split(1,3) [OF c, where pn = pn] coalesced_split(2) [OF c] by (auto split: if_splits)
  have w: "\<forall>b \<in> set xs'. wf_blk b" using heap_blocksD(9) [OF listed_heap [OF L]] by auto
  have "set (frees (i + m) ys') \<subseteq> members F"
    unfolding F by (auto simp: S i ac_simps)
  moreover have "set (frees j0 xs') \<subseteq> members F"
    unfolding F by (auto simp: S)
  moreover have "k < i" if "k \<in> set (frees j0 xs')" for k
    using frees_range_wf [OF that w] i by simp
  moreover have "i + m \<le> k" if "k \<in> set (frees (i + m) ys')" for k
    using frees_range [OF that] by simp
  ultimately have "set (frees j0 (xs' @ Free m # ys'))
      \<subseteq> members (ins (xs' @ Free m # ys') i (keep (\<lambda>k. k < i \<or> i + m \<le> k) F))"
    using i by (auto simp: members_ins members_keep)
  with listed_members [OF L] show ?thesis by blast
qed

lemma extend_ok:
  assumes I: "listed s bs F" "members F = set (frees j0 bs)"
    and e: "e = j0 + twords bs" and n: "even n" "4 \<le> n" "n < 2 ^ 30"
    and w: "unat (mem_max_addr s) + 4 * n < 2 ^ 32" and c: "coalesced bs n [] = (xs', m, ys')"
    and i: "i = j0 + twords xs'"
  shows "e + n \<le> HEAPW \<Longrightarrow> \<exists>s'. extend_heap s (bsize n div WSIZE) = Some (ptr (mem_start_brk s) i, s') \<and> frame s s'
      \<and> listed s' (xs' @ Free m # ys') (ins (xs' @ Free m # ys') i (keep (\<lambda>k. k < i \<or> i + m \<le> k) F))"
    and "\<not> e + n \<le> HEAPW \<Longrightarrow> extend_heap s (bsize n div WSIZE) = Some (NULL, s)"
proof -
  note H = listed_heap [OF I(1)]
  note D = heap_blocksD [OF H]
  have e4: "e = pn + 2 + twords bs" using e j0 by simp
  have sbrk: "mem_sbrk s (bsize n) = (if e + n \<le> HEAPW
      then (ptr (mem_start_brk s) e, s\<lparr>mem_brk := ptr (mem_start_brk s) (e + n)\<rparr>) else (- 1, s))"
    using D(8,10) e4 n w by (intro mem_sbrk_ptr [OF D(1)]) simp_all
  show "extend_heap s (bsize n div WSIZE) = Some (NULL, s)" if "\<not> e + n \<le> HEAPW"
    using that unfolding extend_code [OF n(1,3)] sbrk by simp
  assume le: "e + n \<le> HEAPW"
  let ?s1 = "put_word (put_word (put_word (s\<lparr>mem_brk := ptr (mem_start_brk s) (e + n)\<rparr>)
    (e - 1) (hdr n False)) (e + n - 2) (hdr n False)) (e + n - 1) (hdr 0 True)"
  have H1: "heap_blocks ?s1 pn (bs @ Free n # [])"
    using heap_blocks_extend [OF H e4 n(1,2)] le by simp
  have hws: "hw ?s1 k = hw s k" if "Suc k < e" for k
  proof -
    have "k \<noteq> e - 1" "k \<noteq> e + n - 2" "k \<noteq> e + n - 1" using that n by linarith+
    then show ?thesis using n le by (simp add: hw_put_word)
  qed
  have L1: "listed ?s1 (bs @ Free n # []) F"
  proof (rule listed_transfer [OF I(1) H1])
    show "hw ?s1 k = hw s k" if "k < pn" for k
      by (rule hws) (use that e4 in simp)
    fix k
    assume "k \<in> members F"
    then have k: "k \<in> set (frees j0 bs)" using I(2) by simp
    then have "Suc (Suc k) < e" using frees_range_wf [OF k D(9)] e by linarith
    moreover have "block_words j0 (bs @ [Free n]) k = block_words j0 bs k"
    proof -
      obtain us l vs where "bs = us @ Free l # vs" "k = j0 + twords us" using frees_split [OF k] by blast
      then show ?thesis
        using block_words_middle [of us j0 "Free l" vs] block_words_middle [of us j0 "Free l" "vs @ [Free n]"] D(9)
        by simp
    qed
    ultimately show "k \<in> set (frees j0 (bs @ [Free n])) \<and> block_words j0 (bs @ [Free n]) k = block_words j0 bs k
        \<and> hw ?s1 k = hw s k \<and> hw ?s1 (Suc k) = hw s (Suc k)"
      using k hws by simp
  qed simp
  have ex: "extend_heap s (bsize n div WSIZE) = coalesce ?s1 (ptr (mem_start_brk s) e)"
    unfolding extend_code [OF n(1,3)] Let_def sbrk
    using le geom_brk [OF D(1) le] n e4 ptr_not_m1 [OF D(1), of e]
    by (simp add: blk_macros ptr_simps heap_exec)
  have "members F = set (frees j0 bs) \<union> set (frees (e + n) [])" using I(2) by simp
  from coalesce_ok [OF L1 e this c i] obtain s' where s': "coalesce ?s1 (ptr (mem_start_brk s) e)
      = Some (ptr (mem_start_brk s) i, s')" "frame ?s1 s'"
    "listed s' (xs' @ Free m # ys') (ins (xs' @ Free m # ys') i (keep (\<lambda>k. k < i \<or> i + m \<le> k) F))"
    by auto
  have "frame s s'" by (rule frame_trans [OF frame_heap s'(2)]) simp
  with ex s' show "\<exists>s'. extend_heap s (bsize n div WSIZE) = Some (ptr (mem_start_brk s) i, s') \<and> frame s s'
      \<and> listed s' (xs' @ Free m # ys') (ins (xs' @ Free m # ys') i (keep (\<lambda>k. k < i \<or> i + m \<le> k) F))"
    by auto
qed

text \<open>The first block of a new heap.\<close>

lemma extend_first:
  assumes I: "listed s [] F" "members F = {}" and w: "unat (mem_max_addr s) + 4096 < 2 ^ 32" and j: "j0 + 1024 \<le> HEAPW"
  shows "\<exists>s'. extend_heap s (bsize 1024 div WSIZE) = Some (ptr (mem_start_brk s) j0, s') \<and> frame s s'
    \<and> listed s' [Free 1024] (ins [Free 1024] j0 F) \<and> members (ins [Free 1024] j0 F) = {j0}" "ptr (mem_start_brk s) j0 \<noteq> NULL"
proof -
  have c: "coalesced [] 1024 [] = ([], 1024, [])"
    by (simp add: coalesced_simps prev_used_def next_used_def)
  have k: "keep (\<lambda>k. k < j0 \<or> j0 + 1024 \<le> k) F = F"
    using keep_cong [of F "\<lambda>k. k < j0 \<or> j0 + 1024 \<le> k" "\<lambda>k. True"] I(2) by (simp add: keep_all)
  have "j0 + twords [] + 1024 \<le> HEAPW" using j by simp
  from extend_ok(1) [OF I(1) _ refl _ _ _ _ c refl this] I(2) w k obtain s' where
    s': "extend_heap s (bsize 1024 div WSIZE) = Some (ptr (mem_start_brk s) j0, s')" "frame s s'"
    "listed s' [Free 1024] (ins [Free 1024] j0 F)" by auto
  moreover have "members (ins [Free 1024] j0 F) = {j0}"
    using I(2) by (simp add: members_ins)
  ultimately show "\<exists>s'. extend_heap s (bsize 1024 div WSIZE) = Some (ptr (mem_start_brk s) j0, s') \<and> frame s s'
    \<and> listed s' [Free 1024] (ins [Free 1024] j0 F) \<and> members (ins [Free 1024] j0 F) = {j0}" by blast
  show "ptr (mem_start_brk s) j0 \<noteq> NULL"
    using j by (intro ptr_not_NULL heap_blocksD(1) [OF listed_heap [OF I(1)]]) simp
qed

lemma free_merges:
  assumes I: "listed s (xs @ Used ws # ys) F" "members F = set (frees j0 (xs @ Used ws # ys))" and j: "j = j0 + twords xs"
    and c: "coalesced xs (length ws + 2) ys = (xs', m, ys')" and i: "i = j0 + twords xs'"
  shows "\<exists>s'. free s (ptr (mem_start_brk s) j) = Some s' \<and> frame s s'
    \<and> listed s' (xs' @ Free m # ys') (ins (xs' @ Free m # ys') i (keep (\<lambda>k. k < i \<or> i + m \<le> k) F))
    \<and> members (ins (xs' @ Free m # ys') i (keep (\<lambda>k. k < i \<or> i + m \<le> k) F)) = set (frees j0 (xs' @ Free m # ys'))"
proof -
  note H = listed_heap [OF I(1)]
  have j2: "j = pn + 2 + twords xs" using j j0 by simp
  note D = heap_blocksD [OF H] and V = heap_block_view [OF H j2]
  let ?n = "length ws + 2"
  let ?s1 = "put_word (put_word s (j - 1) (hdr ?n False)) (j + ?n - 2) (hdr ?n False)"
  have L: "listed s (xs @ [Used ws] @ ys) F" using I(1) by simp
  have H1: "heap_blocks ?s1 pn (xs @ [Free ?n] @ ys)"
    using heap_blocks_retag_free(1) [OF listed_heap [OF L] j2, of ?n] V by simp
  have F: "members F = set (frees j0 xs) \<union> set (frees (j + ?n) ys)" using I(2) j by simp
  have "listed ?s1 (xs @ [Free ?n] @ ys) F"
  proof (rule listed_replace [OF L H1])
    show "hw ?s1 k = hw s k" if "Suc k < j \<or> j + twords [Used ws] \<le> Suc k" for k
      by (rule retag_frame(1)) (use that V(6,9,10) in simp_all)
  qed (use F j in simp_all)
  then have L1: "listed ?s1 (xs @ Free ?n # ys) F" by simp
  have "free s (ptr (mem_start_brk s) j) = do {
      (_, s) \<leftarrow> coalesce ?s1 (ptr (mem_start_brk s) j); Some s }"
    using D(1) V(1,6,8,10) by (simp add: free_code blk_macros ptr_simps heap_exec)
  moreover obtain s' where s': "coalesce ?s1 (ptr (mem_start_brk s) j) = Some (ptr (mem_start_brk s) i, s')"
    "frame ?s1 s'" "listed s' (xs' @ Free m # ys') (ins (xs' @ Free m # ys') i (keep (\<lambda>k. k < i \<or> i + m \<le> k) F))"
    using coalesce_ok [OF L1 j F c i] by auto
  moreover have "frame s s'" by (rule frame_trans [OF frame_heap s'(2)]) simp
  ultimately show ?thesis using members_coalesced [OF s'(3) i c] F j by simp
qed

end

section \<open>Allocating\<close>

text \<open>\<open>search\<close> is the search of \<open>find_fit\<close> on the abstract list.\<close>

locale list_allocator = coalescing_list pn j0 listed members ins keep frame add remove
    next_first coalesce extend_heap free
  for pn j0 :: nat
    and listed :: "'a mem_scheme \<Rightarrow> blk list \<Rightarrow> 'f \<Rightarrow> bool"
    and members :: "'f \<Rightarrow> nat set"
    and ins :: "blk list \<Rightarrow> nat \<Rightarrow> 'f \<Rightarrow> 'f"
    and keep :: "(nat \<Rightarrow> bool) \<Rightarrow> 'f \<Rightarrow> 'f"
    and frame :: "'a mem_scheme \<Rightarrow> 'a mem_scheme \<Rightarrow> bool"
    and add :: "'a mem_scheme \<Rightarrow> addr \<Rightarrow> addr \<Rightarrow> 'a mem_scheme option"
    and remove :: "'a mem_scheme \<Rightarrow> addr \<Rightarrow> 'a mem_scheme option"
    and next_first :: bool
    and coalesce :: "'a mem_scheme \<Rightarrow> addr \<Rightarrow> (addr \<times> 'a mem_scheme) option"
    and extend_heap :: "'a mem_scheme \<Rightarrow> addr \<Rightarrow> (addr \<times> 'a mem_scheme) option"
    and free :: "'a mem_scheme \<Rightarrow> addr \<Rightarrow> 'a mem_scheme option" +
  fixes search :: "nat \<Rightarrow> blk list \<Rightarrow> 'f \<Rightarrow> nat option"
    and find_fit :: "'a mem_scheme \<Rightarrow> addr \<Rightarrow> addr option"
    and place :: "'a mem_scheme \<Rightarrow> addr \<Rightarrow> addr \<Rightarrow> 'a mem_scheme option"
    and malloc :: "'a mem_scheme \<Rightarrow> addr \<Rightarrow> (addr \<times> 'a mem_scheme) option"
  assumes find_ok: "listed s bs F \<Longrightarrow> members F = set (frees j0 bs) \<Longrightarrow> m < 2 ^ 30
      \<Longrightarrow> find_fit s (bsize m) = Some (opt_ptr (mem_start_brk s) (search m bs F))"
    and search_ok: "listed s bs F \<Longrightarrow> members F = set (frees j0 bs) \<Longrightarrow> search m bs F = Some i
      \<Longrightarrow> i \<in> members F \<and> m \<le> block_words j0 bs i"
    and place_ok: "listed s (xs @ Free n # ys) F \<Longrightarrow> j = j0 + twords xs \<Longrightarrow> j \<in> members F
      \<Longrightarrow> even m \<Longrightarrow> 4 \<le> m \<Longrightarrow> m \<le> n
      \<Longrightarrow> \<exists>s' ws. place s (ptr (mem_start_brk s) j) (bsize m) = Some s' \<and> length ws = place_gets n m - 2
        \<and> frame s s' \<and> listed s' (xs @ Used ws # place_rest n m @ ys)
          (if m + 4 \<le> n then ins (xs @ Used ws # place_rest n m @ ys) (j + m) (keep (\<lambda>k. k \<noteq> j) F)
           else keep (\<lambda>k. k \<noteq> j) F)"
    and malloc_code: "0 < sz \<Longrightarrow> unat sz + 15 < 2 ^ 32 \<Longrightarrow> r = bsize (req_words sz) \<Longrightarrow> malloc s sz = do {
      bp \<leftarrow> find_fit s r;
      if bp \<noteq> NULL then do {
        s \<leftarrow> place s bp r;
        Some (bp, s) }
      else do {
        (bp, s) \<leftarrow> extend_heap s (MAX_C r CHUNKSIZE div WSIZE);
        if bp = NULL then Some (NULL, s)
        else do {
          s \<leftarrow> place s bp r;
          Some (bp, s) } } }"
begin

lemma members_place:
  assumes L: "listed s (xs @ Used ws # place_rest n m @ ys) G"
    and G: "G = (if m + 4 \<le> n then ins (xs @ Used ws # place_rest n m @ ys) (j + m) (keep (\<lambda>k. k \<noteq> j) F)
           else keep (\<lambda>k. k \<noteq> j) F)"
    and j: "j = j0 + twords xs" and ws: "length ws = place_gets n m - 2" "4 \<le> m" "m \<le> n"
    and F: "members F = set (frees j0 (xs @ Free n # ys))"
  shows "members G = set (frees j0 (xs @ Used ws # place_rest n m @ ys))"
proof -
  have w: "\<forall>c \<in> set xs. wf_blk c" using heap_blocksD(9) [OF listed_heap [OF L]] by auto
  have "k \<noteq> j" if "k \<in> set (frees j0 xs)" for k
    using frees_range_wf [OF that w] j by simp
  moreover have "k \<noteq> j" if "k \<in> set (frees (j + n) ys)" for k
    using frees_range [OF that] ws by simp
  moreover have "set (frees j0 (xs @ Used ws # place_rest n m @ ys))
      = set (frees j0 xs) \<union> (if m + 4 \<le> n then {j + m} else {}) \<union> set (frees (j + n) ys)"
    using ws j by (auto simp: place_gets_def place_rest_def add.assoc)
  ultimately have "set (frees j0 (xs @ Used ws # place_rest n m @ ys)) \<subseteq> members G"
    using F j by (auto simp: G members_ins members_keep)
  with listed_members [OF L] show ?thesis by auto
qed

text \<open>\<open>malloc\<close> serves a request from the block the search finds, and otherwise from the grown heap.\<close>

lemma malloc_fit:
  assumes I: "listed s bs F" "members F = set (frees j0 bs)" and sz: "0 < sz" "request_fits s sz" and r: "r = req_words sz"
    and f: "search r bs F = Some j"
  shows "\<exists>xs n ys ws s' G. bs = xs @ Free n # ys \<and> j = j0 + twords xs \<and> r \<le> n
    \<and> length ws = place_gets n r - 2 \<and> malloc s sz = Some (ptr (mem_start_brk s) j, s') \<and> frame s s'
    \<and> G = (if r + 4 \<le> n then ins (xs @ Used ws # place_rest n r @ ys) (j + r) (keep (\<lambda>k. k \<noteq> j) F)
           else keep (\<lambda>k. k \<noteq> j) F)
    \<and> listed s' (xs @ Used ws # place_rest n r @ ys) G
    \<and> members G = set (frees j0 (xs @ Used ws # place_rest n r @ ys))"
proof -
  note R = req_words_facts [OF sz(1), folded r] and B = request_fitsD [OF sz(2,1), folded r]
  note D = heap_blocksD [OF listed_heap [OF I(1)]]
  have jF: "j \<in> members F" and jw: "r \<le> block_words j0 bs j" using search_ok [OF I f] by simp_all
  then obtain xs n ys where bs: "bs = xs @ Free n # ys" and j: "j = j0 + twords xs"
    using frees_split I(2) by blast
  have n: "r \<le> n" using jw block_words_middle [of xs j0 "Free n" ys] D(9) by (simp add: bs j)
  have "ptr (mem_start_brk s) j \<noteq> 0"
    using D(10) j0 bs j by (intro ptr_not_NULL [OF D(1)]) simp
  then have e: "malloc s sz = do {
      t \<leftarrow> place s (ptr (mem_start_brk s) j) (bsize r);
      Some (ptr (mem_start_brk s) j, t) }"
    using malloc_code [OF sz(1) B(1) refl, folded r] find_ok [OF I B(2)] f by simp
  obtain s' ws where s': "place s (ptr (mem_start_brk s) j) (bsize r) = Some s'"
    "length ws = place_gets n r - 2" "frame s s'"
    "listed s' (xs @ Used ws # place_rest n r @ ys)
      (if r + 4 \<le> n then ins (xs @ Used ws # place_rest n r @ ys) (j + r) (keep (\<lambda>k. k \<noteq> j) F)
       else keep (\<lambda>k. k \<noteq> j) F)" (is "listed _ _ ?G")
    using place_ok [OF I(1) [unfolded bs] j jF R(1,2) n] by blast
  have "members ?G = set (frees j0 (xs @ Used ws # place_rest n r @ ys))"
    by (rule members_place [OF s'(4) refl j s'(2) R(2) n]) (use I(2) bs in simp)
  with e s' bs j n show ?thesis
    by (intro exI [of _ xs] exI [of _ n] exI [of _ ys] exI [of _ ws] exI [of _ s'] exI [of _ ?G]) simp
qed

lemma malloc_grow:
  assumes I: "listed s bs F" "members F = set (frees j0 bs)" and sz: "0 < sz" "request_fits s sz" and r: "r = req_words sz"
    and f: "search r bs F = None"
    and n: "n = max r 1024" and c: "coalesced bs n [] = (xs', m, ys')" and i: "i = j0 + twords xs'"
    and F': "F' = ins (xs' @ Free m # ys') i (keep (\<lambda>k. k < i \<or> i + m \<le> k) F)"
  shows "j0 + twords bs + n \<le> HEAPW \<Longrightarrow> \<exists>ws s' G. length ws = place_gets m r - 2 \<and> r \<le> m
    \<and> malloc s sz = Some (ptr (mem_start_brk s) i, s') \<and> frame s s'
    \<and> G = (if r + 4 \<le> m then ins (xs' @ Used ws # place_rest m r @ ys') (i + r) (keep (\<lambda>k. k \<noteq> i) F')
           else keep (\<lambda>k. k \<noteq> i) F')
    \<and> listed s' (xs' @ Used ws # place_rest m r @ ys') G
    \<and> members G = set (frees j0 (xs' @ Used ws # place_rest m r @ ys'))"
    and "\<not> j0 + twords bs + n \<le> HEAPW \<Longrightarrow> malloc s sz = Some (NULL, s)"
proof -
  note R = req_words_facts [OF sz(1), folded r] and B = request_fitsD [OF sz(2,1), folded r]
  have n': "even n" "4 \<le> n" "r \<le> n" "n < 2 ^ 30" "unat (mem_max_addr s) + 4 * n < 2 ^ 32"
    using R B n by (auto simp: max_def)
  have nm: "r \<le> m"
    using coalesced_split(3) [OF c, where pn = pn] n'(3) by simp
  have malloc: "malloc s sz = do {
      (bp, s) \<leftarrow> extend_heap s (bsize n div WSIZE);
      if bp = NULL then Some (NULL, s)
      else do { s \<leftarrow> place s bp (bsize r); Some (bp, s) } }"
    using malloc_code [OF sz(1) B(1) refl, folded r] find_ok [OF I B(2)] f MAX_CHUNKSIZE [OF B(2)] n by simp
  note E = extend_ok [OF I refl n'(1,2,4,5) c i]
  show "malloc s sz = Some (NULL, s)" if "\<not> j0 + twords bs + n \<le> HEAPW"
    using malloc E(2) [OF that] by simp
  assume "j0 + twords bs + n \<le> HEAPW"
  from E(1) [OF this] obtain s1 where s1: "extend_heap s (bsize n div WSIZE)
      = Some (ptr (mem_start_brk s) i, s1)" "frame s s1" "listed s1 (xs' @ Free m # ys') F'"
    unfolding F' by blast
  note H1 = listed_heap [OF s1(3)]
  have F1: "members F' = set (frees j0 (xs' @ Free m # ys'))"
    unfolding F' by (rule members_coalesced [OF s1(3) [unfolded F'] i c]) (simp add: I(2))
  have b: "mem_start_brk s1 = mem_start_brk s" using frame_bounds [OF s1(2)] by simp
  have "ptr (mem_start_brk s1) i \<noteq> 0"
    using heap_blocksD(10) [OF H1] i j0 by (intro ptr_not_NULL [OF heap_blocksD(1) [OF H1]]) simp
  moreover have iF: "i \<in> members F'" by (simp add: F' members_ins)
  then obtain s2 ws where s2: "place s1 (ptr (mem_start_brk s1) i) (bsize r) = Some s2"
    "length ws = place_gets m r - 2" "frame s1 s2"
    "listed s2 (xs' @ Used ws # place_rest m r @ ys')
      (if r + 4 \<le> m then ins (xs' @ Used ws # place_rest m r @ ys') (i + r) (keep (\<lambda>k. k \<noteq> i) F')
       else keep (\<lambda>k. k \<noteq> i) F')" (is "listed _ _ ?G")
    using place_ok [OF s1(3) i _ R(1,2) nm] by blast
  moreover have "members ?G = set (frees j0 (xs' @ Used ws # place_rest m r @ ys'))"
    by (rule members_place [OF s2(4) refl i s2(2) R(2) nm F1])
  ultimately show "\<exists>ws s' G. length ws = place_gets m r - 2 \<and> r \<le> m
    \<and> malloc s sz = Some (ptr (mem_start_brk s) i, s') \<and> frame s s'
    \<and> G = (if r + 4 \<le> m then ins (xs' @ Used ws # place_rest m r @ ys') (i + r) (keep (\<lambda>k. k \<noteq> i) F')
           else keep (\<lambda>k. k \<noteq> i) F')
    \<and> listed s' (xs' @ Used ws # place_rest m r @ ys') G
    \<and> members G = set (frees j0 (xs' @ Used ws # place_rest m r @ ys'))"
    using malloc s1(1) b frame_trans [OF s1(2)] nm
    by (intro exI [of _ ws] exI [of _ s2] exI [of _ ?G]) simp
qed

end

section \<open>What the client sees\<close>

locale list_package = list_allocator pn j0 listed members ins keep frame add remove
    next_first coalesce extend_heap free search find_fit place malloc
  for pn j0 :: nat
    and listed :: "'a mem_scheme \<Rightarrow> blk list \<Rightarrow> 'f \<Rightarrow> bool"
    and members :: "'f \<Rightarrow> nat set"
    and ins :: "blk list \<Rightarrow> nat \<Rightarrow> 'f \<Rightarrow> 'f"
    and keep :: "(nat \<Rightarrow> bool) \<Rightarrow> 'f \<Rightarrow> 'f"
    and frame :: "'a mem_scheme \<Rightarrow> 'a mem_scheme \<Rightarrow> bool"
    and add :: "'a mem_scheme \<Rightarrow> addr \<Rightarrow> addr \<Rightarrow> 'a mem_scheme option"
    and remove :: "'a mem_scheme \<Rightarrow> addr \<Rightarrow> 'a mem_scheme option"
    and next_first :: bool
    and coalesce :: "'a mem_scheme \<Rightarrow> addr \<Rightarrow> (addr \<times> 'a mem_scheme) option"
    and extend_heap :: "'a mem_scheme \<Rightarrow> addr \<Rightarrow> (addr \<times> 'a mem_scheme) option"
    and free :: "'a mem_scheme \<Rightarrow> addr \<Rightarrow> 'a mem_scheme option"
    and search :: "nat \<Rightarrow> blk list \<Rightarrow> 'f \<Rightarrow> nat option"
    and find_fit :: "'a mem_scheme \<Rightarrow> addr \<Rightarrow> addr option"
    and place :: "'a mem_scheme \<Rightarrow> addr \<Rightarrow> addr \<Rightarrow> 'a mem_scheme option"
    and malloc :: "'a mem_scheme \<Rightarrow> addr \<Rightarrow> (addr \<times> 'a mem_scheme) option" +
  fixes repr :: "'a mem_scheme \<Rightarrow> (addr \<rightharpoonup> byte list) \<Rightarrow> bool"
    and init :: "'a mem_scheme \<Rightarrow> (int \<times> 'a mem_scheme) option"
  assumes repr_def: "repr s L \<longleftrightarrow> (\<exists>bs F. listed s bs F \<and> members F = set (frees j0 bs) \<and> spaced bs
      \<and> L = live (mem_start_brk s) j0 bs)"
    and init_first: "geom s \<Longrightarrow> mem_brk s = mem_start_brk s \<Longrightarrow> request_fits s 0
      \<Longrightarrow> \<exists>s' F. init s = Some (0, s') \<and> listed s' [Free 1024] F \<and> members F = {j0} \<and> same_storage s s'"
begin

lemma reprE:
  assumes "repr s L"
  obtains bs F where "listed s bs F" "members F = set (frees j0 bs)" "spaced bs" "heap_blocks s pn bs"
    "L = live (mem_start_brk s) (pn + 2) bs"
  using assms listed_heap by (auto simp: repr_def j0)

lemma reprI:
  "listed s bs F \<Longrightarrow> members F = set (frees j0 bs) \<Longrightarrow> spaced bs \<Longrightarrow> L = live (mem_start_brk s) (pn + 2) bs
    \<Longrightarrow> repr s L"
  by (auto simp: repr_def j0)

lemma init_live:
  assumes "geom s" "mem_brk s = mem_start_brk s" "request_fits s 0"
  shows "\<exists>s'. init s = Some (0, s') \<and> repr s' Map.empty \<and> same_storage s s'"
  using init_first [OF assms] by (fastforce simp: repr_def)

lemma malloc_live:
  assumes r: "repr s L" and sz: "0 < sz" "request_fits s sz"
  shows "\<exists>p s'. malloc s sz = Some (p, s') \<and> same_storage s s'
    \<and> (if p = NULL then repr s' L
       else L p = None \<and> (\<exists>cs. unat sz \<le> length cs \<and> repr s' (L(p \<mapsto> cs))))"
proof -
  obtain bs F where I: "listed s bs F" "members F = set (frees j0 bs)" and sp: "spaced bs"
    and L: "L = live (mem_start_brk s) (pn + 2) bs" using r by (rule reprE)
  define q where "q = req_words sz"
  note R = req_words_facts [OF sz(1), folded q_def]
  have placed: ?thesis
    if m: "malloc s sz = Some (ptr (mem_start_brk s) (j0 + twords xs), s')" "q \<le> n"
      "length ws = place_gets n q - 2" "frame s s'" "listed s' (xs @ Used ws # place_rest n q @ ys) G"
      "members G = set (frees j0 (xs @ Used ws # place_rest n q @ ys))" "spaced (xs @ Free n # ys)"
      "L = live (mem_start_brk s) (pn + 2) (xs @ Free n # ys)" for xs n ys ws s' G
  proof -
    have b: "mem_start_brk s' = mem_start_brk s" using frame_bounds [OF m(4)] by simp
    note A = live_alloc [OF listed_heap [OF m(5)] m(3) R(2) m(2) refl, unfolded b, folded m(8)]
    have "unat sz \<le> length (concat (map word_bytes ws))" using A(4) R(3) by linarith
    moreover have "repr s' (L(ptr (mem_start_brk s) (pn + 2 + twords xs) \<mapsto> concat (map word_bytes ws)))"
      using m(5,6) spaced_place [OF m(7)] unfolding repr_def b j0 A(3) [symmetric] by blast
    ultimately have "\<exists>cs. unat sz \<le> length cs \<and> repr s' (L(ptr (mem_start_brk s) (pn + 2 + twords xs) \<mapsto> cs))"
      by blast
    then show ?thesis using m(1) A(1,2) frame_storage [OF m(4)] by (simp add: j0)
  qed
  show ?thesis
  proof (cases "search q bs F")
    case (Some j)
    from malloc_fit [OF I sz q_def Some] obtain xs n ys ws s' G where "bs = xs @ Free n # ys" "j = j0 + twords xs"
      "q \<le> n" "length ws = place_gets n q - 2" "malloc s sz = Some (ptr (mem_start_brk s) j, s')" "frame s s'"
      "listed s' (xs @ Used ws # place_rest n q @ ys) G"
      "members G = set (frees j0 (xs @ Used ws # place_rest n q @ ys))" by blast
    with L sp show ?thesis by (intro placed [of xs s' n ws ys G]) simp_all
  next
    case None
    define n where "n = max q 1024"
    obtain xs m ys where c: "coalesced bs n [] = (xs, m, ys)" by (metis prod_cases3)
    note G = malloc_grow [OF I sz q_def None n_def c refl refl]
    show ?thesis
    proof (cases "j0 + twords bs + n \<le> HEAPW")
      case True
      have "L = live (mem_start_brk s) (pn + 2) (xs @ Free m # ys)"
        unfolding L live_coalesced [OF c] live_grow ..
      moreover have "spaced (xs @ Free m # ys)" by (rule spaced_coalesced [OF sp _ c]) simp
      moreover from G(1) [OF True] obtain ws s' G where "length ws = place_gets m q - 2" "q \<le> m"
        "malloc s sz = Some (ptr (mem_start_brk s) (j0 + twords xs), s')" "frame s s'"
        "listed s' (xs @ Used ws # place_rest m q @ ys) G"
        "members G = set (frees j0 (xs @ Used ws # place_rest m q @ ys))" by blast
      ultimately show ?thesis by (intro placed [of xs s' m ws ys G])
    next
      case False
      with G(2) r show ?thesis by simp
    qed
  qed
qed

lemma free_live:
  assumes r: "repr s L" and p: "L p = Some cs"
  shows "\<exists>s'. free s p = Some s' \<and> same_storage s s' \<and> repr s' (L(p := None))"
proof -
  obtain bs F where I: "listed s bs F" "members F = set (frees j0 bs)" and sp: "spaced bs" and H: "heap_blocks s pn bs"
    and L: "L = live (mem_start_brk s) (pn + 2) bs" using r by (rule reprE)
  obtain xs ws ys where bs: "bs = xs @ Used ws # ys" and q: "p = ptr (mem_start_brk s) (pn + 2 + twords xs)"
    using live_at [OF p [unfolded L]] by blast
  obtain us m zs where c: "coalesced xs (length ws + 2) ys = (us, m, zs)" by (metis prod_cases3)
  obtain s' G where s': "free s p = Some s'" "frame s s'" "listed s' (us @ Free m # zs) G"
    "members G = set (frees j0 (us @ Free m # zs))"
    using free_merges [OF I [unfolded bs] refl c refl] q j0 by blast
  have "spaced (us @ Free m # zs)"
    by (rule spaced_coalesced [OF _ _ c]) (use sp bs in \<open>simp_all add: spaced_middle\<close>)
  moreover have "L(p := None) = live (mem_start_brk s) (pn + 2) (us @ Free m # zs)"
    unfolding L bs by (rule live_free [OF H [unfolded bs] q c, symmetric])
  ultimately have "repr s' (L(p := None))"
    using s'(3,4) frame_bounds [OF s'(2)] by (intro reprI) simp_all
  then show ?thesis using s'(1) frame_storage [OF s'(2)] by blast
qed

lemma write_live:
  assumes r: "repr s L" "L p = Some cs" and m: "\<And>a. \<not> unat (a - p) < length cs \<Longrightarrow> m a = bytes s a"
  shows "repr (s\<lparr>bytes := m\<rparr>) (L(p \<mapsto> map (\<lambda>k. m (p + of_nat k)) [0..<length cs]))"
proof -
  obtain bs F where I: "listed s bs F" "members F = set (frees j0 bs)" and sp: "spaced bs" and H: "heap_blocks s pn bs"
    and L: "L = live (mem_start_brk s) (pn + 2) bs" using r(1) by (rule reprE)
  let ?s = "s\<lparr>bytes := m\<rparr>"
  obtain bs' where bs': "heap_blocks ?s pn bs'" "frees (pn + 2) bs' = frees (pn + 2) bs" "spaced bs' = spaced bs"
    "\<forall>i. block_words (pn + 2) bs' i = block_words (pn + 2) bs i"
    "\<forall>i \<in> set (frees (pn + 2) bs). hw ?s i = hw s i \<and> hw ?s (Suc i) = hw s (Suc i)"
    "\<forall>i < pn. hw ?s i = hw s i"
    "live (mem_start_brk s) (pn + 2) bs' = L(p \<mapsto> map (\<lambda>k. m (p + of_nat k)) [0..<length cs])"
    using live_write [OF H r(2) [unfolded L] m] unfolding L by blast
  have "listed ?s bs' F"
    by (rule listed_transfer [OF I(1) bs'(1)]) (use bs' I(2) j0 in simp_all)
  then show ?thesis using bs'(2,3) bs'(7) [symmetric] I(2) sp by (intro reprI) (simp_all add: j0)
qed

text \<open>The tags of two blocks the client holds lie between their payloads.\<close>

lemma tags_apart:
  assumes "repr s L" "L p = Some cs" "L q = Some ds" "p \<noteq> q"
  shows "unat p + length cs + 8 \<le> unat q \<or> unat q + length ds + 8 \<le> unat p"
  using assms by (elim reprE, simp only:) (rule heap_live_apart)

lemma live_size:
  assumes "repr s L" "L p = Some cs"
  shows "GET_SIZE s (HDRP p) = Some (of_nat (length cs + 8)) \<and> unat p + length cs + 8 \<le> unat (mem_brk s)"
  using assms by (elim reprE, simp only:) (rule heap_live_size)

text \<open>How much of the storage the operations use up.\<close>

lemma listed_room:
  assumes L: "listed s bs F"
  shows "room s + 4 * (j0 + twords bs) = MAX_HEAP" "i \<le> j0 + twords bs \<Longrightarrow> ptr (mem_start_brk s) i \<noteq> NULL"
proof -
  note D = heap_blocksD [OF listed_heap [OF L], folded j0]
  have le: "4 * (j0 + twords bs) \<le> MAX_HEAP" using D(10) by (simp add: HEAPW_eq MAX_HEAP_def)
  with unat_ptr [OF D(1) this] unat_max_addr [OF D(1)] show "room s + 4 * (j0 + twords bs) = MAX_HEAP"
    unfolding room_def D(8) by simp
  show "ptr (mem_start_brk s) i \<noteq> NULL" if "i \<le> j0 + twords bs"
    by (rule ptr_not_NULL [OF D(1)]) (use that D(10) in simp)
qed

lemma init_uses:
  assumes "geom s" "mem_brk s = mem_start_brk s" "request_fits s 0" "init s = Some (r, s')"
  shows "MAX_HEAP \<le> room s' + (4 * j0 + 4096) \<and> room s' < MAX_HEAP"
  using init_first [OF assms(1-3)] assms(4) by (auto dest!: listed_room(1))

lemma malloc_uses:
  assumes r: "repr s L" and sz: "0 < sz" "request_fits s sz" and e: "malloc s sz = Some (p, s')"
  shows "room s' \<le> room s \<and> room s \<le> room s' + need sz \<and> (p = NULL \<longrightarrow> room s < need sz)"
proof -
  obtain bs F where I: "listed s bs F" "members F = set (frees j0 bs)" using r by (rule reprE)
  note R = req_words_facts [OF sz(1)]
  have nd: "4 * max (req_words sz) 1024 \<le> need sz" using R(4) by (simp add: need_def)
  show ?thesis
  proof (cases "search (req_words sz) bs F")
    case (Some j)
    from malloc_fit [OF I sz refl Some] obtain xs n ys ws t G where m: "bs = xs @ Free n # ys"
      "req_words sz \<le> n" "length ws = place_gets n (req_words sz) - 2" "j = j0 + twords xs"
      "malloc s sz = Some (ptr (mem_start_brk s) j, t)" "listed t (xs @ Used ws # place_rest n (req_words sz) @ ys) G"
      by (elim exE conjE) (rule that; assumption)
    have "twords (xs @ Used ws # place_rest n (req_words sz) @ ys) = twords bs"
      using m(1-3) R(2) by (auto simp: place_gets_def place_rest_def)
    with listed_room(1) [OF I(1)] listed_room(1) [OF m(6)] have "room s = room t" by simp
    with m(1,4,5) e listed_room(2) [OF I(1), of j] show ?thesis by simp
  next
    case None
    define n where "n = max (req_words sz) 1024"
    obtain xs m ys where c: "coalesced bs n [] = (xs, m, ys)" by (metis prod_cases3)
    note G = malloc_grow [OF I sz refl None n_def c refl refl]
    show ?thesis
    proof (cases "j0 + twords bs + n \<le> HEAPW")
      case True
      from G(1) [OF True] obtain ws t G where m: "length ws = place_gets m (req_words sz) - 2" "req_words sz \<le> m"
        "malloc s sz = Some (ptr (mem_start_brk s) (j0 + twords xs), t)"
        "listed t (xs @ Used ws # place_rest m (req_words sz) @ ys) G"
        by (elim exE conjE) (rule that; assumption)
      have "twords (xs @ Used ws # place_rest m (req_words sz) @ ys) = twords (xs @ Free m # ys)"
        using m(1,2) R(2) by (auto simp: place_gets_def place_rest_def)
      also have tw: "\<dots> = twords bs + n" by (simp only: twords_coalesced [OF c]) simp
      finally have "room s = room t + 4 * n" using listed_room(1) [OF I(1)] listed_room(1) [OF m(4)] by simp
      moreover have "ptr (mem_start_brk s) (j0 + twords xs) \<noteq> NULL"
        by (rule ptr_not_NULL [OF heap_blocksD(1) [OF listed_heap [OF I(1)]]]) (use True tw in simp)
      ultimately show ?thesis using e m(3) nd by (simp add: n_def)
    next
      case False
      with G(2) e listed_room(1) [OF I(1)] nd show ?thesis by (simp add: n_def HEAPW_eq MAX_HEAP_def)
    qed
  qed
qed

lemma free_uses:
  assumes r: "repr s L" and p: "L p = Some cs" and e: "free s p = Some s'"
  shows "room s' = room s"
proof -
  obtain bs F where I: "listed s bs F" "members F = set (frees j0 bs)"
    and L: "L = live (mem_start_brk s) (pn + 2) bs" using r by (rule reprE)
  obtain xs ws ys where bs: "bs = xs @ Used ws # ys" and q: "p = ptr (mem_start_brk s) (pn + 2 + twords xs)"
    using live_at [OF p [unfolded L]] by blast
  obtain us m zs where c: "coalesced xs (length ws + 2) ys = (us, m, zs)" by (metis prod_cases3)
  obtain t G where t: "free s p = Some t" "listed t (us @ Free m # zs) G"
    using free_merges [OF I [unfolded bs] refl c refl] q j0 by blast
  have "twords (us @ Free m # zs) = twords bs" unfolding twords_coalesced [OF c] bs by simp
  with listed_room(1) [OF I(1)] listed_room(1) [OF t(2)] e t(1) show ?thesis by simp
qed

end

sublocale list_package \<subseteq> live_heap repr
proof unfold_locales
  fix s L p cs and q :: addr and ds and m :: "addr \<Rightarrow> byte"
  show "geom s" if "repr s L"
    using that by (rule reprE) (rule heap_blocksD)
  show "0 < length cs \<and> 8 dvd unat p \<and> unat (mem_start_brk s) \<le> unat p
      \<and> unat p + length cs \<le> unat (mem_brk s)" if "repr s L" "L p = Some cs"
    using that by (elim reprE, simp only:) (rule heap_live_block)
  show "unat p + length cs \<le> unat q \<or> unat q + length ds \<le> unat p"
    if "repr s L" "L p = Some cs" "L q = Some ds" "p \<noteq> q"
    using tags_apart [OF that] by linarith
  show "bytes s (p + of_nat k) = cs ! k" if "repr s L" "L p = Some cs" "k < length cs" for k
    using that by (elim reprE, simp only:) (rule live_in_heap(6))
qed (rule write_live)

sublocale list_package \<subseteq> alloc_package repr blank_heap init malloc free
proof unfold_locales
  fix s :: "'a mem_scheme"
  show "\<exists>s'. init s = Some (0, s') \<and> repr s' Map.empty \<and> same_storage s s'" if "blank_heap s"
    using that by (intro init_live) (simp_all add: blank_heap_def)
  show "blank_heap (mem_reset_brk s)" if "repr s Map.empty" "request_fits s 0"
    by (rule blank_heap_reset [OF live_geom [OF that(1)] that(2)])
qed (rule malloc_live free_live; assumption)+

text \<open>
  With the usual \<open>mm_realloc\<close> the package is a \<open>tag_allocator\<close>, and so keeps the contract of \<open>mm.h\<close>.
\<close>

locale list_package_realloc = list_package pn j0 listed members ins keep frame add remove
    next_first coalesce extend_heap free search find_fit place malloc repr init
  for pn j0 :: nat
    and listed :: "'a mem_scheme \<Rightarrow> blk list \<Rightarrow> 'f \<Rightarrow> bool"
    and members :: "'f \<Rightarrow> nat set"
    and ins :: "blk list \<Rightarrow> nat \<Rightarrow> 'f \<Rightarrow> 'f"
    and keep :: "(nat \<Rightarrow> bool) \<Rightarrow> 'f \<Rightarrow> 'f"
    and frame :: "'a mem_scheme \<Rightarrow> 'a mem_scheme \<Rightarrow> bool"
    and add :: "'a mem_scheme \<Rightarrow> addr \<Rightarrow> addr \<Rightarrow> 'a mem_scheme option"
    and remove :: "'a mem_scheme \<Rightarrow> addr \<Rightarrow> 'a mem_scheme option"
    and next_first :: bool
    and coalesce :: "'a mem_scheme \<Rightarrow> addr \<Rightarrow> (addr \<times> 'a mem_scheme) option"
    and extend_heap :: "'a mem_scheme \<Rightarrow> addr \<Rightarrow> (addr \<times> 'a mem_scheme) option"
    and free :: "'a mem_scheme \<Rightarrow> addr \<Rightarrow> 'a mem_scheme option"
    and search :: "nat \<Rightarrow> blk list \<Rightarrow> 'f \<Rightarrow> nat option"
    and find_fit :: "'a mem_scheme \<Rightarrow> addr \<Rightarrow> addr option"
    and place :: "'a mem_scheme \<Rightarrow> addr \<Rightarrow> addr \<Rightarrow> 'a mem_scheme option"
    and malloc :: "'a mem_scheme \<Rightarrow> addr \<Rightarrow> (addr \<times> 'a mem_scheme) option"
    and repr :: "'a mem_scheme \<Rightarrow> (addr \<rightharpoonup> byte list) \<Rightarrow> bool"
    and init :: "'a mem_scheme \<Rightarrow> (int \<times> 'a mem_scheme) option" +
  fixes realloc :: "'a mem_scheme \<Rightarrow> addr \<Rightarrow> addr \<Rightarrow> (addr \<times> 'a mem_scheme) option"
  assumes first_block: "j0 \<le> 6"
    and realloc_code: "realloc s p sz = do {
      (q, s) \<leftarrow> malloc s sz;
      if q = NULL then Some (NULL, s)
      else do {
        n \<leftarrow> GET_SIZE s (HDRP p);
        let n = (if sz < n then sz else n);
        s \<leftarrow> memcpy s q p n;
        s \<leftarrow> free s p;
        Some (q, s) } }"

sublocale list_package_realloc \<subseteq> sparing_tag_allocator repr init malloc free realloc
proof unfold_locales
  show "MAX_HEAP \<le> room s' + 4120 \<and> room s' < MAX_HEAP"
    if "geom s" "mem_brk s = mem_start_brk s" "request_fits s 0" "init s = Some (r, s')" for s s' r
    using init_uses [OF that] first_block by simp
qed (rule live_size tags_apart realloc_code malloc_uses free_uses; assumption)+

end
