(* ===== verification/Link_Words.thy ===== *)
theory Link_Words
  imports Malloc_Interface
begin

text \<open>
  Lists threaded through the first two payload words of free blocks, predecessor first: \<open>chain h b xs\<close> says that
  the blocks \<open>xs\<close>, given by their payload indices, follow each other in both directions. The ring of \<open>mm.c\<close>, the
  chain of \<open>refer.c\<close> and the sorted chains of \<open>segregated_list-85.c\<close> are built on it.
\<close>

section \<open>Chains\<close>

text \<open>Consecutive members are linked both ways.\<close>

fun chain :: "(nat \<Rightarrow> 32 word) \<Rightarrow> addr \<Rightarrow> nat list \<Rightarrow> bool" where
  "chain h b (x # y # zs) \<longleftrightarrow> h (Suc x) = ptr b y \<and> h y = ptr b x \<and> chain h b (y # zs)"
| "chain h b _ \<longleftrightarrow> True"

lemma chain_append: "chain h b (xs @ y # zs) \<longleftrightarrow> chain h b (xs @ [y]) \<and> chain h b (y # zs)"
  by (induction xs rule: induct_list012) (cases zs; simp)+

lemma chain_middle:
  "chain h b (ts @ x # y # zs) \<longleftrightarrow>
     chain h b (ts @ [x]) \<and> h (Suc x) = ptr b y \<and> h y = ptr b x \<and> chain h b (y # zs)"
  by (subst chain_append) simp

lemma chain_cong:
  assumes "\<And>x. x \<in> set (butlast xs) \<Longrightarrow> h (Suc x) = h' (Suc x)" "\<And>y. y \<in> set (tl xs) \<Longrightarrow> h y = h' y"
  shows "chain h b xs \<longleftrightarrow> chain h' b xs"
  using assms by (induction h b xs rule: chain.induct) auto

text \<open>Members have even indices, so successor words are odd and predecessor words even.\<close>

lemma chain_upd:
  assumes "\<forall>z \<in> set xs. even z"
  shows "even x \<Longrightarrow> x \<notin> set (butlast xs) \<Longrightarrow> chain (h(Suc x := v)) b xs \<longleftrightarrow> chain h b xs"
    and "even y \<Longrightarrow> y \<notin> set (tl xs) \<Longrightarrow> chain (h(y := v)) b xs \<longleftrightarrow> chain h b xs"
proof -
  have tl: "\<forall>z \<in> set (tl xs). even z" using assms by (cases xs) auto
  have bl: "\<forall>z \<in> set (butlast xs). even z" using assms by (auto dest: in_set_butlastD)
  show "even x \<Longrightarrow> x \<notin> set (butlast xs) \<Longrightarrow> chain (h(Suc x := v)) b xs \<longleftrightarrow> chain h b xs"
    by (rule chain_cong) (use tl in auto)
  show "even y \<Longrightarrow> y \<notin> set (tl xs) \<Longrightarrow> chain (h(y := v)) b xs \<longleftrightarrow> chain h b xs"
    by (rule chain_cong) (use bl in auto)
qed

lemma filter_out_middle:
  assumes "distinct (us @ p # vs)"
  shows "filter (\<lambda>k. k \<noteq> p) (us @ p # vs) = us @ vs"
proof -
  have "filter (\<lambda>k. k \<noteq> p) us = us" "filter (\<lambda>k. k \<noteq> p) vs = vs"
    using assms by (auto simp: filter_id_conv)
  then show ?thesis by simp
qed

section \<open>Link words of a tagged heap\<close>

lemma free_index:
  assumes H: "heap_blocks s 4 bs" and i: "i \<in> set (frees 6 bs)"
  shows "even i" "6 \<le> i" "i + 4 \<le> HEAPW"
proof -
  note D = heap_blocksD [OF H]
  have i': "i \<in> set (frees (4 + 2) bs)" using i by simp
  show "even i" by (rule frees_even [OF i' D(9)]) simp
  show "6 \<le> i" "i + 4 \<le> HEAPW" using frees_range_wf [OF i' D(9)] D(10) by simp_all
qed

lemma free_index_all:
  assumes H: "heap_blocks s 4 bs" and sub: "set fl \<subseteq> set (frees 6 bs)"
  shows "\<forall>x \<in> set fl. even x \<and> 2 < x"
proof
  fix x
  assume "x \<in> set fl"
  then have "x \<in> set (frees 6 bs)" using sub by blast
  from free_index [OF H this] show "even x \<and> 2 < x" by simp
qed

lemma link_index:
  assumes H: "heap_blocks s 4 bs" and i: "i \<in> set (frees 6 bs) \<or> i = 2"
  shows "even i" "i + 1 < HEAPW"
proof -
  have "even i \<and> i + 1 < HEAPW"
  proof (cases "i = 2")
    case False
    with i have "i \<in> set (frees 6 bs)" by simp
    from free_index [OF H this] show ?thesis by simp
  qed (simp add: HEAPW_eq)
  then show "even i" "i + 1 < HEAPW" by simp_all
qed

text \<open>Link words: the first two payload words of a free block or of the sentinel.\<close>

lemma heap_blocks_upd_link:
  assumes H: "heap_blocks s 4 bs" and i: "i \<in> set (frees 6 bs) \<or> i = 2" and k: "k = i \<or> k = Suc i"
  shows "heap_blocks (put_word s k v) 4 bs"
proof (cases "i = 2")
  case False
  with assms show ?thesis by (intro heap_blocks_upd_interior [of s 4 bs i k v]) auto
next
  case True
  note D = heap_blocksD [OF H]
  have "hw (put_word s k v) = (hw s)(k := v)"
    using True k by (intro hw_put_word) (auto simp: HEAPW_eq)
  moreover have "tags ((hw s)(k := v)) 6 bs \<longleftrightarrow> tags (hw s) 6 bs"
    by (rule tags_cong) (use D(9) True k in auto)
  ultimately show ?thesis
    using D True k by (auto simp: heap_blocks_def)
qed

end
