(* ===== verification/Explicit_List.thy ===== *)
theory Explicit_List
  imports Free_Store Link_Words
begin

text \<open>
  The allocator the driver is linked with, \<open>src/mm.c\<close>: an explicit free list. The free blocks are
  linked through their first two payload words (predecessor, then successor) into a circular list
  whose sentinel is the prologue block; freed and split-off blocks enter behind the sentinel, and
  the search is first fit along the list.
\<close>

section \<open>The code\<close>

record mm = mem +
  heap_listp :: addr

definition list_add :: "mm \<Rightarrow> addr \<Rightarrow> mm option" where
  "list_add s p = do {
     x \<leftarrow> SUCC_P s (heap_listp s);
     s \<leftarrow> SET_SUCC_P s p x;
     s \<leftarrow> SET_PRED_P s p (heap_listp s);
     x \<leftarrow> SUCC_P s (heap_listp s);
     s \<leftarrow> SET_PRED_P s x p;
     SET_SUCC_P s (heap_listp s) p }"

definition list_remove :: "mm \<Rightarrow> addr \<Rightarrow> mm option" where
  "list_remove s p = do {
     x \<leftarrow> PRED_P s p;
     y \<leftarrow> SUCC_P s p;
     s \<leftarrow> SET_SUCC_P s x y;
     y \<leftarrow> SUCC_P s p;
     x \<leftarrow> PRED_P s p;
     SET_PRED_P s y x }"

definition coalesce :: "mm \<Rightarrow> addr \<Rightarrow> (addr \<times> mm) option" where
  "coalesce s bp = do {
     pb \<leftarrow> PREV_BLKP s bp;
     pf \<leftarrow> FTRP s pb;
     prev_alloc \<leftarrow> GET_ALLOC s pf;
     nb \<leftarrow> NEXT_BLKP s bp;
     next_alloc \<leftarrow> GET_ALLOC s (HDRP nb);
     sz \<leftarrow> GET_SIZE s (HDRP bp);
     (bp, s) \<leftarrow>
       (if prev_alloc \<noteq> 0 \<and> next_alloc = 0 then do {
          nb \<leftarrow> NEXT_BLKP s bp;
          s \<leftarrow> list_remove s nb;
          nb \<leftarrow> NEXT_BLKP s bp;
          nsz \<leftarrow> GET_SIZE s (HDRP nb);
          s \<leftarrow> PUT s (HDRP bp) (PACK (sz + nsz) 0);
          f \<leftarrow> FTRP s bp;
          s \<leftarrow> PUT s f (PACK (sz + nsz) 0);
          Some (bp, s) }
        else if prev_alloc = 0 \<and> next_alloc \<noteq> 0 then do {
          pb \<leftarrow> PREV_BLKP s bp;
          s \<leftarrow> list_remove s pb;
          pb \<leftarrow> PREV_BLKP s bp;
          psz \<leftarrow> GET_SIZE s (HDRP pb);
          f \<leftarrow> FTRP s bp;
          s \<leftarrow> PUT s f (PACK (sz + psz) 0);
          pb \<leftarrow> PREV_BLKP s bp;
          s \<leftarrow> PUT s (HDRP pb) (PACK (sz + psz) 0);
          bp \<leftarrow> PREV_BLKP s bp;
          Some (bp, s) }
        else if prev_alloc = 0 \<and> next_alloc = 0 then do {
          pb \<leftarrow> PREV_BLKP s bp;
          s \<leftarrow> list_remove s pb;
          nb \<leftarrow> NEXT_BLKP s bp;
          s \<leftarrow> list_remove s nb;
          pb \<leftarrow> PREV_BLKP s bp;
          psz \<leftarrow> GET_SIZE s (HDRP pb);
          nb \<leftarrow> NEXT_BLKP s bp;
          nf \<leftarrow> FTRP s nb;
          nsz \<leftarrow> GET_SIZE s nf;
          let sz = sz + (psz + nsz);
          s \<leftarrow> PUT s (HDRP pb) (PACK sz 0);
          nb \<leftarrow> NEXT_BLKP s bp;
          nf \<leftarrow> FTRP s nb;
          s \<leftarrow> PUT s nf (PACK sz 0);
          bp \<leftarrow> PREV_BLKP s bp;
          Some (bp, s) }
        else Some (bp, s));
     s \<leftarrow> list_add s bp;
     Some (bp, s) }"

definition extend_heap :: "mm \<Rightarrow> addr \<Rightarrow> (addr \<times> mm) option" where
  "extend_heap s words =
     (let sz = (if words mod 2 \<noteq> 0 then (words + 1) * WSIZE else words * WSIZE);
          (bp, s) = mem_sbrk s sz
      in if bp = - 1 then Some (NULL, s)
         else do {
           s \<leftarrow> PUT s (HDRP bp) (PACK sz 0);
           f \<leftarrow> FTRP s bp;
           s \<leftarrow> PUT s f (PACK sz 0);
           nb \<leftarrow> NEXT_BLKP s bp;
           s \<leftarrow> PUT s (HDRP nb) (PACK 0 1);
           coalesce s bp })"

definition mm_init :: "mm \<Rightarrow> (int \<times> mm) option" where
  "mm_init s =
     (let (p, s) = mem_sbrk s (6 * WSIZE); s = s\<lparr>heap_listp := p\<rparr>
      in if p = - 1 then Some (- 1, s)
         else do {
           s \<leftarrow> PUT s (heap_listp s) 0;
           s \<leftarrow> PUT s (heap_listp s + 1 * WSIZE) (PACK (2 * DSIZE) 1);
           s \<leftarrow> PUT s (heap_listp s + 2 * WSIZE) (heap_listp s + 3 * WSIZE);
           s \<leftarrow> PUT s (heap_listp s + 3 * WSIZE) (heap_listp s + 2 * WSIZE);
           s \<leftarrow> PUT s (heap_listp s + 4 * WSIZE) (PACK (2 * DSIZE) 1);
           s \<leftarrow> PUT s (heap_listp s + 5 * WSIZE) (PACK 0 1);
           let s = s\<lparr>heap_listp := heap_listp s + 2 * WSIZE\<rparr>;
           (r, s) \<leftarrow> extend_heap s (CHUNKSIZE div WSIZE);
           if r = NULL then Some (- 1, s) else Some (0, s) })"

partial_function (option) find_fit_from :: "mm \<Rightarrow> addr \<Rightarrow> addr \<Rightarrow> addr option" where
  "find_fit_from s asize p = do {
     a \<leftarrow> GET_ALLOC s (HDRP p);
     if a = 0 then do {
       n \<leftarrow> GET_SIZE s (HDRP p);
       if asize \<le> n then Some p
       else do {
         q \<leftarrow> SUCC_P s p;
         find_fit_from s asize q } }
     else Some NULL }"

definition find_fit :: "mm \<Rightarrow> addr \<Rightarrow> addr option" where
  "find_fit s asize = do {
     p \<leftarrow> SUCC_P s (heap_listp s);
     find_fit_from s asize p }"

definition place :: "mm \<Rightarrow> addr \<Rightarrow> addr \<Rightarrow> mm option" where
  "place s p sz = do {
     free_block \<leftarrow> GET_SIZE s (HDRP p);
     s \<leftarrow> list_remove s p;
     if free_block - sz \<ge> 2 * DSIZE then do {
       s \<leftarrow> PUT s (HDRP p) (PACK sz 1);
       f \<leftarrow> FTRP s p;
       s \<leftarrow> PUT s f (PACK sz 1);
       p \<leftarrow> NEXT_BLKP s p;
       s \<leftarrow> PUT s (HDRP p) (PACK (free_block - sz) 0);
       f \<leftarrow> FTRP s p;
       s \<leftarrow> PUT s f (PACK (free_block - sz) 0);
       list_add s p }
     else do {
       s \<leftarrow> PUT s (HDRP p) (PACK free_block 1);
       f \<leftarrow> FTRP s p;
       PUT s f (PACK free_block 1) } }"

definition mm_malloc :: "mm \<Rightarrow> addr \<Rightarrow> (addr \<times> mm) option" where
  "mm_malloc s sz =
     (if sz = 0 then Some (NULL, s)
      else let asize = (if sz \<le> DSIZE then 2 * DSIZE
                        else DSIZE * ((sz + DSIZE + (DSIZE - 1)) div DSIZE)) in
      do {
        bp \<leftarrow> find_fit s asize;
        if bp \<noteq> NULL then do {
          s \<leftarrow> place s bp asize;
          Some (bp, s) }
        else do {
          let extendsize = MAX_C asize CHUNKSIZE;
          (bp, s) \<leftarrow> extend_heap s (extendsize div WSIZE);
          if bp = NULL then Some (NULL, s)
          else do {
            s \<leftarrow> place s bp asize;
            Some (bp, s) } } })"

definition mm_free :: "mm \<Rightarrow> addr \<Rightarrow> mm option" where
  "mm_free s p = do {
     sz \<leftarrow> GET_SIZE s (HDRP p);
     s \<leftarrow> PUT s (HDRP p) (PACK sz 0);
     f \<leftarrow> FTRP s p;
     s \<leftarrow> PUT s f (PACK sz 0);
     (_, s) \<leftarrow> coalesce s p;
     Some s }"

definition mm_realloc :: "mm \<Rightarrow> addr \<Rightarrow> addr \<Rightarrow> (addr \<times> mm) option" where
  "mm_realloc s oldptr sz = do {
     (newptr, s) \<leftarrow> mm_malloc s sz;
     if newptr = NULL then Some (NULL, s)
     else do {
       copy_size \<leftarrow> GET_SIZE s (HDRP oldptr);
       let copy_size = (if sz < copy_size then sz else copy_size);
       s \<leftarrow> memcpy s newptr oldptr copy_size;
       s \<leftarrow> mm_free s oldptr;
       Some (newptr, s) } }"

section \<open>The free list as a ring of block indices\<close>

text \<open>The chain closed through the sentinel, word 2. An empty ring may miss its backward link.\<close>

definition ring :: "(nat \<Rightarrow> 32 word) \<Rightarrow> addr \<Rightarrow> nat list \<Rightarrow> bool" where
  "ring h b fl \<longleftrightarrow> chain h b (2 # fl) \<and> h (Suc (last (2 # fl))) = ptr b 2 \<and> (fl \<noteq> [] \<longrightarrow> h 2 = ptr b (last fl))"

lemma ring_cong:
  assumes "\<And>x. x \<in> set (2 # fl) \<Longrightarrow> h x = h' x \<and> h (Suc x) = h' (Suc x)"
  shows "ring h b fl \<longleftrightarrow> ring h' b fl"
proof -
  have "chain h b (2 # fl) \<longleftrightarrow> chain h' b (2 # fl)"
    by (rule chain_cong) (use assms in \<open>auto dest: in_set_butlastD split: if_splits\<close>)
  moreover have "last (2 # fl) \<in> set (2 # fl)" by (rule last_in_set) simp
  ultimately show ?thesis using assms unfolding ring_def by simp
qed

text \<open>The two list operations on the words.\<close>

lemma ring_add:
  assumes r: "ring h b fl"
    and d: "distinct fl" "p \<notin> set fl" "\<forall>x \<in> set (p # fl). even x \<and> 2 < x"
  shows "ring (h(Suc p := h 3, p := ptr b 2, hd (fl @ [2]) := ptr b p, 3 := ptr b p)) b (p # fl)"
proof (cases fl)
  case Nil
  then show ?thesis using r d by (auto simp: ring_def)
next
  case (Cons f fs)
  let ?h = "h(Suc p := h 3, p := ptr b 2, f := ptr b p, 3 := ptr b p)"
  have ev: "even p" "even f" "2 < p" "2 < f" "\<forall>x \<in> set fs. even x \<and> 2 < x \<and> x \<noteq> p \<and> x \<noteq> f" "p \<noteq> f"
    using d Cons by auto
  have ne: "p \<noteq> 3" "f \<noteq> 3" "Suc p \<noteq> 3" "f \<noteq> Suc p"
    using even_Suc_neq [OF even_numeral ev(1), of num.One] even_Suc_neq [OF even_numeral ev(2), of num.One]
      even_Suc_neq [OF ev(1,2)] ev(3) by auto
  have e: "\<forall>z \<in> set (f # fs). even z" and np: "p \<notin> set (f # fs)" and n2: "2 \<notin> set (f # fs)"
    and nf: "f \<notin> set (tl (f # fs))" and ntl: "p \<notin> set (tl (f # fs))"
    using ev d Cons by auto
  have nbl: "p \<notin> set (butlast (f # fs))" "2 \<notin> set (butlast (f # fs))"
    using np n2 by (blast dest: in_set_butlastD)+
  have "chain (h(Suc p := h 3, p := ptr b 2, f := ptr b p, Suc 2 := ptr b p)) b (f # fs)
      \<longleftrightarrow> chain h b (f # fs)"
    using chain_upd(1) [OF e ev(1) nbl(1)] chain_upd(2) [OF e ev(1) ntl] chain_upd(2) [OF e ev(2) nf]
      chain_upd(1) [OF e even_numeral nbl(2)] by simp
  then have "chain ?h b (f # fs) \<longleftrightarrow> chain h b (f # fs)" by simp
  moreover have "last (f # fs) \<in> set (f # fs)" by (rule last_in_set) simp
  then obtain l where l: "last (f # fs) = l" "even l" "2 < l" "p \<noteq> l"
    using ev(1-4,6) bspec [OF ev(5)] by (metis set_ConsD)
  have "Suc l \<noteq> p" "Suc l \<noteq> f" "Suc l \<noteq> 3" "Suc l \<noteq> Suc p"
    using even_Suc_neq [OF l(2) ev(1)] even_Suc_neq [OF l(2) ev(2)] l(3,4) by auto
  moreover have "h 3 = ptr b f" "chain h b (f # fs)" "h (Suc l) = ptr b 2" "h 2 = ptr b l"
    using r Cons l(1) by (auto simp: ring_def)
  ultimately show ?thesis using ev(3,4,6) ne Cons l by (simp add: ring_def)
qed

lemma ring_remove:
  assumes r: "ring h b (us @ p # vs)"
    and d: "distinct (us @ p # vs)" "\<forall>x \<in> set (us @ p # vs). even x \<and> 2 < x"
  shows "h p = ptr b (last (2 # us))" "h (Suc p) = ptr b (hd (vs @ [2]))"
    "ring (h(Suc (last (2 # us)) := ptr b (hd (vs @ [2])), hd (vs @ [2]) := ptr b (last (2 # us)))) b (us @ vs)"
proof -
  define x where "x = last (2 # us)"
  obtain ts where ts: "2 # us = ts @ [x]" unfolding x_def by (metis append_butlast_last_id list.discI)
  have "2 # us @ p # vs = ts @ x # p # vs" using ts by simp
  then have chain: "chain h b (ts @ [x])" "h (Suc x) = ptr b p" "h p = ptr b x" "chain h b (p # vs)"
    using r unfolding ring_def by (simp_all only: chain_middle)
  show "h p = ptr b (last (2 # us))" using chain(3) by (simp add: x_def)
  show succ: "h (Suc p) = ptr b (hd (vs @ [2]))"
    using chain(4) r by (cases vs) (auto simp: ring_def)
  have ev: "even x" "x = 2 \<or> x \<in> set us" using d ts by (auto simp: x_def)
  have dts: "distinct (ts @ [x])" "\<forall>y \<in> set (ts @ [x]). even y"
    using d by (auto simp flip: ts)
  have evt: "\<forall>y \<in> set (tl (ts @ [x])). even y" using dts(2) by (cases ts) auto
  let ?h = "h(Suc x := ptr b (hd (vs @ [2])), hd (vs @ [2]) := ptr b x)"
  have "ring ?h b (us @ vs)"
  proof (cases vs)
    case Nil
    have "set (tl (ts @ [x])) \<subseteq> set us" using arg_cong [OF ts, of tl] by simp
    then have "2 \<notin> set (tl (ts @ [x]))" using d by auto
    with evt have "chain ?h b (ts @ [x]) \<longleftrightarrow> chain h b (ts @ [x])"
      using dts Nil by (intro chain_cong) (auto simp: butlast_append)
    moreover have "us \<noteq> [] \<Longrightarrow> last us = x" by (simp add: x_def)
    ultimately show ?thesis using chain Nil ev ts
      by (auto simp: ring_def simp flip: x_def)
  next
    case (Cons v vs')
    have t: "set (tl (ts @ [x])) \<subseteq> set us" using arg_cong [OF ts, of tl] by simp
    have v: "even v" "2 < v" "v \<notin> set us" "v \<notin> set vs'" "v \<noteq> x" "v \<noteq> p" using d Cons ev by auto
    have nx: "x \<notin> set (butlast (ts @ [x]))" and nv: "v \<notin> set (tl (ts @ [x]))"
      using dts(1) t v by auto
    have hts: "chain ?h b (ts @ [x])"
      using chain_upd(1) [OF dts(2) ev(1) nx] chain_upd(2) [OF dts(2) v(1) nv] chain(1) Cons by simp
    have e: "\<forall>z \<in> set (v # vs'). even z" and nv: "v \<notin> set (tl (v # vs'))" and nx: "x \<notin> set (v # vs')"
      using d Cons ev by auto
    have nx: "x \<notin> set (butlast (v # vs'))" using nx by (blast dest: in_set_butlastD)
    have hvs: "chain ?h b (v # vs')"
      using chain_upd(1) [OF e ev(1) nx] chain_upd(2) [OF e v(1) nv] Cons chain(4) by simp
    have "\<forall>z \<in> set (v # vs'). even z \<and> 2 < z \<and> z \<noteq> x" using d Cons ev by auto
    moreover have "last (v # vs') \<in> set (v # vs')" by (rule last_in_set) simp
    ultimately obtain l where l: "last (v # vs') = l" "even l" "2 < l" "l \<noteq> x" by blast
    then have hl: "h (Suc l) = ptr b 2" "h 2 = ptr b l" "last (2 # us @ vs) = l"
      using r Cons by (simp_all add: ring_def)
    have "Suc l \<noteq> v" "Suc x \<noteq> v" "Suc x \<noteq> 2" "v \<noteq> 2" "Suc x \<noteq> Suc l" using l(2-4) v ev by auto
    moreover have eq: "2 # us @ vs = ts @ x # v # vs'" using ts Cons by simp
    ultimately show ?thesis
      unfolding ring_def hl(3) using hl(1,2) l(1) by (simp only: eq chain_middle hts hvs) (simp add: Cons)
  qed
  then show "ring (h(Suc (last (2 # us)) := ptr b (hd (vs @ [2])), hd (vs @ [2]) := ptr b (last (2 # us)))) b (us @ vs)"
    by (simp only: x_def)
qed

section \<open>The list operations on a tagged heap\<close>

text \<open>
  \<open>listed s bs fl\<close>: the blocks \<open>bs\<close> tile the heap and the ring threads the free blocks \<open>fl\<close>. In the
  middle of an operation a block that is already tagged free may be missing from \<open>fl\<close>.
\<close>

definition listed :: "mm \<Rightarrow> blk list \<Rightarrow> nat list \<Rightarrow> bool" where
  "listed s bs fl \<longleftrightarrow> heap_blocks s 4 bs \<and> heap_listp s = ptr (mem_start_brk s) 2
     \<and> distinct fl \<and> set fl \<subseteq> set (frees 6 bs) \<and> ring (hw s) (mem_start_brk s) fl"

lemma listedD:
  assumes "listed s bs fl"
  shows "heap_blocks s 4 bs" "heap_listp s = ptr (mem_start_brk s) 2" "distinct fl"
    "set fl \<subseteq> set (frees 6 bs)" "ring (hw s) (mem_start_brk s) fl"
  using assms by (simp_all add: listed_def)

lemma heap_listp_put_word [simp]: "heap_listp (put_word s i v) = heap_listp s"
  by (simp add: put_word_def)

lemma frame_mm: "only_heap s s' \<Longrightarrow> heap_listp s' = heap_listp s"
  by (drule only_heap_def [THEN iffD1, THEN arg_cong, of _ _ heap_listp]) simp

lemma list_add_ok:
  assumes L: "listed s bs fl" and p: "p \<in> set (frees 6 bs)" "p \<notin> set fl"
  shows "\<exists>s'. list_add s (ptr (mem_start_brk s) p) = Some s' \<and> listed s' bs (p # fl) \<and> only_heap s s'"
proof -
  let ?b = "mem_start_brk s"
  have H: "heap_blocks s 4 bs" and h: "heap_listp s = ptr ?b 2" and d: "distinct fl"
    and sub: "set fl \<subseteq> set (frees 6 bs)" and r: "ring (hw s) ?b fl"
    using L by (auto simp: listed_def)
  note D = heap_blocksD [OF H]
  define f where "f = hd (fl @ [2])"
  have f: "f \<in> set (frees 6 bs) \<or> f = 2" using sub by (cases fl) (auto simp: f_def)
  have lt: "p + 1 < HEAPW" "f + 1 < HEAPW" "6 \<le> p" "even p" "even f"
    using free_index [OF H p(1)] link_index [OF H f] by simp_all
  have hf: "hw s 3 = ptr ?b f" using r by (cases fl) (auto simp: ring_def f_def)
  let ?s = "put_word (put_word (put_word (put_word s (p + 1) (hw s 3)) p (ptr ?b 2)) f (ptr ?b p)) 3 (ptr ?b p)"
  have "Suc p \<noteq> 3" "p \<noteq> 3" using lt(3) by auto
  then have "list_add s (ptr ?b p) = Some ?s"
    using D(1) lt h hf
    by (simp add: list_add_def SUCC_P_def SET_SUCC_P_def SET_PRED_P_def ptr_simps heap_exec HEAPW_eq)

  moreover have "heap_blocks ?s 4 bs"
    using p(1) f
    by (intro heap_blocks_upd_link [of _ bs 2 3] heap_blocks_upd_link [of _ bs f f]
        heap_blocks_upd_link [of _ bs p p] heap_blocks_upd_link [of _ bs p "p + 1"] H) auto
  moreover have "ring (hw ?s) ?b (p # fl)"
  proof -
    have "\<forall>x \<in> set (p # fl). even x \<and> 2 < x"
      by (rule free_index_all [OF H]) (use p(1) sub in simp)
    from ring_add [OF r d p(2) this] show ?thesis
      using lt by (simp add: hw_put_word HEAPW_eq f_def)
  qed
  ultimately show ?thesis using h d p sub
    by (intro exI [of _ ?s]) (simp add: listed_def)
qed

lemma list_remove_ok:
  assumes L: "listed s bs (us @ p # vs)"
  shows "\<exists>s'. list_remove s (ptr (mem_start_brk s) p) = Some s' \<and> listed s' bs (us @ vs) \<and> only_heap s s'"
proof -
  let ?b = "mem_start_brk s"
  note LD = listedD [OF L]
  note D = heap_blocksD [OF LD(1)]
  have ok: "\<forall>x \<in> set (us @ p # vs). even x \<and> 2 < x"
    by (rule free_index_all [OF LD(1,4)])
  define x y where "x = last (2 # us)" and "y = hd (vs @ [2])"
  note R = ring_remove [OF LD(5,3) ok, folded x_def y_def]
  have xy: "x \<in> set (frees 6 bs) \<or> x = 2" "y \<in> set (frees 6 bs) \<or> y = 2" "p \<in> set (frees 6 bs)"
    using LD(4) by (auto simp: x_def y_def hd_append)
  have lt: "x + 1 < HEAPW" "y + 1 < HEAPW" "p + 1 < HEAPW" "even x" "even p"
    using link_index [OF LD(1) xy(1)] link_index [OF LD(1) xy(2)] free_index [OF LD(1) xy(3)] by simp_all
  have "x \<noteq> p" using LD(3) ok by (auto simp: x_def)
  then have ne: "x + 1 \<noteq> p" "x + 1 \<noteq> p + 1" using lt by auto
  let ?s = "put_word (put_word s (x + 1) (ptr ?b y)) y (ptr ?b x)"
  have "list_remove s (ptr ?b p) = Some ?s"
    using D(1) lt R(1,2) ne
    by (simp add: list_remove_def PRED_P_def SUCC_P_def SET_SUCC_P_def SET_PRED_P_def ptr_simps heap_exec)
  moreover have "heap_blocks ?s 4 bs"
    using xy by (intro heap_blocks_upd_link [of _ bs y y] heap_blocks_upd_link [of _ bs x "x + 1"] LD(1)) auto
  moreover have "ring (hw ?s) ?b (us @ vs)"
    using R(3) lt by (simp add: hw_put_word)
  ultimately show ?thesis using LD(2,3,4)
    by (intro exI [of _ ?s]) (simp add: listed_def)
qed

lemma list_remove_mem:
  assumes L: "listed s bs fl" and p: "p \<in> set fl"
  shows "\<exists>s'. list_remove s (ptr (mem_start_brk s) p) = Some s'
    \<and> listed s' bs (filter (\<lambda>k. k \<noteq> p) fl) \<and> only_heap s s'"
proof -
  obtain us vs where fl: "fl = us @ p # vs" using split_list [OF p] by blast
  have "filter (\<lambda>k. k \<noteq> p) fl = us @ vs" using listedD(3) [OF L] unfolding fl by (rule filter_out_middle)
  with list_remove_ok [OF L [unfolded fl]] show ?thesis by simp
qed

section \<open>Coalescing\<close>

lemma coalesce_TT:
  assumes "nbhd s j p True n False q True"
  shows "coalesce s (ptr (mem_start_brk s) j) = do {
    s' \<leftarrow> list_add s (ptr (mem_start_brk s) j); Some (ptr (mem_start_brk s) j, s') }"
  using nbhd_reads [OF assms refl] by (simp add: coalesce_def)

lemma coalesce_TF:
  assumes N: "nbhd s j p True n False q False"
    and r: "list_remove s (ptr (mem_start_brk s) (j + n)) = Some s1" "mem_start_brk s1 = mem_start_brk s"
    and N1: "nbhd s1 j p True n False q False"
  shows "coalesce s (ptr (mem_start_brk s) j) = do {
    s' \<leftarrow> list_add (put_word (put_word s1 (j - 1) (hdr (n + q) False)) (j + (n + q) - 2) (hdr (n + q) False))
      (ptr (mem_start_brk s) j);
    Some (ptr (mem_start_brk s) j, s') }"
  using nbhd_reads [OF N refl] nbhd_reads [OF N1 r(2)] nbhdD(1-9,12,14) [OF N1] r
  by (simp add: coalesce_def) (simp add: blk_macros ptr_simps heap_exec add.assoc)

lemma coalesce_FT:
  assumes N: "nbhd s j p False n False q True"
    and r: "list_remove s (ptr (mem_start_brk s) (j - p)) = Some s1" "mem_start_brk s1 = mem_start_brk s"
    and N1: "nbhd s1 j p False n False q True"
  shows "coalesce s (ptr (mem_start_brk s) j) = do {
    s' \<leftarrow> list_add (put_word (put_word s1 (j + n - 2) (hdr (n + p) False)) (j - p - 1) (hdr (n + p) False))
      (ptr (mem_start_brk s) (j - p));
    Some (ptr (mem_start_brk s) (j - p), s') }"
  using nbhd_reads [OF N refl] nbhd_reads [OF N1 r(2)] nbhdD(1-9,12,14) [OF N1] r
  by (simp add: coalesce_def) (simp add: blk_macros ptr_simps heap_exec add.assoc)

lemma coalesce_FF:
  assumes N: "nbhd s j p False n False q False"
    and r: "list_remove s (ptr (mem_start_brk s) (j - p)) = Some s1" "mem_start_brk s1 = mem_start_brk s"
    and N1: "nbhd s1 j p False n False q False"
    and r2: "list_remove s1 (ptr (mem_start_brk s) (j + n)) = Some s2" "mem_start_brk s2 = mem_start_brk s"
    and N2: "nbhd s2 j p False n False q False"
  shows "coalesce s (ptr (mem_start_brk s) j) = do {
    s' \<leftarrow> list_add (put_word (put_word s2 (j - p - 1) (hdr (n + (p + q)) False))
        (j + n + q - 2) (hdr (n + (p + q)) False)) (ptr (mem_start_brk s) (j - p));
    Some (ptr (mem_start_brk s) (j - p), s') }"
  using nbhd_reads [OF N refl] nbhd_reads(6) [OF N1 r(2)] nbhd_reads [OF N2 r2(2)] nbhdD(1-9,14) [OF N2] r r2
  by (simp add: coalesce_def Let_def) (simp add: blk_macros ptr_simps heap_exec add.assoc)

section \<open>Searching and placing\<close>

text \<open>First fit along the list; sizes are those of the block list.\<close>

definition words_at :: "blk list \<Rightarrow> nat \<Rightarrow> nat" where
  "words_at bs i = block_words 6 bs i"

lemma words_at_middle:
  "\<forall>c \<in> set xs. wf_blk c \<Longrightarrow> words_at (xs @ b # ys) (6 + twords xs) = bwords b"
  by (simp add: words_at_def block_words_middle)

lemma ring_succ:
  "ring h b fl \<Longrightarrow> h 3 = ptr b (hd (fl @ [2]))"
  "ring h b (us @ v # vs) \<Longrightarrow> h (Suc v) = ptr b (hd (vs @ [2]))"
proof -
  show "ring h b fl \<Longrightarrow> h 3 = ptr b (hd (fl @ [2]))"
    by (cases fl) (auto simp: ring_def)
  assume r: "ring h b (us @ v # vs)"
  show "h (Suc v) = ptr b (hd (vs @ [2]))"
  proof (cases vs)
    case Nil
    with r show ?thesis by (simp add: ring_def)
  next
    case (Cons w ws)
    then have "chain h b ((2 # us) @ v # w # ws)" using r by (simp add: ring_def)
    with Cons show ?thesis unfolding chain_middle by simp
  qed
qed

lemma find_fit_from_ok:
  assumes L: "listed s bs (us @ vs)" and m: "m < 2 ^ 30"
  shows "find_fit_from s (bsize m) (ptr (mem_start_brk s) (hd (vs @ [2])))
    = Some (opt_ptr (mem_start_brk s) (find (\<lambda>i. m \<le> words_at bs i) vs))"
  using L
proof (induction vs arbitrary: us)
  case Nil
  note D = heap_blocksD [OF listedD(1) [OF Nil]]
  have "hw s (Suc 0) = hdr 4 True" using D(4) by simp
  with D(1) show ?case
    by (subst find_fit_from.simps) (simp add: ptr_simps heap_exec HEAPW_eq)
next
  case (Cons v vs)
  note LD = listedD [OF Cons.prems]
  have "v \<in> set (frees 6 bs)" using LD(4) by auto
  then obtain xs n ys where bs: "bs = xs @ Free n # ys" and v: "v = 6 + twords xs"
    using frees_split by blast
  have v': "v = 4 + 2 + twords xs" using v by simp
  note D = heap_blocksD [OF LD(1)] and V = heap_block_view [OF LD(1) [unfolded bs] v']
  have n30: "n < 2 ^ 30" using V(9,10) by (simp add: HEAPW_eq)
  have w: "words_at bs v = n" using words_at_middle [of xs "Free n" ys] D(9) bs v by simp
  have rec: "find_fit_from s (bsize m) (ptr (mem_start_brk s) (hd (vs @ [2])))
    = Some (opt_ptr (mem_start_brk s) (find (\<lambda>i. m \<le> words_at bs i) vs))"
    using Cons.IH [of "us @ [v]"] Cons.prems by simp
  have "hw s (Suc v) = ptr (mem_start_brk s) (hd (vs @ [2]))" by (rule ring_succ(2) [OF LD(5)])
  moreover have "bsize m \<le> bsize n \<longleftrightarrow> m \<le> n" using m n30 by (rule bsize_le_iff)
  ultimately show ?case
    using D(1) V rec w
    by (subst find_fit_from.simps) (simp add: SUCC_P_def ptr_simps heap_exec)
qed

lemma find_fit_ok:
  assumes L: "listed s bs fl" and m: "m < 2 ^ 30"
  shows "find_fit s (bsize m) = Some (opt_ptr (mem_start_brk s) (find (\<lambda>i. m \<le> words_at bs i) fl))"
proof -
  note LD = listedD [OF L]
  have "SUCC_P s (heap_listp s) = Some (ptr (mem_start_brk s) (hd (fl @ [2])))"
    using heap_blocksD(1) [OF LD(1)] LD(2) ring_succ(1) [OF LD(5)]
    by (simp add: SUCC_P_def ptr_simps heap_exec HEAPW_eq)
  with find_fit_from_ok [of s bs "[]" fl m] L m show ?thesis by (simp add: find_fit_def)
qed

text \<open>
  The invariant of the package: the blocks tile the heap, no two free ones are neighbours, and the
  ring holds exactly the free ones.
\<close>

definition mm_inv :: "mm \<Rightarrow> blk list \<Rightarrow> nat list \<Rightarrow> bool" where
  "mm_inv s bs fl \<longleftrightarrow> listed s bs fl \<and> set fl = set (frees 6 bs) \<and> spaced bs"

lemma mm_invD:
  assumes "mm_inv s bs fl"
  shows "listed s bs fl" "set fl = set (frees 6 bs)" "spaced bs"
  using assms by (simp_all add: mm_inv_def)

interpretation mm_list: free_list 4 6 listed set "\<lambda>_. (#)" filter only_heap "\<lambda>s p n. list_add s p" list_remove
proof unfold_locales
  fix s s' :: mm and bs bs' fl p and P Q :: "nat \<Rightarrow> bool"
  show "\<exists>s'. list_add s (ptr (mem_start_brk s) p) = Some s' \<and> listed s' bs (p # fl) \<and> only_heap s s'"
    if "listed s bs fl" "p \<in> set (frees 6 bs)" "p \<notin> set fl" using that by (rule list_add_ok)
  show "\<exists>s'. list_remove s (ptr (mem_start_brk s) p) = Some s' \<and> listed s' bs (filter (\<lambda>k. k \<noteq> p) fl) \<and> only_heap s s'"
    if "listed s bs fl" "p \<in> set fl" using that by (rule list_remove_mem)
  show "only_heap s s' \<Longrightarrow> same_storage s s'"
    by (simp add: same_storage_def only_heap_bounds)
  show "listed s' bs' fl" if "listed s bs fl" "heap_blocks s' 4 bs'" "only_heap s s'"
    "\<And>k. k < 4 \<Longrightarrow> hw s' k = hw s k"
    "\<And>k. k \<in> set fl \<Longrightarrow> k \<in> set (frees 6 bs') \<and> block_words 6 bs' k = block_words 6 bs k
      \<and> hw s' k = hw s k \<and> hw s' (Suc k) = hw s (Suc k)"
  proof -
    have "ring (hw s) (mem_start_brk s) fl \<longleftrightarrow> ring (hw s') (mem_start_brk s) fl"
      by (rule ring_cong) (use that(4,5) in auto)
    then show ?thesis
      using that(2,5) listedD [OF that(1)] only_heap_bounds [OF that(3)] frame_mm [OF that(3)]
      by (auto simp: listed_def)
  qed
qed (auto simp: listed_def filter_id_conv intro: only_heap_trans filter_cong)

text \<open>The routines of \<open>mm.c\<close> step by step.\<close>

lemma coalesce_code:
  assumes N: "nbhd s j p pa n False q qa"
    and u: "unlinks list_remove (\<lambda>u. nbhd u j p pa n False q qa) (neighbours False pa (j - p) qa (j + n)) s u"
    and i: "i = (if pa then j else j - p)" and m: "m = (if pa then 0 else p) + n + (if qa then 0 else q)"
  shows "\<exists>t. (if pa \<and> qa then t = u else retagged u i m t)
    \<and> coalesce s (ptr (mem_start_brk s) j) = do {
        s' \<leftarrow> list_add t (ptr (mem_start_brk s) i); Some (ptr (mem_start_brk s) i, s') }"
proof -
  note ND = nbhdD(7) [OF N]
  consider "pa" "qa" | "pa" "\<not> qa" | "\<not> pa" "qa" | "\<not> pa" "\<not> qa" by blast
  then show ?thesis
  proof cases
    case 1
    then show ?thesis using N u i coalesce_TT by (auto simp: neighbours_def)
  next
    case 2
    with u have r: "list_remove s (ptr (mem_start_brk s) (j + n)) = Some u"
      "mem_start_brk u = mem_start_brk s" "nbhd u j p True n False q False"
      by (auto simp: neighbours_def same_storage_def)
    with coalesce_TF [of s j p n q u] N 2 i m show ?thesis by (auto simp: retagged_def)
  next
    case 3
    with u have r: "list_remove s (ptr (mem_start_brk s) (j - p)) = Some u"
      "mem_start_brk u = mem_start_brk s" "nbhd u j p False n False q True"
      by (auto simp: neighbours_def same_storage_def)
    moreover have "j + n - 2 = i + m - 2" "m = n + p" using 3 i m ND by simp_all
    ultimately show ?thesis
      using coalesce_FT [of s j p n q u] N 3 i by (auto simp: retagged_def)
  next
    case 4
    with u obtain v where "list_remove s (ptr (mem_start_brk s) (j - p)) = Some v"
      "mem_start_brk v = mem_start_brk s" "nbhd v j p False n False q False"
      "list_remove v (ptr (mem_start_brk s) (j + n)) = Some u"
      "mem_start_brk u = mem_start_brk s" "nbhd u j p False n False q False"
      by (auto simp: neighbours_def same_storage_def)
    moreover have "j + n + q - 2 = i + m - 2" "m = n + (p + q)" using 4 i m ND by simp_all
    ultimately show ?thesis
      using coalesce_FF [of s j p n q v u] N 4 i by (auto simp: retagged_def)
  qed
qed

lemma place_ok:
  assumes L: "listed s (xs @ Free n # ys) fl" and j: "j = 6 + twords xs" and jfl: "j \<in> set fl"
    and m: "even m" "4 \<le> m" "m \<le> n"
  shows "\<exists>s' ws. place s (ptr (mem_start_brk s) j) (bsize m) = Some s'
    \<and> length ws = place_gets n m - 2 \<and> only_heap s s'
    \<and> listed s' (xs @ Used ws # place_rest n m @ ys)
        (if m + 4 \<le> n then (j + m) # filter (\<lambda>k. k \<noteq> j) fl else filter (\<lambda>k. k \<noteq> j) fl)"
proof -
  let ?b = "mem_start_brk s"
  have j2: "j = 4 + 2 + twords xs" using j by simp
  note D = heap_blocksD [OF listedD(1) [OF L]] and V = heap_block_view [OF listedD(1) [OF L] j2]
  have n30: "n < 2 ^ 30" using V(9,10) by (simp add: HEAPW_eq)
  then have big: "2 * DSIZE \<le> bsize n - bsize m \<longleftrightarrow> m + 4 \<le> n"
    using m by (simp add: ptr_simps bsize_ge_2DSIZE) linarith
  obtain s1 s' ws where s1: "list_remove s (ptr ?b j) = Some s1" "only_heap s s1"
    and s': "(if m + 4 \<le> n then list_add (tag_split s1 j m n) (ptr ?b (j + m)) else Some (tag_whole s1 j n)) = Some s'"
    "length ws = place_gets n m - 2" "only_heap s s'" "listed s' (xs @ Used ws # place_rest n m @ ys)
      (if m + 4 \<le> n then (j + m) # filter (\<lambda>k. k \<noteq> j) fl else filter (\<lambda>k. k \<noteq> j) fl)"
    by (rule mm_list.remove_place [OF L j jfl m])
  have b1: "mem_start_brk s1 = ?b" using only_heap_bounds [OF s1(2)] by simp
  have g1: "geom s1"
    using list_remove_mem [OF L jfl] s1(1) by (auto dest: listedD(1) heap_blocksD(1))
  have sz: "GET_SIZE s (HDRP (ptr ?b j)) = Some (bsize n)"
    using D(1) V(1,6,8,10) by (simp add: ptr_simps heap_exec)
  have idx: "4 \<le> j" "j - 1 < HEAPW" "j + m - 2 < HEAPW" "j + m - 1 < HEAPW" "j + n - 2 < HEAPW" "even (n - m)" "even n"
    using V(6,8,9,10) m by auto
  have "place s (ptr ?b j) (bsize m)
      = (if m + 4 \<le> n then list_add (tag_split s1 j m n) (ptr ?b (j + m)) else Some (tag_whole s1 j n))"
    using sz s1(1) big b1 g1 idx m
    by (simp add: place_def blk_macros ptr_simps heap_exec tag_split_def tag_whole_def)
  with s' show ?thesis by auto
qed

interpretation mm_alloc: list_allocator 4 6 listed set "\<lambda>_. (#)" filter only_heap "\<lambda>s p n. list_add s p" list_remove
  False coalesce extend_heap mm_free "\<lambda>m bs. find (\<lambda>i. m \<le> words_at bs i)" find_fit place mm_malloc
proof unfold_locales
  fix s :: mm and xs ys bs fl j n m p pa q qa u i and sz r :: addr and bp :: addr
  show "\<exists>t. (if pa \<and> qa then t = u else retagged u i m t)
      \<and> coalesce s (ptr (mem_start_brk s) j) = do {
          s' \<leftarrow> list_add t (ptr (mem_start_brk s) i); Some (ptr (mem_start_brk s) i, s') }"
    if "nbhd s j p pa n False q qa"
      "unlinks list_remove (\<lambda>u. nbhd u j p pa n False q qa) (neighbours False pa (j - p) qa (j + n)) s u"
      "i = (if pa then j else j - p)" "m = (if pa then 0 else p) + n + (if qa then 0 else q)"
    using that by (rule coalesce_code)
  show "find_fit s (bsize m) = Some (opt_ptr (mem_start_brk s) (find (\<lambda>i. m \<le> words_at bs i) fl))"
    if "listed s bs fl" "m < 2 ^ 30" using that by (rule find_fit_ok)
  show "i \<in> set fl \<and> m \<le> block_words 6 bs i" if "find (\<lambda>i. m \<le> words_at bs i) fl = Some i"
    using that by (auto simp: find_Some_iff words_at_def)
  show "\<exists>s' ws. place s (ptr (mem_start_brk s) j) (bsize m) = Some s'
      \<and> length ws = place_gets n m - 2 \<and> only_heap s s'
      \<and> listed s' (xs @ Used ws # place_rest n m @ ys)
          (if m + 4 \<le> n then (j + m) # filter (\<lambda>k. k \<noteq> j) fl else filter (\<lambda>k. k \<noteq> j) fl)"
    if "listed s (xs @ Free n # ys) fl" "j = 6 + twords xs" "j \<in> set fl" "even m" "4 \<le> m" "m \<le> n"
    using that by (rule place_ok)
  show "mm_malloc s sz = do {
      bp \<leftarrow> find_fit s r;
      if bp \<noteq> NULL then do { s \<leftarrow> place s bp r; Some (bp, s) }
      else do {
        (bp, s) \<leftarrow> extend_heap s (MAX_C r CHUNKSIZE div WSIZE);
        if bp = NULL then Some (NULL, s)
        else do { s \<leftarrow> place s bp r; Some (bp, s) } } }"
    if "0 < sz" "unat sz + 15 < 2 ^ 32" "r = bsize (req_words sz)"
    using word_gt_0 [of sz, THEN iffD1, OF that(1)]
    unfolding mm_malloc_def Let_def asize_eq [OF that(1,2)] that(3) by simp
qed (simp only: extend_heap_def even_words_size Let_def | simp add: mm_free_def)+

text \<open>
  What the routines do, in the terms of \<open>mm.c\<close>. The members that lie outside a block of \<open>m\<close> words at \<open>i\<close>, in
  their old order; the list after \<open>place\<close>: the block leaves it, a split-off rest enters in front.
\<close>

definition outside :: "nat \<Rightarrow> nat \<Rightarrow> nat list \<Rightarrow> nat list" where
  "outside i m fl = filter (\<lambda>k. k < i \<or> i + m \<le> k) fl"

definition place_list :: "nat \<Rightarrow> nat \<Rightarrow> nat \<Rightarrow> nat list \<Rightarrow> nat list" where
  "place_list j n m fl = (if m + 4 \<le> n then [j + m] else []) @ filter (\<lambda>k. k \<noteq> j) fl"

lemma place_list_eq: "(if m + 4 \<le> n then (j + m) # filter (\<lambda>k. k \<noteq> j) fl else filter (\<lambda>k. k \<noteq> j) fl) = place_list j n m fl"
  by (simp add: place_list_def)

text \<open>
  \<open>mm_malloc\<close> serves a request from the first block of the list that is large enough, and otherwise from the
  grown heap; \<open>mm_free\<close> merges.
\<close>

lemma mm_malloc_fit:
  assumes "mm_inv s bs fl" "0 < sz" "request_fits s sz"
    and "find (\<lambda>i. req_words sz \<le> words_at bs i) fl = Some j"
  shows "\<exists>xs n ys ws s'. bs = xs @ Free n # ys \<and> j = 6 + twords xs \<and> req_words sz \<le> n
    \<and> length ws = place_gets n (req_words sz) - 2
    \<and> mm_malloc s sz = Some (ptr (mem_start_brk s) j, s')
    \<and> mm_inv s' (xs @ Used ws # place_rest n (req_words sz) @ ys) (place_list j n (req_words sz) fl)
    \<and> only_heap s s'"
proof -
  have I: "listed s bs fl" "set fl = set (frees 6 bs)" "spaced bs" using assms(1) by (simp_all add: mm_inv_def)
  from mm_alloc.malloc_fit [OF I(1,2) assms(2,3) refl assms(4), unfolded place_list_eq] obtain xs n ys ws s' where
    r: "bs = xs @ Free n # ys" "j = 6 + twords xs" "req_words sz \<le> n" "length ws = place_gets n (req_words sz) - 2"
      "mm_malloc s sz = Some (ptr (mem_start_brk s) j, s')" "only_heap s s'"
      "listed s' (xs @ Used ws # place_rest n (req_words sz) @ ys) (place_list j n (req_words sz) fl)"
      "set (place_list j n (req_words sz) fl) = set (frees 6 (xs @ Used ws # place_rest n (req_words sz) @ ys))"
    by blast
  have "mm_inv s' (xs @ Used ws # place_rest n (req_words sz) @ ys) (place_list j n (req_words sz) fl)"
    using r(7,8) spaced_place I(3) unfolding r(1) mm_inv_def by blast
  with r show ?thesis by blast
qed

lemma mm_malloc_grow:
  assumes "mm_inv s bs fl" "0 < sz" "request_fits s sz"
    and "find (\<lambda>i. req_words sz \<le> words_at bs i) fl = None"
    and "n = max (req_words sz) 1024" "coalesced bs n [] = (xs', m, ys')"
    and "gl = (6 + twords xs') # outside (6 + twords xs') m fl"
  shows "6 + twords bs + n \<le> HEAPW \<Longrightarrow> \<exists>ws s'. length ws = place_gets m (req_words sz) - 2
    \<and> mm_malloc s sz = Some (ptr (mem_start_brk s) (6 + twords xs'), s')
    \<and> mm_inv s' (xs' @ Used ws # place_rest m (req_words sz) @ ys')
        (place_list (6 + twords xs') m (req_words sz) gl) \<and> only_heap s s'"
    and "\<not> 6 + twords bs + n \<le> HEAPW \<Longrightarrow> mm_malloc s sz = Some (NULL, s)"
proof -
  have I: "listed s bs fl" "set fl = set (frees 6 bs)" "spaced bs" using assms(1) by (simp_all add: mm_inv_def)
  note G = mm_alloc.malloc_grow [OF I(1,2) assms(2,3) refl assms(4-6) refl assms(7) [unfolded outside_def],
      unfolded place_list_eq]
  show "mm_malloc s sz = Some (NULL, s)" if "\<not> 6 + twords bs + n \<le> HEAPW" using G(2) [OF that] .
  assume "6 + twords bs + n \<le> HEAPW"
  from G(1) [OF this] obtain ws s' where
    r: "length ws = place_gets m (req_words sz) - 2" "mm_malloc s sz = Some (ptr (mem_start_brk s) (6 + twords xs'), s')"
      "only_heap s s'" "listed s' (xs' @ Used ws # place_rest m (req_words sz) @ ys')
        (place_list (6 + twords xs') m (req_words sz) gl)"
      "set (place_list (6 + twords xs') m (req_words sz) gl)
        = set (frees 6 (xs' @ Used ws # place_rest m (req_words sz) @ ys'))" by blast
  have "spaced (xs' @ Free m # ys')" by (rule spaced_coalesced [OF I(3) _ assms(6)]) simp
  with r show "\<exists>ws s'. length ws = place_gets m (req_words sz) - 2
    \<and> mm_malloc s sz = Some (ptr (mem_start_brk s) (6 + twords xs'), s')
    \<and> mm_inv s' (xs' @ Used ws # place_rest m (req_words sz) @ ys')
        (place_list (6 + twords xs') m (req_words sz) gl) \<and> only_heap s s'"
    using spaced_place unfolding mm_inv_def by blast
qed

lemma mm_free_ok:
  assumes "mm_inv s (xs @ Used ws # ys) fl" "j = 6 + twords xs"
    and "coalesced xs (length ws + 2) ys = (xs', m, ys')"
  shows "\<exists>s'. mm_free s (ptr (mem_start_brk s) j) = Some s'
    \<and> mm_inv s' (xs' @ Free m # ys') ((6 + twords xs') # outside (6 + twords xs') m fl) \<and> only_heap s s'"
proof -
  have I: "listed s (xs @ Used ws # ys) fl" "set fl = set (frees 6 (xs @ Used ws # ys))" "spaced xs" "spaced ys"
    using assms(1) by (simp_all add: mm_inv_def spaced_middle)
  with mm_alloc.free_merges [OF I(1,2) assms(2,3) refl] spaced_coalesced [OF I(3,4) assms(3)]
  show ?thesis unfolding mm_inv_def outside_def by blast
qed

lemma hw_heap_listp [simp]: "hw (s\<lparr>heap_listp := x\<rparr>) = hw s"
  by (rule ext) (simp add: hw_def)

lemma geom_heap_listp [simp]: "geom (s\<lparr>heap_listp := x\<rparr>) = geom s"
  by (simp add: geom_def)

lemma heap_blocks_heap_listp [simp]: "heap_blocks (s\<lparr>heap_listp := x\<rparr>) pn bs = heap_blocks s pn bs"
  by (simp add: heap_blocks_def)

lemma mm_init_ok:
  assumes g: "geom s" and e: "mem_brk s = mem_start_brk s" and w: "unat (mem_max_addr s) + 4096 < 2 ^ 32"
  shows "\<exists>s'. mm_init s = Some (0, s') \<and> mm_inv s' [Free 1024] [6]
    \<and> mem_start_brk s' = mem_start_brk s \<and> mem_max_addr s' = mem_max_addr s"
proof -
  let ?b = "mem_start_brk s"
  let ?s0 = "s\<lparr>mem_brk := ptr ?b 6, heap_listp := ptr ?b 0\<rparr>"
  let ?s1 = "(put_word (put_word (put_word (put_word (put_word (put_word ?s0 0 0) 1 (hdr 4 True))
      2 (ptr ?b 3)) 3 (ptr ?b 2)) 4 (hdr 4 True)) 5 (hdr 0 True))\<lparr>heap_listp := ptr ?b 2\<rparr>"
  have sbrk: "mem_sbrk s (6 * WSIZE) = (ptr ?b 0, s\<lparr>mem_brk := ptr ?b 6\<rparr>)"
    using mem_sbrk_ptr [OF g, of 0 6] e w by (simp add: ptr_def bsize_def WSIZE_def HEAPW_eq)
  have g0: "geom ?s0" using geom_brk [OF g, of 6] by (simp add: HEAPW_eq)
  have p: "ptr ?b 0 + WSIZE = ptr ?b 1" "ptr ?b 0 + 2 * WSIZE = ptr ?b 2" "ptr ?b 0 + 3 * WSIZE = ptr ?b 3"
    "ptr ?b 0 + 4 * WSIZE = ptr ?b 4" "ptr ?b 0 + 5 * WSIZE = ptr ?b 5"
    by (simp_all add: ptr_def WSIZE_def)
  have t: "PACK (2 * DSIZE) 1 = hdr 4 True" "CHUNKSIZE = bsize 1024"
    by (simp_all add: PACK_def hdr_def bsize_def DSIZE_def CHUNKSIZE_def push_bit_eq_mult)
  have L: "listed ?s1 [] []"
    using g0 by (simp add: listed_def ring_def heap_blocks_def hw_put_word HEAPW_eq)
  have "mm_init s = do {
      (r, s) \<leftarrow> extend_heap ?s1 (bsize 1024 div WSIZE);
      if r = NULL then Some (- 1, s) else Some (0, s) }"
    using sbrk g0 p t ptr_not_m1 [OF g, of 0]
    by (simp add: mm_init_def Let_def heap_exec ptr_simps HEAPW_eq)
  moreover obtain s' where "extend_heap ?s1 (bsize 1024 div WSIZE) = Some (ptr ?b 6, s')"
    "mm_inv s' [Free 1024] [6]" "only_heap ?s1 s'" "ptr ?b 6 \<noteq> NULL"
    using mm_alloc.extend_first [OF L] w by (auto simp: HEAPW_eq mm_inv_def)
  ultimately show ?thesis using only_heap_bounds [of ?s1 s'] by simp
qed


section \<open>The package as an allocator with boundary tags\<close>

definition repr_mm :: "mm \<Rightarrow> (addr \<rightharpoonup> byte list) \<Rightarrow> bool" where
  "repr_mm s L \<longleftrightarrow> (\<exists>bs fl. mm_inv s bs fl \<and> L = live (mem_start_brk s) 6 bs)"

interpretation mm: list_package_realloc 4 6 listed set "\<lambda>_. (#)" filter only_heap "\<lambda>s p n. list_add s p" list_remove
  False coalesce extend_heap mm_free "\<lambda>m bs. find (\<lambda>i. m \<le> words_at bs i)" find_fit place mm_malloc
  repr_mm mm_init mm_realloc
proof unfold_locales
  show "\<exists>s' fl. mm_init s = Some (0, s') \<and> listed s' [Free 1024] fl \<and> set fl = {6} \<and> same_storage s s'"
    if "geom s" "mem_brk s = mem_start_brk s" "request_fits s 0" for s
    using mm_init_ok [OF that(1,2)] that(3) by (fastforce simp: request_fits_def same_storage_def mm_inv_def)
qed (simp_all add: repr_mm_def mm_inv_def mm_realloc_def Let_def cong: if_cong)

end
