(* ===== verification/Explicit_Facts.thy ===== *)
theory Explicit_Facts
  imports Explicit_List
begin

text \<open>
  Further facts on \<open>mm.c\<close>: the list operations are inverse to each other, and the fifteen largest request
  sizes overflow.
\<close>


section \<open>Adding and removing are inverse\<close>

lemma list_add_remove:
  assumes L: "listed s bs fl" and p: "p \<in> set (frees 6 bs)" "p \<notin> set fl"
  shows "\<exists>s1 s2. list_add s (ptr (mem_start_brk s) p) = Some s1
    \<and> list_remove s1 (ptr (mem_start_brk s) p) = Some s2
    \<and> listed s1 bs (p # fl) \<and> listed s2 bs fl \<and> only_heap s s2"
proof -
  obtain s1 where s1: "list_add s (ptr (mem_start_brk s) p) = Some s1" "listed s1 bs (p # fl)" "only_heap s s1"
    using list_add_ok [OF L p] by blast
  moreover have "mem_start_brk s1 = mem_start_brk s" using only_heap_bounds [OF s1(3)] by simp
  ultimately show ?thesis
    using list_remove_ok [of s1 bs "[]" p fl] only_heap_trans [OF s1(3)] by fastforce
qed

section \<open>Requests that overflow\<close>

text \<open>
  \<open>size + DSIZE + (DSIZE - 1)\<close> wraps round for the fifteen largest sizes, and the rounded request is 0 or 8
  bytes: the first block of the free list is taken for it, whatever its size.
\<close>

lemma asize_overflow:
  assumes "2 ^ 32 \<le> unat sz + 15"
  shows "(if sz \<le> DSIZE then 2 * DSIZE else DSIZE * ((sz + DSIZE + (DSIZE - 1)) div DSIZE))
    = bsize (2 * ((unat sz + 15 - 2 ^ 32) div 8))"
proof -
  have "\<not> sz \<le> DSIZE" using assms by (simp add: word_le_nat_alt DSIZE_def)
  moreover have "sz + DSIZE + (DSIZE - 1) = sz + 15" by (simp add: DSIZE_def)
  moreover have u: "unat (sz + 15) = unat sz + 15 - 2 ^ 32"
    using assms unat_lt32 [of sz] by (simp add: unat_word_ariths mod_if)
  then have "(sz + 15) div DSIZE = of_nat ((unat sz + 15 - 2 ^ 32) div 8)"
    using unat_lt32 [of sz] by (intro word_unat_eq_iff [THEN iffD2]) (simp add: unat_div unat_of_nat32 DSIZE_def)
  ultimately show ?thesis by (simp only: if_False) (simp add: bsize_def DSIZE_def)
qed

text \<open>\<open>list_add\<close> itself only needs words it may write.\<close>

lemma list_add_defined:
  assumes "geom s" "heap_listp s = ptr (mem_start_brk s) 2" "hw s 3 = ptr (mem_start_brk s) f"
    and "f < HEAPW" "p + 1 < HEAPW" "4 \<le> p"
  shows "\<exists>s'. list_add s (ptr (mem_start_brk s) p) = Some s'"
  using assms
  by (simp add: list_add_def SUCC_P_def SET_SUCC_P_def SET_PRED_P_def ptr_simps heap_exec HEAPW_eq)

lemma place_tiny:
  assumes L: "listed s (xs @ Free n # ys) fl" and j: "j = 6 + twords xs" "j \<in> set fl" and m: "m = 0 \<or> m = 2"
  shows "\<exists>s'. place s (ptr (mem_start_brk s) j) (bsize m) = Some s'"
proof -
  let ?b = "mem_start_brk s"
  have j2: "j = 4 + 2 + twords xs" using j by simp
  note LD = listedD [OF L]
  note D = heap_blocksD [OF LD(1)] and V = heap_block_view [OF LD(1) j2]
  have n30: "n < 2 ^ 30" using V(9,10) by (simp add: HEAPW_eq)
  obtain s1 where s1: "list_remove s (ptr ?b j) = Some s1"
    "listed s1 (xs @ Free n # ys) (filter (\<lambda>k. k \<noteq> j) fl)" "only_heap s s1"
    using list_remove_mem [OF L j(2)] by blast
  have b1: "mem_start_brk s1 = ?b" using only_heap_bounds [OF s1(3)] by simp
  note LD1 = listedD [OF s1(2)]
  note D1 = heap_blocksD [OF LD1(1)]
  define f where "f = hd (filter (\<lambda>k. k \<noteq> j) fl @ [2])"
  have f3: "hw s1 3 = ptr ?b f" using ring_succ(1) [OF LD1(5)] b1 by (simp add: f_def)
  have "f \<in> set (frees 6 (xs @ Free n # ys)) \<or> f = 2"
    using LD1(4) by (cases "filter (\<lambda>k. k \<noteq> j) fl") (auto simp: f_def)
  then have fl: "f < HEAPW" using link_index [OF LD1(1)] by fastforce
  have ix: "6 \<le> j" "even n" "4 \<le> n" "j + n \<le> HEAPW" using j V(8,9,10) by simp_all
  have sz: "GET_SIZE s (HDRP (ptr ?b j)) = Some (bsize n)"
    using D(1) V(1,6,8,10) by (simp add: ptr_simps heap_exec)
  have big: "2 * DSIZE \<le> bsize n - bsize m \<longleftrightarrow> m + 4 \<le> n"
    using m ix n30 by (auto simp: ptr_simps bsize_ge_2DSIZE)
  let ?t = "put_word (put_word (put_word (put_word s1 (j - 1) (hdr m True)) (j + m - 2) (hdr m True))
      (j + m - 1) (hdr (n - m) False)) (j + n - 2) (hdr (n - m) False)"
  let ?u = "put_word (put_word s1 (j - 1) (hdr n True)) (j + n - 2) (hdr n True)"
  have rest: "j - 1 < HEAPW" "j + m - 2 < HEAPW" "j + m - 1 < HEAPW" "j + n - 2 < HEAPW" "even m" "even (n - m)" "m \<le> n"
    using ix m by auto
  have e: "place s (ptr ?b j) (bsize m) =
      (if m + 4 \<le> n then list_add ?t (ptr ?b (j + m)) else Some ?u)"
    using m sz s1(1) big b1 D1(1) ix rest by (auto simp: place_def blk_macros ptr_simps heap_exec)
  have "\<exists>s'. list_add ?t (ptr ?b (j + m)) = Some s'" if "m + 4 \<le> n"
  proof -
    have "hw ?t 3 = ptr ?b f" using f3 ix rest m by (auto simp: hw_put_word)
    then show ?thesis
      using list_add_defined [of ?t f "j + m"] D1(1) LD1(2) b1 fl ix that by auto
  qed
  then show ?thesis using e by simp
qed

lemma mm_malloc_overflow:
  assumes I: "mm_inv s bs (i # fl)" and sz: "2 ^ 32 \<le> unat sz + 15"
  shows "\<exists>s'. mm_malloc s sz = Some (ptr (mem_start_brk s) i, s')" "ptr (mem_start_brk s) i \<noteq> NULL"
proof -
  define m where "m = 2 * ((unat sz + 15 - 2 ^ 32) div 8)"
  have "unat sz + 15 - 2 ^ 32 < 16" using unat_lt32 [of sz] by linarith
  then have m: "m = 0 \<or> m = 2" by (auto simp: m_def)
  note ID = mm_invD [OF I] note LD = listedD [OF ID(1)] and D = heap_blocksD [OF listedD(1) [OF ID(1)]]
  have "i \<in> set (frees 6 bs)" using ID(2) by auto
  then obtain xs n ys where bs: "bs = xs @ Free n # ys" "i = 6 + twords xs" using frees_split by blast
  have "words_at bs i = n" using words_at_middle [of xs "Free n" ys] D(9) bs by simp
  moreover have "4 \<le> n" using D(9) bs(1) by simp
  ultimately have "find (\<lambda>i. m \<le> words_at bs i) (i # fl) = Some i" using m by auto
  then have f: "find_fit s (bsize m) = Some (ptr (mem_start_brk s) i)"
    using find_fit_ok [OF ID(1), of m] m by auto
  have nz: "ptr (mem_start_brk s) i \<noteq> 0"
    by (rule ptr_not_NULL [OF D(1)]) (use bs D(10) in simp)
  have "sz \<noteq> 0" using sz by auto
  then have "mm_malloc s sz = do {
      t \<leftarrow> place s (ptr (mem_start_brk s) i) (bsize m);
      Some (ptr (mem_start_brk s) i, t) }"
    using nz f unfolding mm_malloc_def asize_overflow [OF sz] m_def [symmetric] by (simp add: Let_def)
  with place_tiny [OF ID(1) [unfolded bs(1)] bs(2) _ m] nz
  show "\<exists>s'. mm_malloc s sz = Some (ptr (mem_start_brk s) i, s')" "ptr (mem_start_brk s) i \<noteq> NULL" by auto
qed

end
