(* ===== verification/Implicit_List.thy ===== *)
theory Implicit_List
  imports Free_Store
begin

text \<open>
  The implicit-list allocator \<open>src/malloc/implicit-53.c\<close>: first fit over all blocks, found by
  walking the headers from the prologue, immediate coalescing by boundary tags. \<open>None\<close> is an
  access outside the storage or a loop that does not end; the lemmas show neither happens from a
  well-formed heap.
\<close>

section \<open>The code\<close>

record mm_imp = mem +
  heap_listp_imp :: addr

definition coalesce_imp :: "mm_imp \<Rightarrow> addr \<Rightarrow> (addr \<times> mm_imp) option" where
  "coalesce_imp s bp = do {
     pb \<leftarrow> PREV_BLKP s bp;
     pf \<leftarrow> FTRP s pb;
     prev_alloc \<leftarrow> GET_ALLOC s pf;
     nb \<leftarrow> NEXT_BLKP s bp;
     next_alloc \<leftarrow> GET_ALLOC s (HDRP nb);
     sz \<leftarrow> GET_SIZE s (HDRP bp);
     if prev_alloc \<noteq> 0 \<and> next_alloc \<noteq> 0 then Some (bp, s)
     else if prev_alloc \<noteq> 0 \<and> next_alloc = 0 then do {
       nb \<leftarrow> NEXT_BLKP s bp;
       nsz \<leftarrow> GET_SIZE s (HDRP nb);
       s \<leftarrow> PUT s (HDRP bp) (PACK (sz + nsz) 0);
       f \<leftarrow> FTRP s bp;
       s \<leftarrow> PUT s f (PACK (sz + nsz) 0);
       Some (bp, s) }
     else if prev_alloc = 0 \<and> next_alloc \<noteq> 0 then do {
       pb \<leftarrow> PREV_BLKP s bp;
       psz \<leftarrow> GET_SIZE s (HDRP pb);
       f \<leftarrow> FTRP s bp;
       s \<leftarrow> PUT s f (PACK (sz + psz) 0);
       pb \<leftarrow> PREV_BLKP s bp;
       s \<leftarrow> PUT s (HDRP pb) (PACK (sz + psz) 0);
       bp \<leftarrow> PREV_BLKP s bp;
       Some (bp, s) }
     else do {
       pb \<leftarrow> PREV_BLKP s bp;
       psz \<leftarrow> GET_SIZE s (HDRP pb);
       nb \<leftarrow> NEXT_BLKP s bp;
       nf \<leftarrow> FTRP s nb;
       nsz \<leftarrow> GET_SIZE s nf;
       let sz = sz + (psz + nsz);
       s \<leftarrow> PUT s (HDRP pb) (PACK sz 0);
       nb \<leftarrow> NEXT_BLKP s bp;
       nf \<leftarrow> FTRP s nb;
       s \<leftarrow> PUT s nf (PACK sz 0);
       bp \<leftarrow> PREV_BLKP s bp;
       Some (bp, s) } }"

definition extend_heap_imp :: "mm_imp \<Rightarrow> addr \<Rightarrow> (addr \<times> mm_imp) option" where
  "extend_heap_imp s words =
     (let sz = (if words mod 2 \<noteq> 0 then (words + 1) * WSIZE else words * WSIZE);
          (bp, s) = mem_sbrk s sz
      in if bp = - 1 then Some (NULL, s)
         else do {
           s \<leftarrow> PUT s (HDRP bp) (PACK sz 0);
           f \<leftarrow> FTRP s bp;
           s \<leftarrow> PUT s f (PACK sz 0);
           nb \<leftarrow> NEXT_BLKP s bp;
           s \<leftarrow> PUT s (HDRP nb) (PACK 0 1);
           coalesce_imp s bp })"

definition mm_init_imp :: "mm_imp \<Rightarrow> (int \<times> mm_imp) option" where
  "mm_init_imp s =
     (let (p, s) = mem_sbrk s (4 * WSIZE); s = s\<lparr>heap_listp_imp := p\<rparr>
      in if p = - 1 then Some (- 1, s)
         else do {
           s \<leftarrow> PUT s (heap_listp_imp s) 0;
           s \<leftarrow> PUT s (heap_listp_imp s + 1 * WSIZE) (PACK DSIZE 1);
           s \<leftarrow> PUT s (heap_listp_imp s + 2 * WSIZE) (PACK DSIZE 1);
           s \<leftarrow> PUT s (heap_listp_imp s + 3 * WSIZE) (PACK 0 1);
           let s = s\<lparr>heap_listp_imp := heap_listp_imp s + 2 * WSIZE\<rparr>;
           (r, s) \<leftarrow> extend_heap_imp s (CHUNKSIZE div WSIZE);
           if r = NULL then Some (- 1, s) else Some (0, s) })"

partial_function (option) find_fit_from_imp :: "mm_imp \<Rightarrow> addr \<Rightarrow> addr \<Rightarrow> addr option" where
  "find_fit_from_imp s asize bp = do {
     n \<leftarrow> GET_SIZE s (HDRP bp);
     if n > 0 then do {
       a \<leftarrow> GET_ALLOC s (HDRP bp);
       if a = 0 \<and> asize \<le> n then Some bp
       else do {
         nb \<leftarrow> NEXT_BLKP s bp;
         find_fit_from_imp s asize nb } }
     else Some NULL }"

definition find_fit_imp :: "mm_imp \<Rightarrow> addr \<Rightarrow> addr option" where
  "find_fit_imp s asize = find_fit_from_imp s asize (heap_listp_imp s)"

definition place_imp :: "mm_imp \<Rightarrow> addr \<Rightarrow> addr \<Rightarrow> mm_imp option" where
  "place_imp s bp asize = do {
     csize \<leftarrow> GET_SIZE s (HDRP bp);
     if csize - asize \<ge> 2 * DSIZE then do {
       s \<leftarrow> PUT s (HDRP bp) (PACK asize 1);
       f \<leftarrow> FTRP s bp;
       s \<leftarrow> PUT s f (PACK asize 1);
       bp \<leftarrow> NEXT_BLKP s bp;
       s \<leftarrow> PUT s (HDRP bp) (PACK (csize - asize) 0);
       f \<leftarrow> FTRP s bp;
       PUT s f (PACK (csize - asize) 0) }
     else do {
       s \<leftarrow> PUT s (HDRP bp) (PACK csize 1);
       f \<leftarrow> FTRP s bp;
       PUT s f (PACK csize 1) } }"

definition mm_malloc_imp :: "mm_imp \<Rightarrow> addr \<Rightarrow> (addr \<times> mm_imp) option" where
  "mm_malloc_imp s sz =
     (if sz = 0 then Some (NULL, s)
      else let asize = (if sz \<le> DSIZE then 2 * DSIZE
                        else DSIZE * ((sz + DSIZE + (DSIZE - 1)) div DSIZE)) in
      do {
        bp \<leftarrow> find_fit_imp s asize;
        if bp \<noteq> NULL then do {
          s \<leftarrow> place_imp s bp asize;
          Some (bp, s) }
        else do {
          let extendsize = MAX_C asize CHUNKSIZE;
          (bp, s) \<leftarrow> extend_heap_imp s (extendsize div WSIZE);
          if bp = NULL then Some (NULL, s)
          else do {
            s \<leftarrow> place_imp s bp asize;
            Some (bp, s) } } })"

definition mm_free_imp :: "mm_imp \<Rightarrow> addr \<Rightarrow> mm_imp option" where
  "mm_free_imp s bp = do {
     sz \<leftarrow> GET_SIZE s (HDRP bp);
     s \<leftarrow> PUT s (HDRP bp) (PACK sz 0);
     f \<leftarrow> FTRP s bp;
     s \<leftarrow> PUT s f (PACK sz 0);
     (_, s) \<leftarrow> coalesce_imp s bp;
     Some s }"

definition mm_realloc_imp :: "mm_imp \<Rightarrow> addr \<Rightarrow> addr \<Rightarrow> (addr \<times> mm_imp) option" where
  "mm_realloc_imp s oldptr sz = do {
     (newptr, s) \<leftarrow> mm_malloc_imp s sz;
     if newptr = NULL then Some (NULL, s)
     else do {
       copySize \<leftarrow> GET_SIZE s (HDRP oldptr);
       let copySize = (if sz < copySize then sz else copySize);
       s \<leftarrow> memcpy s newptr oldptr copySize;
       s \<leftarrow> mm_free_imp s oldptr;
       Some (newptr, s) } }"

section \<open>Coalescing\<close>

lemma coalesce_imp_TT:
  assumes "nbhd s j p True n False q True"
  shows "coalesce_imp s (ptr (mem_start_brk s) j) = Some (ptr (mem_start_brk s) j, s)"
  using nbhdD [OF assms] by (simp add: coalesce_imp_def blk_macros ptr_simps heap_exec)

lemma coalesce_imp_TF:
  assumes "nbhd s j p True n False q False"
  shows "coalesce_imp s (ptr (mem_start_brk s) j) = Some (ptr (mem_start_brk s) j, 
      put_word (put_word s (j - 1) (hdr (n + q) False)) (j + n + q - 2) (hdr (n + q) False))"
  using nbhdD [OF assms] by (simp add: coalesce_imp_def blk_macros ptr_simps heap_exec add.assoc)

lemma coalesce_imp_FT:
  assumes "nbhd s j p False n False q True"
  shows "coalesce_imp s (ptr (mem_start_brk s) j) = Some (ptr (mem_start_brk s) (j - p), 
      put_word (put_word s (j + n - 2) (hdr (n + p) False)) (j - p - 1) (hdr (n + p) False))"
  using nbhdD [OF assms] by (simp add: coalesce_imp_def blk_macros ptr_simps heap_exec add.assoc)

lemma coalesce_imp_FF:
  assumes "nbhd s j p False n False q False"
  shows "coalesce_imp s (ptr (mem_start_brk s) j) = Some (ptr (mem_start_brk s) (j - p), 
      put_word (put_word s (j - p - 1) (hdr (n + (p + q)) False)) (j + n + q - 2) (hdr (n + (p + q)) False))"
  using nbhdD [OF assms] by (simp add: coalesce_imp_def blk_macros ptr_simps heap_exec add.assoc Let_def)

section \<open>Finding and placing a block\<close>

lemma find_fit_from_imp_ok:
  assumes "heap_blocks s 2 (xs @ ys)" "m < 2 ^ 30"
  shows "find_fit_from_imp s (bsize m) (ptr (mem_start_brk s) (4 + twords xs))
    = Some (opt_ptr (mem_start_brk s) (first_fit m (4 + twords xs) ys))"
  using assms
proof (induction ys arbitrary: xs)
  case Nil
  note D = heap_blocksD [OF Nil.prems(1)]
  have "hw s (3 + twords xs) = hdr 0 True" using D(7) by (simp add: numeral_3_eq_3)
  with D show ?case
    by (subst find_fit_from_imp.simps) (simp add: ptr_simps heap_exec bsize_def)
next
  case (Cons b ys)
  let ?j = "4 + twords xs"
  have j: "?j = 2 + 2 + twords xs" by simp
  note D = heap_blocksD [OF Cons.prems(1)] and V = heap_block_view [OF Cons.prems(1) j]
  have b30: "bwords b < 2 ^ 30" using V(9,10) by (simp add: HEAPW_eq)
  have rec: "find_fit_from_imp s (bsize m) (ptr (mem_start_brk s) (?j + bwords b))
    = Some (opt_ptr (mem_start_brk s) (first_fit m (?j + bwords b) ys))"
    using Cons.IH [of "xs @ [b]"] Cons.prems by (simp add: add.assoc)
  have hb: "hw s (3 + twords xs) = btag b" using V(1) by simp
  have "bsize m \<le> bsize (bwords b) \<longleftrightarrow> m \<le> bwords b"
    using b30 Cons.prems(2) by (rule bsize_le_iff [rotated])
  with D(1) V(4-) b30 hb rec bsize_pos [of "bwords b"] show ?case
    by (subst find_fit_from_imp.simps)
      (simp add: blk_macros ptr_simps heap_exec btag_def)
qed

section \<open>The package\<close>

lemma heap_listp_frame: "only_heap s s' \<Longrightarrow> heap_listp_imp s' = heap_listp_imp s"
  by (drule only_heap_def [THEN iffD1, THEN arg_cong, of _ _ heap_listp_imp]) simp

lemma find_fit_imp_ok:
  assumes H: "heap_blocks s 2 bs" and h: "heap_listp_imp s = ptr (mem_start_brk s) 2" and m: "m < 2 ^ 30"
  shows "find_fit_imp s (bsize m) = Some (opt_ptr (mem_start_brk s) (first_fit m 4 bs))"
proof -
  note D = heap_blocksD [OF H]
  have "find_fit_from_imp s (bsize m) (ptr (mem_start_brk s) 4)
    = Some (opt_ptr (mem_start_brk s) (first_fit m 4 bs))"
    using find_fit_from_imp_ok [of s "[]" bs m] H m by simp
  moreover have "hw s (Suc 0) = hdr 2 True" using D(4) by simp
  ultimately show ?thesis
    unfolding find_fit_imp_def h using D(1,10) bsize_pos [of 2]
    by (subst find_fit_from_imp.simps) (simp add: blk_macros ptr_simps heap_exec)
qed

section \<open>The interface\<close>

text \<open>
  There is no list: the free blocks are found by their tags, and \<open>F\<close> only names them. \<open>tiled_imp\<close> is all that
  merging needs; the search also needs \<open>heap_listp\<close>.
\<close>

definition tiled_imp :: "mm_imp \<Rightarrow> blk list \<Rightarrow> nat set \<Rightarrow> bool" where
  "tiled_imp s bs F \<longleftrightarrow> heap_blocks s 2 bs \<and> F \<subseteq> set (frees 4 bs)"

definition listed_imp :: "mm_imp \<Rightarrow> blk list \<Rightarrow> nat set \<Rightarrow> bool" where
  "listed_imp s bs F \<longleftrightarrow> heap_blocks s 2 bs \<and> heap_listp_imp s = ptr (mem_start_brk s) 2 \<and> F \<subseteq> set (frees 4 bs)"

interpretation imp_tiles: free_list 2 4 tiled_imp "\<lambda>F. F" "\<lambda>_. insert" "\<lambda>P F. {k \<in> F. P k}" only_heap
  "\<lambda>s p n. Some s" "\<lambda>s p. Some s"
  by unfold_locales (auto simp: tiled_imp_def same_storage_def only_heap_bounds intro: only_heap_trans)

interpretation imp_list: free_list 2 4 listed_imp "\<lambda>F. F" "\<lambda>_. insert" "\<lambda>P F. {k \<in> F. P k}" only_heap
  "\<lambda>s p n. Some s" "\<lambda>s p. Some s"
  by unfold_locales (auto simp: listed_imp_def same_storage_def only_heap_bounds heap_listp_frame intro: only_heap_trans)

lemma coalesce_imp_code:
  assumes N: "nbhd s j p pa n False q qa"
    and u: "unlinks (\<lambda>s p. Some s) (\<lambda>u. nbhd u j p pa n False q qa) (neighbours False pa (j - p) qa (j + n)) s u"
    and i: "i = (if pa then j else j - p)" and m: "m = (if pa then 0 else p) + n + (if qa then 0 else q)"
  shows "\<exists>t. (if pa \<and> qa then t = u else retagged u i m t)
    \<and> coalesce_imp s (ptr (mem_start_brk s) j) = do {
        s' \<leftarrow> Some t; Some (ptr (mem_start_brk s) i, s') }"
proof -
  note ND = nbhdD(7) [OF N]
  have u: "u = s" using u by (cases pa; cases qa) (simp_all add: neighbours_def)
  consider "pa" "qa" | "pa" "\<not> qa" | "\<not> pa" "qa" | "\<not> pa" "\<not> qa" by blast
  then show ?thesis
  proof cases
    case 1
    then show ?thesis using N u i coalesce_imp_TT by auto
  next
    case 2
    with N coalesce_imp_TF [of s j p n q] i m show ?thesis by (simp add: retagged_def u add.assoc)
  next
    case 3
    moreover have "j + n - 2 = i + m - 2" "m = n + p" using 3 i m ND by simp_all
    ultimately show ?thesis using N coalesce_imp_FT [of s j p n q] i by (simp add: retagged_def u)
  next
    case 4
    moreover have "j + n + q - 2 = i + m - 2" "m = n + (p + q)" using 4 i m ND by simp_all
    ultimately show ?thesis using N coalesce_imp_FF [of s j p n q] i by (simp add: retagged_def u)
  qed
qed

lemma place_imp_ok:
  assumes L: "listed_imp s (xs @ Free n # ys) F" and j: "j = 4 + twords xs" and jF: "j \<in> F"
    and m: "even m" "4 \<le> m" "m \<le> n"
  shows "\<exists>s' ws. place_imp s (ptr (mem_start_brk s) j) (bsize m) = Some s'
    \<and> length ws = place_gets n m - 2 \<and> only_heap s s'
    \<and> listed_imp s' (xs @ Used ws # place_rest n m @ ys)
        (if m + 4 \<le> n then insert (j + m) {k \<in> F. k \<noteq> j} else {k \<in> F. k \<noteq> j})"
proof -
  have H: "heap_blocks s 2 (xs @ Free n # ys)" using L by (simp add: listed_imp_def)
  have j2: "j = 2 + 2 + twords xs" using j by simp
  note D = heap_blocksD [OF H] and V = heap_block_view [OF H j2]
  have n30: "n < 2 ^ 30" using V(9,10) by (simp add: HEAPW_eq)
  then have big: "2 * DSIZE \<le> bsize n - bsize m \<longleftrightarrow> m + 4 \<le> n"
    using m by (simp add: ptr_simps bsize_ge_2DSIZE) linarith
  obtain s' ws where s': "(if m + 4 \<le> n then Some (tag_split s j m n) else Some (tag_whole s j n)) = Some s'"
    "length ws = place_gets n m - 2" "only_heap s s'" "listed_imp s' (xs @ Used ws # place_rest n m @ ys)
      (if m + 4 \<le> n then insert (j + m) {k \<in> F. k \<noteq> j} else {k \<in> F. k \<noteq> j})"
    by (rule imp_list.remove_place [OF L j jF m]) auto
  have "place_imp s (ptr (mem_start_brk s) j) (bsize m)
      = (if m + 4 \<le> n then Some (tag_split s j m n) else Some (tag_whole s j n))"
    using D(1) V big m
    by (simp add: place_imp_def blk_macros ptr_simps heap_exec tag_split_def tag_whole_def)
  with s' show ?thesis by auto
qed

lemma extend_heap_imp_code:
  "even n \<Longrightarrow> n < 2 ^ 30 \<Longrightarrow> extend_heap_imp s (bsize n div WSIZE) =
    (let (bp, s) = mem_sbrk s (bsize n)
     in if bp = - 1 then Some (NULL, s)
        else do {
          s \<leftarrow> PUT s (HDRP bp) (PACK (bsize n) 0);
          f \<leftarrow> FTRP s bp;
          s \<leftarrow> PUT s f (PACK (bsize n) 0);
          nb \<leftarrow> NEXT_BLKP s bp;
          s \<leftarrow> PUT s (HDRP nb) (PACK 0 1);
          coalesce_imp s bp })"
  by (simp only: extend_heap_imp_def even_words_size Let_def)

interpretation imp_merge: coalescing_list 2 4 tiled_imp "\<lambda>F. F" "\<lambda>_. insert" "\<lambda>P F. {k \<in> F. P k}" only_heap
  "\<lambda>s p n. Some s" "\<lambda>s p. Some s" False coalesce_imp extend_heap_imp mm_free_imp
  by unfold_locales ((rule coalesce_imp_code; assumption), (rule extend_heap_imp_code; assumption), simp_all add: mm_free_imp_def)

interpretation imp_alloc: list_allocator 2 4 listed_imp "\<lambda>F. F" "\<lambda>_. insert" "\<lambda>P F. {k \<in> F. P k}" only_heap
  "\<lambda>s p n. Some s" "\<lambda>s p. Some s" False coalesce_imp extend_heap_imp mm_free_imp
  "\<lambda>m bs F. first_fit m 4 bs" find_fit_imp place_imp mm_malloc_imp
proof unfold_locales
  fix s :: mm_imp and xs ys bs F j n m p pa q qa u i and sz r :: addr and bp :: addr
  show "find_fit_imp s (bsize m) = Some (opt_ptr (mem_start_brk s) (first_fit m 4 bs))"
    if "listed_imp s bs F" "m < 2 ^ 30" using that by (simp add: listed_imp_def find_fit_imp_ok)
  show "i \<in> F \<and> m \<le> block_words 4 bs i"
    if L: "listed_imp s bs F" "F = set (frees 4 bs)" and f: "first_fit m 4 bs = Some i"
  proof -
    obtain xs n ys where "bs = xs @ Free n # ys" "i = 4 + twords xs" "m \<le> n"
      using first_fit_Some [OF f] by blast
    then show ?thesis
      using L block_words_middle [of xs 4 "Free n" ys] by (auto simp: listed_imp_def heap_blocks_def)
  qed
  show "\<exists>s' ws. place_imp s (ptr (mem_start_brk s) j) (bsize m) = Some s'
      \<and> length ws = place_gets n m - 2 \<and> only_heap s s'
      \<and> listed_imp s' (xs @ Used ws # place_rest n m @ ys)
          (if m + 4 \<le> n then insert (j + m) {k \<in> F. k \<noteq> j} else {k \<in> F. k \<noteq> j})"
    if "listed_imp s (xs @ Free n # ys) F" "j = 4 + twords xs" "j \<in> F" "even m" "4 \<le> m" "m \<le> n"
    using that by (rule place_imp_ok)
  show "mm_malloc_imp s sz = do {
      bp \<leftarrow> find_fit_imp s r;
      if bp \<noteq> NULL then do { s \<leftarrow> place_imp s bp r; Some (bp, s) }
      else do {
        (bp, s) \<leftarrow> extend_heap_imp s (MAX_C r CHUNKSIZE div WSIZE);
        if bp = NULL then Some (NULL, s)
        else do { s \<leftarrow> place_imp s bp r; Some (bp, s) } } }"
    if "0 < sz" "unat sz + 15 < 2 ^ 32" "r = bsize (req_words sz)"
    using word_gt_0 [of sz, THEN iffD1, OF that(1)]
    unfolding mm_malloc_imp_def Let_def asize_eq [OF that(1,2)] that(3) by simp
qed ((rule coalesce_imp_code; assumption), (rule extend_heap_imp_code; assumption), simp_all add: mm_free_imp_def)

lemma listed_imp_all:
  "heap_blocks s 2 bs \<Longrightarrow> heap_listp_imp s = ptr (mem_start_brk s) 2 \<Longrightarrow> listed_imp s bs (set (frees 4 bs))"
  by (simp add: listed_imp_def)

lemma mm_malloc_imp_fit:
  assumes "heap_blocks s 2 bs" "heap_listp_imp s = ptr (mem_start_brk s) 2"
    and sz: "0 < sz" "request_fits s sz" and f: "first_fit (req_words sz) 4 bs = Some i"
  shows "\<exists>xs n ys ws s'. bs = xs @ Free n # ys \<and> i = 4 + twords xs \<and> req_words sz \<le> n
    \<and> length ws = place_gets n (req_words sz) - 2
    \<and> mm_malloc_imp s sz = Some (ptr (mem_start_brk s) i, s')
    \<and> heap_blocks s' 2 (xs @ Used ws # place_rest n (req_words sz) @ ys) \<and> only_heap s s'"
  using imp_alloc.malloc_fit [OF listed_imp_all [OF assms(1,2)] refl sz refl f] unfolding listed_imp_def by blast

lemma mm_free_imp_ok:
  assumes H: "heap_blocks s 2 (xs @ Used ws # ys)" and j: "j = 4 + twords xs"
    and c: "coalesced xs (length ws + 2) ys = (xs', m, ys')"
  shows "\<exists>s'. mm_free_imp s (ptr (mem_start_brk s) j) = Some s'
    \<and> heap_blocks s' 2 (xs' @ Free m # ys') \<and> only_heap s s'"
proof -
  have "tiled_imp s (xs @ Used ws # ys) (set (frees 4 (xs @ Used ws # ys)))" using H by (simp add: tiled_imp_def)
  from imp_merge.free_merges [OF this refl j c refl] show ?thesis unfolding tiled_imp_def by blast
qed

lemma hw_listp [simp]: "hw (s\<lparr>heap_listp_imp := x\<rparr>) = hw s"
  by (rule ext) (simp add: hw_def)

lemma geom_listp [simp]: "geom (s\<lparr>heap_listp_imp := x\<rparr>) = geom s"
  by (simp add: geom_def)

lemma heap_blocks_listp [simp]: "heap_blocks (s\<lparr>heap_listp_imp := x\<rparr>) pn bs = heap_blocks s pn bs"
  by (simp add: heap_blocks_def)

lemma listp_put_word [simp]: "heap_listp_imp (put_word s i v) = heap_listp_imp s"
  by (simp add: put_word_def)

lemma mm_init_imp_ok:
  assumes g: "geom s" and e: "mem_brk s = mem_start_brk s" and w: "unat (mem_max_addr s) + 4096 < 2 ^ 32"
  shows "\<exists>s'. mm_init_imp s = Some (0, s') \<and> heap_blocks s' 2 [Free 1024]
    \<and> heap_listp_imp s' = ptr (mem_start_brk s') 2
    \<and> mem_start_brk s' = mem_start_brk s \<and> mem_max_addr s' = mem_max_addr s"
proof -
  let ?b = "mem_start_brk s"
  let ?s0 = "s\<lparr>mem_brk := ptr ?b 4, heap_listp_imp := ptr ?b 0\<rparr>"
  let ?s1 = "(put_word (put_word (put_word (put_word ?s0 0 0) 1 (hdr 2 True)) 2 (hdr 2 True)) 3 (hdr 0 True))
    \<lparr>heap_listp_imp := ptr ?b 2\<rparr>"
  have sbrk: "mem_sbrk s (4 * WSIZE) = (ptr ?b 0, s\<lparr>mem_brk := ptr ?b 4\<rparr>)"
    using mem_sbrk_ptr [OF g, of 0 4] e w by (simp add: ptr_def bsize_def WSIZE_def HEAPW_eq)
  have g0: "geom ?s0" using geom_brk [OF g, of 4] by (simp add: HEAPW_eq)
  have p: "ptr ?b 0 + WSIZE = ptr ?b 1" "ptr ?b 0 + 2 * WSIZE = ptr ?b 2" "ptr ?b 0 + 3 * WSIZE = ptr ?b 3"
    by (simp_all add: ptr_def WSIZE_def)
  have t: "PACK DSIZE 1 = hdr 2 True" "CHUNKSIZE = bsize 1024"
    by (simp_all add: PACK_def hdr_def bsize_def DSIZE_def CHUNKSIZE_def push_bit_eq_mult)
  have L: "listed_imp ?s1 [] {}"
    using g0 by (simp add: listed_imp_def heap_blocks_def hw_put_word HEAPW_eq)
  have "mm_init_imp s = do {
      (r, s) \<leftarrow> extend_heap_imp ?s1 (bsize 1024 div WSIZE);
      if r = NULL then Some (- 1, s) else Some (0, s) }"
    using sbrk g0 p t ptr_not_m1 [OF g, of 0]
    by (simp add: mm_init_imp_def Let_def heap_exec ptr_simps HEAPW_eq)
  moreover obtain s' where "extend_heap_imp ?s1 (bsize 1024 div WSIZE) = Some (ptr ?b 4, s')"
    "listed_imp s' [Free 1024] {4}" "only_heap ?s1 s'" "ptr ?b 4 \<noteq> NULL"
    using imp_alloc.extend_first [OF L] w by (auto simp: HEAPW_eq)
  ultimately show ?thesis using only_heap_bounds [of ?s1 s'] by (simp add: listed_imp_def)
qed

section \<open>The package as an allocator with boundary tags\<close>

text \<open>
  The blocks tile the heap and no two free ones are neighbours, \<open>heap_listp\<close> is the prologue, the
  client holds \<open>L\<close>.
\<close>

definition repr_imp :: "mm_imp \<Rightarrow> (addr \<rightharpoonup> byte list) \<Rightarrow> bool" where
  "repr_imp s L \<longleftrightarrow> (\<exists>bs. heap_blocks s 2 bs \<and> spaced bs \<and> heap_listp_imp s = ptr (mem_start_brk s) 2
     \<and> L = live (mem_start_brk s) 4 bs)"

interpretation imp: list_package_realloc 2 4 listed_imp "\<lambda>F. F" "\<lambda>_. insert" "\<lambda>P F. {k \<in> F. P k}" only_heap
  "\<lambda>s p n. Some s" "\<lambda>s p. Some s" False coalesce_imp extend_heap_imp mm_free_imp "\<lambda>m bs F. first_fit m 4 bs" find_fit_imp
  place_imp mm_malloc_imp repr_imp mm_init_imp mm_realloc_imp
proof unfold_locales
  show "\<exists>s' F. mm_init_imp s = Some (0, s') \<and> listed_imp s' [Free 1024] F \<and> F = {4} \<and> same_storage s s'"
    if "geom s" "mem_brk s = mem_start_brk s" "request_fits s 0" for s
    using mm_init_imp_ok [OF that(1,2)] that(3) by (fastforce simp: request_fits_def same_storage_def listed_imp_def)
qed (auto simp: repr_imp_def listed_imp_def mm_realloc_imp_def Let_def cong: if_cong)

end
