(* ===== verification/Refer_List.thy ===== *)
theory Refer_List
  imports Malloc_Interface
begin

text \<open>
  The explicit-list allocator \<open>src/malloc/refer/refer.c\<close>: \<open>free_listp\<close> points at the first free block,
  the links run through the first two payload words, and the list ends at the prologue, whose tag says
  allocated. Blocks enter at the front; the search is first fit along the list.
\<close>

section \<open>The code\<close>

record mm_ref = mem +
  free_listp :: addr

definition add_block_ref :: "mm_ref \<Rightarrow> addr \<Rightarrow> mm_ref option" where
  "add_block_ref s bp = do {
     s \<leftarrow> SET_SUCC_P s bp (free_listp s);
     s \<leftarrow> SET_PRED_P s bp NULL;
     s \<leftarrow> SET_PRED_P s (free_listp s) bp;
     Some (s\<lparr>free_listp := bp\<rparr>) }"

definition remove_block_ref :: "mm_ref \<Rightarrow> addr \<Rightarrow> mm_ref option" where
  "remove_block_ref s bp =
     (if bp = free_listp s then do {
        n \<leftarrow> SUCC_P s bp;
        s \<leftarrow> SET_PRED_P s n NULL;
        n \<leftarrow> SUCC_P s bp;
        Some (s\<lparr>free_listp := n\<rparr>) }
      else do {
        n \<leftarrow> SUCC_P s bp;
        p \<leftarrow> PRED_P s bp;
        s \<leftarrow> SET_PRED_P s n p;
        p \<leftarrow> PRED_P s bp;
        n \<leftarrow> SUCC_P s bp;
        SET_SUCC_P s p n })"

definition coalesce_ref :: "mm_ref \<Rightarrow> addr \<Rightarrow> (addr \<times> mm_ref) option" where
  "coalesce_ref s bp = do {
     pb \<leftarrow> PREV_BLKP s bp;
     pf \<leftarrow> FTRP s pb;
     prev_alloc \<leftarrow> GET_ALLOC s pf;
     nb \<leftarrow> NEXT_BLKP s bp;
     next_alloc \<leftarrow> GET_ALLOC s (HDRP nb);
     sz \<leftarrow> GET_SIZE s (HDRP bp);
     (bp, s) \<leftarrow>
       (if prev_alloc \<noteq> 0 \<and> next_alloc \<noteq> 0 then Some (bp, s)
        else if prev_alloc \<noteq> 0 \<and> next_alloc = 0 then do {
          nb \<leftarrow> NEXT_BLKP s bp;
          nsz \<leftarrow> GET_SIZE s (HDRP nb);
          s \<leftarrow> remove_block_ref s nb;
          s \<leftarrow> PUT s (HDRP bp) (PACK (sz + nsz) 0);
          f \<leftarrow> FTRP s bp;
          s \<leftarrow> PUT s f (PACK (sz + nsz) 0);
          Some (bp, s) }
        else if prev_alloc = 0 \<and> next_alloc \<noteq> 0 then do {
          pb \<leftarrow> PREV_BLKP s bp;
          psz \<leftarrow> GET_SIZE s (HDRP pb);
          s \<leftarrow> remove_block_ref s pb;
          f \<leftarrow> FTRP s bp;
          s \<leftarrow> PUT s f (PACK (sz + psz) 0);
          pb \<leftarrow> PREV_BLKP s bp;
          s \<leftarrow> PUT s (HDRP pb) (PACK (sz + psz) 0);
          bp \<leftarrow> PREV_BLKP s bp;
          Some (bp, s) }
        else do {
          pb \<leftarrow> PREV_BLKP s bp;
          psz \<leftarrow> GET_SIZE s (HDRP pb);
          nb \<leftarrow> NEXT_BLKP s bp;
          nf \<leftarrow> FTRP s nb;
          nsz \<leftarrow> GET_SIZE s nf;
          let sz = sz + (psz + nsz);
          s \<leftarrow> remove_block_ref s nb;
          pb \<leftarrow> PREV_BLKP s bp;
          s \<leftarrow> remove_block_ref s pb;
          pb \<leftarrow> PREV_BLKP s bp;
          s \<leftarrow> PUT s (HDRP pb) (PACK sz 0);
          nb \<leftarrow> NEXT_BLKP s bp;
          nf \<leftarrow> FTRP s nb;
          s \<leftarrow> PUT s nf (PACK sz 0);
          bp \<leftarrow> PREV_BLKP s bp;
          Some (bp, s) });
     s \<leftarrow> add_block_ref s bp;
     Some (bp, s) }"

definition extend_heap_ref :: "mm_ref \<Rightarrow> addr \<Rightarrow> (addr \<times> mm_ref) option" where
  "extend_heap_ref s words =
     (let sz = (if words AND 1 \<noteq> 0 then (words + 1) * WSIZE else words * WSIZE);
          (bp, s) = mem_sbrk s sz
      in if bp = - 1 then Some (NULL, s)
         else do {
           s \<leftarrow> PUT s (HDRP bp) (PACK sz 0);
           f \<leftarrow> FTRP s bp;
           s \<leftarrow> PUT s f (PACK sz 0);
           nb \<leftarrow> NEXT_BLKP s bp;
           s \<leftarrow> PUT s (HDRP nb) (PACK 0 1);
           coalesce_ref s bp })"

definition mm_init_ref :: "mm_ref \<Rightarrow> (int \<times> mm_ref) option" where
  "mm_init_ref s =
     (let (heap_listp, s) = mem_sbrk s (WSIZE * 6)
      in if heap_listp = - 1 then Some (- 1, s)
         else do {
           s \<leftarrow> PUT s heap_listp 0;
           s \<leftarrow> PUT s (heap_listp + WSIZE) (PACK (4 * WSIZE) 1);
           s \<leftarrow> PUT s (heap_listp + 2 * WSIZE) (PACK 0 0);
           s \<leftarrow> PUT s (heap_listp + 3 * WSIZE) (PACK 0 0);
           s \<leftarrow> PUT s (heap_listp + 4 * WSIZE) (PACK (4 * WSIZE) 1);
           s \<leftarrow> PUT s (heap_listp + 5 * WSIZE) (PACK 0 1);
           let s = s\<lparr>free_listp := heap_listp + 2 * WSIZE\<rparr>;
           (r, s) \<leftarrow> extend_heap_ref s (CHUNKSIZE div WSIZE);
           if r = NULL then Some (- 1, s) else Some (0, s) })"

partial_function (option) find_fit_first_from :: "mm_ref \<Rightarrow> addr \<Rightarrow> addr \<Rightarrow> addr option" where
  "find_fit_first_from s asize bp = do {
     a \<leftarrow> GET_ALLOC s (HDRP bp);
     if a = 0 then do {
       n \<leftarrow> GET_SIZE s (HDRP bp);
       if asize \<le> n then Some bp
       else do {
         q \<leftarrow> SUCC_P s bp;
         find_fit_first_from s asize q } }
     else Some NULL }"

definition find_fit_first :: "mm_ref \<Rightarrow> addr \<Rightarrow> addr option" where
  "find_fit_first s asize = find_fit_first_from s asize (free_listp s)"

definition place_ref :: "mm_ref \<Rightarrow> addr \<Rightarrow> addr \<Rightarrow> mm_ref option" where
  "place_ref s bp asize = do {
     block_size \<leftarrow> GET_SIZE s (HDRP bp);
     if block_size - asize \<ge> 2 * DSIZE then do {
       s \<leftarrow> PUT s (HDRP bp) (PACK asize 1);
       f \<leftarrow> FTRP s bp;
       s \<leftarrow> PUT s f (PACK asize 1);
       bp \<leftarrow> NEXT_BLKP s bp;
       s \<leftarrow> PUT s (HDRP bp) (PACK (block_size - asize) 0);
       f \<leftarrow> FTRP s bp;
       s \<leftarrow> PUT s f (PACK (block_size - asize) 0);
       add_block_ref s bp }
     else do {
       s \<leftarrow> PUT s (HDRP bp) (PACK block_size 1);
       f \<leftarrow> FTRP s bp;
       PUT s f (PACK block_size 1) } }"

definition mm_malloc_ref :: "mm_ref \<Rightarrow> addr \<Rightarrow> (addr \<times> mm_ref) option" where
  "mm_malloc_ref s sz =
     (let newsize = ALIGN (sz + DSIZE);
          extendsize = MAX_C newsize CHUNKSIZE
      in if sz = 0 then Some (NULL, s)
         else do {
           bp \<leftarrow> find_fit_first s newsize;
           if bp \<noteq> NULL then do {
             s \<leftarrow> place_ref s bp newsize;
             s \<leftarrow> remove_block_ref s bp;
             Some (bp, s) }
           else do {
             (bp, s) \<leftarrow> extend_heap_ref s (extendsize div WSIZE);
             if bp = NULL then Some (NULL, s)
             else do {
               s \<leftarrow> place_ref s bp newsize;
               s \<leftarrow> remove_block_ref s bp;
               Some (bp, s) } } })"

definition mm_free_ref :: "mm_ref \<Rightarrow> addr \<Rightarrow> mm_ref option" where
  "mm_free_ref s p = do {
     sz \<leftarrow> GET_SIZE s (HDRP p);
     s \<leftarrow> PUT s (HDRP p) (PACK sz 0);
     f \<leftarrow> FTRP s p;
     s \<leftarrow> PUT s f (PACK sz 0);
     (_, s) \<leftarrow> coalesce_ref s p;
     Some s }"

definition mm_realloc_ref :: "mm_ref \<Rightarrow> addr \<Rightarrow> addr \<Rightarrow> (addr \<times> mm_ref) option" where
  "mm_realloc_ref s p sz = do {
     (newptr, s) \<leftarrow> mm_malloc_ref s sz;
     if newptr = NULL then Some (NULL, s)
     else do {
       copySize \<leftarrow> GET_SIZE s (HDRP p);
       let copySize = (if sz < copySize then sz else copySize);
       s \<leftarrow> memcpy s newptr p copySize;
       s \<leftarrow> mm_free_ref s p;
       Some (newptr, s) } }"

end
