(* ===== verification/Refer_Facts.thy ===== *)
theory Refer_Facts
  imports Malloc_Interface Free_Store Link_Words Refer_List
begin

text \<open>
  Correctness of \<open>src/malloc/refer/refer.c\<close>: its list is a chain of free blocks that ends at the prologue, its two
  list operations keep the contract \<open>free_list\<close>, and the package that of \<open>mm.h\<close>.
\<close>

section \<open>The list as a chain of block indices\<close>

text \<open>The first member has predecessor NULL, the last one the prologue (word 2) for successor.\<close>

definition nlist :: "(nat \<Rightarrow> 32 word) \<Rightarrow> addr \<Rightarrow> addr \<Rightarrow> nat list \<Rightarrow> bool" where
  "nlist h b first fl \<longleftrightarrow> chain h b (fl @ [2]) \<and> first = ptr b (hd (fl @ [2])) \<and> h (hd (fl @ [2])) = 0"

lemma nlist_cong:
  assumes "\<And>x. x \<in> set fl \<Longrightarrow> h x = h' x \<and> h (Suc x) = h' (Suc x)" "h 2 = h' 2"
  shows "nlist h b first fl \<longleftrightarrow> nlist h' b first fl"
proof -
  have "chain h b (fl @ [2]) \<longleftrightarrow> chain h' b (fl @ [2])"
  proof (rule chain_cong)
    show "h (Suc x) = h' (Suc x)" if "x \<in> set (butlast (fl @ [2]))" for x using that assms by simp
    have "set (tl (fl @ [2])) \<subseteq> set fl \<union> {2}" by (cases fl) auto
    then show "h y = h' y" if "y \<in> set (tl (fl @ [2]))" for y using that assms by blast
  qed
  moreover have "h (hd (fl @ [2])) = h' (hd (fl @ [2]))" using assms by (cases fl) auto
  ultimately show ?thesis by (simp add: nlist_def)
qed

lemma nlist_succ: "nlist h b first (us @ v # vs) \<Longrightarrow> h (Suc v) = ptr b (hd (vs @ [2]))"
  by (cases vs) (simp_all add: nlist_def chain_middle)

lemma nlist_pred: "nlist h b first (us @ v # vs) \<Longrightarrow> us \<noteq> [] \<Longrightarrow> h v = ptr b (last us)"
  by (cases us rule: rev_cases) (simp_all add: nlist_def chain_middle)

lemma ends_at_2:
  fixes vs :: "nat list"
  assumes "distinct vs" "\<forall>x \<in> set vs. even x \<and> 2 < x"
  obtains zs where "vs @ [2] = hd (vs @ [2]) # zs" "\<forall>k \<in> set (hd (vs @ [2]) # zs). even k"
    "set (hd (vs @ [2]) # zs) = insert 2 (set vs)" "hd (vs @ [2]) \<notin> set zs"
  using assms by (cases vs) (auto simp: insert_commute)

lemma nlist_add:
  assumes r: "nlist h b first fl" and d: "distinct fl" "p \<notin> set fl" "\<forall>x \<in> set (p # fl). even x \<and> 2 < x"
  shows "nlist (h(Suc p := first, p := 0, hd (fl @ [2]) := ptr b p)) b (ptr b p) (p # fl)"
proof -
  define y where "y = hd (fl @ [2])"
  obtain zs where z: "fl @ [2] = y # zs" "\<forall>x \<in> set (y # zs). even x" "set (y # zs) = insert 2 (set fl)" "y \<notin> set zs"
    using ends_at_2 [of fl] d unfolding y_def by auto
  have "p \<notin> set (y # zs)" unfolding z(3) using d by auto
  then have ev: "even p" "even y" "\<forall>x \<in> set (y # zs). even x" "p \<notin> set (y # zs)" "y \<notin> set zs" "p \<noteq> y" "Suc p \<noteq> y"
    using d z by auto
  have nb: "p \<notin> set (butlast (y # zs))" using ev(4) by (blast dest: in_set_butlastD)
  have "chain (h(Suc p := first, p := 0, y := ptr b p)) b (y # zs) \<longleftrightarrow> chain h b (y # zs)"
    using chain_upd(1) [OF ev(3) ev(1) nb] chain_upd(2) [OF ev(3) ev(1)] chain_upd(2) [OF ev(3) ev(2)] ev(4,5) by simp
  then show ?thesis using r ev(6,7) by (simp add: nlist_def z flip: y_def)
qed

lemma nlist_remove_first:
  assumes r: "nlist h b first (p # vs)" and d: "distinct (p # vs)" "\<forall>x \<in> set (p # vs). even x \<and> 2 < x"
  shows "nlist (h(hd (vs @ [2]) := 0)) b (ptr b (hd (vs @ [2]))) vs"
proof -
  define y where "y = hd (vs @ [2])"
  obtain zs where z: "vs @ [2] = y # zs" "\<forall>x \<in> set (y # zs). even x" "y \<notin> set zs"
    using ends_at_2 [of vs] d unfolding y_def by auto
  have "chain (h(y := 0)) b (y # zs) \<longleftrightarrow> chain h b (y # zs)"
    using chain_upd(2) [OF z(2)] z(2,3) by simp
  then show ?thesis using r by (simp add: nlist_def z flip: y_def)
qed

lemma nlist_remove:
  assumes r: "nlist h b first (us @ p # vs)" and us: "us \<noteq> []"
    and d: "distinct (us @ p # vs)" "\<forall>x \<in> set (us @ p # vs). even x \<and> 2 < x"
  shows "nlist (h(hd (vs @ [2]) := ptr b (last us), Suc (last us) := ptr b (hd (vs @ [2])))) b first (us @ vs)"
proof -
  define y where "y = hd (vs @ [2])"
  obtain zs where z: "vs @ [2] = y # zs" "\<forall>x \<in> set (y # zs). even x" "set (y # zs) = insert 2 (set vs)" "y \<notin> set zs"
    using ends_at_2 [of vs] d unfolding y_def by auto
  obtain ts x where t: "us = ts @ [x]" using us by (cases us rule: rev_cases) auto
  have xz: "x \<notin> set (y # zs)" and yt: "y \<notin> set (ts @ [x])"
  proof -
    show "x \<notin> set (y # zs)" unfolding z(3) using d t by auto
    have "y \<in> insert 2 (set vs)" using z(3) by auto
    then show "y \<notin> set (ts @ [x])" using d t by auto
  qed
  have ev: "\<forall>k \<in> set (y # zs). even k" "\<forall>k \<in> set (ts @ [x]). even k" "even x" "even y"
    "x \<notin> set ts" "x \<notin> set (y # zs)" "y \<notin> set zs" "y \<notin> set (ts @ [x])" "Suc x \<noteq> y"
    using z d t xz yt by auto
  let ?h = "h(y := ptr b x, Suc x := ptr b y)"
  have nx: "x \<notin> set (butlast (y # zs))" using ev(6) by (blast dest: in_set_butlastD)
  have "y \<notin> set (tl (ts @ [x]))" using ev(8) by (cases ts) auto
  then have 1: "chain ?h b (ts @ [x]) \<longleftrightarrow> chain h b (ts @ [x])"
    using chain_upd(1) [OF ev(2,3)] chain_upd(2) [OF ev(2,4)] ev(5) by simp
  have 2: "chain ?h b (y # zs) \<longleftrightarrow> chain h b (y # zs)"
    using chain_upd(1) [OF ev(1,3) nx] chain_upd(2) [OF ev(1,4)] ev(7) by simp
  have "chain h b (ts @ x # p # y # zs)" using r by (simp add: nlist_def t z)
  then have 3: "chain h b (ts @ [x])" "chain h b (y # zs)"
    unfolding chain_middle by (simp_all add: chain_middle [of _ _ "[x]", simplified])
  have hu: "hd us \<in> set (ts @ [x])" using hd_in_set [OF us] t by simp
  then have "even (hd us)" "hd us \<noteq> y" using ev(2,8) by blast+
  then have h: "?h (hd us) = h (hd us)" using ev(3) by auto
  have "chain ?h b (ts @ x # y # zs)" unfolding chain_middle using 1 2 3 ev(9) by simp
  moreover have "(us @ vs) @ [2] = ts @ x # y # zs" by (simp add: t z(1))
  moreover have "first = ptr b (hd us)" "h (hd us) = 0" using r us by (simp_all add: nlist_def)
  moreover have "hd ((us @ vs) @ [2]) = hd us" using us by simp
  moreover have "last us = x" using t by simp
  ultimately show ?thesis using h by (simp only: nlist_def y_def [symmetric])
qed

section \<open>The list operations on a tagged heap\<close>

definition listed_ref :: "mm_ref \<Rightarrow> blk list \<Rightarrow> nat list \<Rightarrow> bool" where
  "listed_ref s bs fl \<longleftrightarrow> heap_blocks s 4 bs \<and> distinct fl \<and> set fl \<subseteq> set (frees 6 bs)
     \<and> nlist (hw s) (mem_start_brk s) (free_listp s) fl"

lemma listed_refD:
  assumes "listed_ref s bs fl"
  shows "heap_blocks s 4 bs" "distinct fl" "set fl \<subseteq> set (frees 6 bs)"
    "nlist (hw s) (mem_start_brk s) (free_listp s) fl"
  using assms by (simp_all add: listed_ref_def)

lemma free_listp_put_word [simp]: "free_listp (put_word s i v) = free_listp s"
  by (simp add: put_word_def)

lemma hw_free_listp [simp]: "hw (s\<lparr>free_listp := x\<rparr>) = hw s"
  by (rule ext) (simp add: hw_def)

lemma geom_free_listp [simp]: "geom (s\<lparr>free_listp := x\<rparr>) = geom s"
  by (simp add: geom_def)

lemma heap_blocks_free_listp [simp]: "heap_blocks (s\<lparr>free_listp := x\<rparr>) pn bs = heap_blocks s pn bs"
  by (simp add: heap_blocks_def)

lemma same_storage_ref [simp]:
  "same_storage s (put_word s' i v) = same_storage s s'"
  "same_storage s (s'\<lparr>free_listp := x\<rparr>) = same_storage s s'"
  by (simp_all add: same_storage_def)

lemma frame_ref: "only_heap s s' \<Longrightarrow> free_listp s' = free_listp s"
  by (drule only_heap_def [THEN iffD1, THEN arg_cong, of _ _ free_listp]) simp

text \<open>The next member, or the prologue behind the last one.\<close>

lemma hd_link: "set fl \<subseteq> S \<Longrightarrow> hd (fl @ [2]) \<in> S \<or> hd (fl @ [2]) = 2"
  by (cases fl) auto

lemma add_block_ref_words:
  assumes g: "geom s" and f: "free_listp s = ptr (mem_start_brk s) y" and lt: "p + 1 < HEAPW" "y < HEAPW"
  shows "add_block_ref s (ptr (mem_start_brk s) p) = Some ((put_word (put_word (put_word s (p + 1) (free_listp s)) p 0)
    y (ptr (mem_start_brk s) p))\<lparr>free_listp := ptr (mem_start_brk s) p\<rparr>)"
  using assms by (simp add: add_block_ref_def SET_SUCC_P_def SET_PRED_P_def ptr_simps heap_exec)

lemma remove_block_ref_words:
  assumes g: "geom s" and nl: "nlist (hw s) (mem_start_brk s) (free_listp s) (us @ p # vs)"
    and d: "distinct (us @ p # vs)" "\<forall>x \<in> set (us @ p # vs). even x \<and> 2 < x \<and> x + 1 < HEAPW"
  shows "remove_block_ref s (ptr (mem_start_brk s) p) = Some (if us = []
    then (put_word s (hd (vs @ [2])) 0)\<lparr>free_listp := ptr (mem_start_brk s) (hd (vs @ [2]))\<rparr>
    else put_word (put_word s (hd (vs @ [2])) (ptr (mem_start_brk s) (last us)))
      (Suc (last us)) (ptr (mem_start_brk s) (hd (vs @ [2]))))"
proof -
  define y where "y = hd (vs @ [2])"
  have y: "even y" "y + 1 < HEAPW" "y \<noteq> p" using d by (cases vs; auto simp: y_def HEAPW_eq)+
  have p: "even p" "p + 1 < HEAPW" using d by auto
  have s: "hw s (Suc p) = ptr (mem_start_brk s) y" using nlist_succ [OF nl] by (simp add: y_def)
  show ?thesis
  proof (cases "us = []")
    case True
    then have "free_listp s = ptr (mem_start_brk s) p" using nl by (simp add: nlist_def)
    moreover have "Suc p \<noteq> y" using p y by auto
    ultimately show ?thesis
      using True g s p y
      by (simp add: remove_block_ref_def SUCC_P_def SET_PRED_P_def ptr_simps heap_exec flip: y_def)
  next
    case False
    define x where "x = last us"
    have x: "x + 1 < HEAPW" "even x" "x \<noteq> p" using False d by (auto simp: x_def)
    have "hw s p = ptr (mem_start_brk s) x" using nlist_pred [OF nl False] by (simp add: x_def)
    moreover have "hd us \<in> set us" using False by simp
    then have "hd us + 1 < HEAPW" "hd us \<noteq> p" using d by auto
    then have "ptr (mem_start_brk s) p \<noteq> free_listp s"
      using nl False p ptr_eq_iff [of p "hd us"] by (auto simp: nlist_def)
    moreover have "Suc p \<noteq> y" "p \<noteq> y" using p y by auto
    ultimately show ?thesis
      using False g s p y x
      by (simp add: remove_block_ref_def SUCC_P_def PRED_P_def SET_PRED_P_def SET_SUCC_P_def ptr_simps heap_exec
          flip: y_def x_def)
  qed
qed

lemma add_block_ref_ok:
  assumes L: "listed_ref s bs fl" and p: "p \<in> set (frees 6 bs)" "p \<notin> set fl"
  shows "\<exists>s'. add_block_ref s (ptr (mem_start_brk s) p) = Some s' \<and> listed_ref s' bs (p # fl) \<and> same_storage s s'"
proof -
  note LD = listed_refD [OF L] and D = heap_blocksD [OF listed_refD(1) [OF L]]
  define y where "y = hd (fl @ [2])"
  have y: "y \<in> set (frees 6 bs) \<or> y = 2" using hd_link [OF LD(3)] by (simp add: y_def)
  have lt: "p + 1 < HEAPW" "y < HEAPW"
    using free_index [OF LD(1) p(1)] link_index [OF LD(1) y] by simp_all
  have f: "free_listp s = ptr (mem_start_brk s) y" using LD(4) by (simp add: nlist_def y_def)
  let ?t = "put_word (put_word (put_word s (p + 1) (free_listp s)) p 0) y (ptr (mem_start_brk s) p)"
  let ?s = "?t\<lparr>free_listp := ptr (mem_start_brk s) p\<rparr>"
  have "heap_blocks ?t 4 bs"
    using p(1) y
    by (intro heap_blocks_upd_link [of _ bs y y] heap_blocks_upd_link [of _ bs p p]
        heap_blocks_upd_link [of _ bs p "p + 1"] LD(1)) auto
  moreover have "\<forall>x \<in> set (p # fl). even x \<and> 2 < x"
    by (rule free_index_all [OF LD(1)]) (use p(1) LD(3) in simp)
  from nlist_add [OF LD(4,2) p(2) this] have "nlist (hw ?s) (mem_start_brk s) (free_listp ?s) (p # fl)"
    using lt by (simp add: hw_put_word y_def)
  ultimately have "listed_ref ?s bs (p # fl)" using LD p by (simp add: listed_ref_def)
  then show ?thesis using add_block_ref_words [OF D(1) f lt] by simp
qed

lemma members_ref:
  assumes "heap_blocks s 4 bs" "set fl \<subseteq> set (frees 6 bs)"
  shows "\<forall>x \<in> set fl. even x \<and> 2 < x \<and> x + 1 < HEAPW"
  using free_index [OF assms(1)] assms(2) by fastforce

lemma remove_block_ref_ok:
  assumes L: "listed_ref s bs (us @ p # vs)"
  shows "\<exists>s'. remove_block_ref s (ptr (mem_start_brk s) p) = Some s' \<and> listed_ref s' bs (us @ vs) \<and> same_storage s s'"
proof -
  note LD = listed_refD [OF L] and D = heap_blocksD [OF listed_refD(1) [OF L]]
  note ok = members_ref [OF LD(1,3)]
  then have ok': "\<forall>x \<in> set (us @ p # vs). even x \<and> 2 < x" by blast
  define y where "y = hd (vs @ [2])"
  have y: "y \<in> set (frees 6 bs) \<or> y = 2" using hd_link [of vs] LD(3) by (simp add: y_def)
  have lt: "y < HEAPW" using link_index [OF LD(1) y] by simp
  note e = remove_block_ref_words [OF D(1) LD(4,2) ok, folded y_def]
  show ?thesis
  proof (cases "us = []")
    case True
    let ?s = "(put_word s y 0)\<lparr>free_listp := ptr (mem_start_brk s) y\<rparr>"
    have "heap_blocks (put_word s y 0) 4 bs" using heap_blocks_upd_link [OF LD(1) y] by simp
    moreover have "nlist (hw ?s) (mem_start_brk s) (free_listp ?s) vs"
      using nlist_remove_first [of "hw s" "mem_start_brk s" "free_listp s" p vs] LD(2,4) ok' True lt
      by (simp add: hw_put_word y_def)
    ultimately have "listed_ref ?s bs vs" using LD True by (simp add: listed_ref_def)
    then show ?thesis using e True by simp
  next
    case False
    define x where "x = last us"
    have x: "x \<in> set (frees 6 bs)" using LD(3) False by (auto simp: x_def)
    have lx: "Suc x < HEAPW" using free_index [OF LD(1) x] by simp
    let ?s = "put_word (put_word s y (ptr (mem_start_brk s) x)) (Suc x) (ptr (mem_start_brk s) y)"
    have "heap_blocks ?s 4 bs"
      using x y by (intro heap_blocks_upd_link [of _ bs x "Suc x"] heap_blocks_upd_link [of _ bs y y] LD(1)) auto
    moreover have "nlist (hw ?s) (mem_start_brk s) (free_listp s) (us @ vs)"
      using nlist_remove [OF LD(4) False LD(2) ok', folded x_def y_def] lt lx by (simp add: hw_put_word)
    ultimately have "listed_ref ?s bs (us @ vs)" using LD by (simp add: listed_ref_def)
    then show ?thesis using e False by (simp add: x_def)
  qed
qed

lemma remove_block_ref_mem:
  assumes L: "listed_ref s bs fl" and p: "p \<in> set fl"
  shows "\<exists>s'. remove_block_ref s (ptr (mem_start_brk s) p) = Some s'
    \<and> listed_ref s' bs (filter (\<lambda>k. k \<noteq> p) fl) \<and> same_storage s s'"
proof -
  obtain us vs where fl: "fl = us @ p # vs" using split_list [OF p] by blast
  have "filter (\<lambda>k. k \<noteq> p) fl = us @ vs" using listed_refD(2) [OF L] unfolding fl by (rule filter_out_middle)
  with remove_block_ref_ok [OF L [unfolded fl]] show ?thesis by simp
qed

interpretation ref_list: free_list 4 6 listed_ref set "\<lambda>_. (#)" filter same_storage
  "\<lambda>s p n. add_block_ref s p" remove_block_ref
proof unfold_locales
  fix s s' :: mm_ref and bs bs' fl p
  show "\<exists>s'. add_block_ref s (ptr (mem_start_brk s) p) = Some s' \<and> listed_ref s' bs (p # fl) \<and> same_storage s s'"
    if "listed_ref s bs fl" "p \<in> set (frees 6 bs)" "p \<notin> set fl" using that by (rule add_block_ref_ok)
  show "\<exists>s'. remove_block_ref s (ptr (mem_start_brk s) p) = Some s' \<and> listed_ref s' bs (filter (\<lambda>k. k \<noteq> p) fl)
      \<and> same_storage s s'" if "listed_ref s bs fl" "p \<in> set fl" using that by (rule remove_block_ref_mem)
  show "only_heap s s' \<Longrightarrow> same_storage s s'"
    by (simp add: same_storage_def only_heap_bounds)
  show "listed_ref s' bs' fl" if "listed_ref s bs fl" "heap_blocks s' 4 bs'" "only_heap s s'"
    "\<And>k. k < 4 \<Longrightarrow> hw s' k = hw s k"
    "\<And>k. k \<in> set fl \<Longrightarrow> k \<in> set (frees 6 bs') \<and> block_words 6 bs' k = block_words 6 bs k
      \<and> hw s' k = hw s k \<and> hw s' (Suc k) = hw s (Suc k)"
  proof -
    have "nlist (hw s) b f fl \<longleftrightarrow> nlist (hw s') b f fl" for b f
      by (rule nlist_cong) (use that(4,5) in auto)
    then show ?thesis
      using that(2,5) listed_refD [OF that(1)] only_heap_bounds [OF that(3)] frame_ref [OF that(3)]
      by (auto simp: listed_ref_def)
  qed
qed (auto simp: listed_ref_def filter_id_conv intro: same_storage_trans filter_cong)

section \<open>Placing\<close>

text \<open>
  \<open>mm_malloc\<close> places first and unlinks afterwards: while \<open>place\<close> runs the block is already allocated and still on the
  list, and entering the rest may write into its payload. \<open>used_in\<close>: the blocks tile the heap and the one behind
  \<open>xs\<close> is allocated, with \<open>l\<close> payload words.
\<close>

definition used_in :: "mm_ref \<Rightarrow> blk list \<Rightarrow> nat \<Rightarrow> blk list \<Rightarrow> bool" where
  "used_in s xs l ys \<longleftrightarrow> (\<exists>ws. length ws = l \<and> heap_blocks s 4 (xs @ Used ws # ys))"

lemma used_inI: "heap_blocks s 4 (xs @ Used ws # ys) \<Longrightarrow> length ws = l \<Longrightarrow> used_in s xs l ys"
  by (auto simp: used_in_def)

lemma used_in_free_listp [simp]: "used_in (s\<lparr>free_listp := x\<rparr>) xs l ys = used_in s xs l ys"
  by (simp add: used_in_def)

lemma used_in_upd:
  assumes u: "used_in s xs l ys" and k: "k = i \<or> k = Suc i"
    and i: "i \<in> set (frees 6 xs) \<or> i \<in> set (frees (6 + twords xs + (l + 2)) ys) \<or> i = 2 \<or> i = 6 + twords xs"
  shows "used_in (put_word s k v) xs l ys"
proof -
  obtain ws where ws: "length ws = l" "heap_blocks s 4 (xs @ Used ws # ys)" using u by (auto simp: used_in_def)
  note D = heap_blocksD [OF ws(2)] and V = heap_block_view [OF ws(2) refl]
  show ?thesis
  proof (cases "i = 6 + twords xs")
    case False
    then have "i \<in> set (frees 6 (xs @ Used ws # ys)) \<or> i = 2" using i ws(1) by (auto simp: add.assoc)
    from heap_blocks_upd_link [OF ws(2) this k] ws(1) show ?thesis by (auto simp: used_in_def)
  next
    case True
    let ?s = "put_word s k v" and ?ws = "ws[k - i := v]"
    have kl: "k - i < length ws" "i + (k - i) = k" "k < HEAPW" using k V(9,10) True by auto
    have hk: "hw ?s = (hw s)(k := v)" using kl by (simp add: hw_put_word)
    have "heap_blocks s 4 (xs @ [Used ws] @ ys)" using ws(2) by simp
    then have "heap_blocks ?s 4 (xs @ [Used ?ws] @ ys)"
    proof (rule heap_blocks_replace)
      have "blk_at (hw s) i (Used ws)" using D(6) True by simp
      then show "tags (hw ?s) i [Used ?ws]"
        using kl k True by (auto simp: blk_at_def hk nth_list_update)
      show "hw ?s j = hw s j" if "Suc j < i \<or> i + twords [Used ws] \<le> Suc j" for j
        using that kl k by (auto simp: hk)
    qed (use D V True in simp_all)
    with ws(1) show ?thesis unfolding used_in_def by (intro exI [of _ ?ws]) simp
  qed
qed

lemma used_in_range:
  assumes "used_in s xs l ys"
  shows "\<And>i. i \<in> set (frees 6 xs) \<or> i \<in> set (frees (6 + twords xs + (l + 2)) ys) \<or> i = 6 + twords xs
    \<Longrightarrow> even i \<and> 2 < i \<and> i + 1 < HEAPW" and "geom s"
proof -
  obtain ws where ws: "length ws = l" "heap_blocks s 4 (xs @ Used ws # ys)" using assms by (auto simp: used_in_def)
  note D = heap_blocksD [OF ws(2)] and V = heap_block_view [OF ws(2) refl]
  show "geom s" by (rule D(1))
  fix i
  assume "i \<in> set (frees 6 xs) \<or> i \<in> set (frees (6 + twords xs + (l + 2)) ys) \<or> i = 6 + twords xs"
  then have "i \<in> set (frees 6 (xs @ Used ws # ys)) \<or> i = 6 + twords xs" using ws(1) by (auto simp: add.assoc)
  then show "even i \<and> 2 < i \<and> i + 1 < HEAPW"
    using free_index [OF ws(2), of i] V(5,9,10) by auto
qed

text \<open>Unlinking the allocated block.\<close>

lemma remove_used:
  assumes u: "used_in s xs l ys" and j: "j = 6 + twords xs"
    and nl: "nlist (hw s) (mem_start_brk s) (free_listp s) (us @ j # vs)" and d: "distinct (us @ j # vs)"
    and m: "set (us @ vs) \<subseteq> set (frees 6 xs) \<union> set (frees (j + (l + 2)) ys)"
  shows "\<exists>s'. remove_block_ref s (ptr (mem_start_brk s) j) = Some s' \<and> same_storage s s' \<and> used_in s' xs l ys
    \<and> nlist (hw s') (mem_start_brk s') (free_listp s') (us @ vs)"
proof -
  have ok: "\<forall>x \<in> set (us @ j # vs). even x \<and> 2 < x \<and> x + 1 < HEAPW"
  proof
    fix x
    assume "x \<in> set (us @ j # vs)"
    then have "x \<in> set (frees 6 xs) \<or> x \<in> set (frees (6 + twords xs + (l + 2)) ys) \<or> x = 6 + twords xs"
      using m j by auto
    from used_in_range(1) [OF u this] show "even x \<and> 2 < x \<and> x + 1 < HEAPW" .
  qed
  then have ok': "\<forall>x \<in> set (us @ j # vs). even x \<and> 2 < x" by blast
  define y where "y = hd (vs @ [2])"
  have y: "y \<in> set (frees 6 xs) \<or> y \<in> set (frees (6 + twords xs + (l + 2)) ys) \<or> y = 2 \<or> y = 6 + twords xs" "y < HEAPW"
    using m ok j by (cases vs; auto simp: y_def HEAPW_eq)+
  note e = remove_block_ref_words [OF used_in_range(2) [OF u] nl d ok, folded y_def]
  show ?thesis
  proof (cases "us = []")
    case True
    let ?s = "(put_word s y 0)\<lparr>free_listp := ptr (mem_start_brk s) y\<rparr>"
    have "used_in ?s xs l ys" using used_in_upd [OF u _ y(1)] by simp
    moreover have "nlist (hw ?s) (mem_start_brk ?s) (free_listp ?s) vs"
      using nlist_remove_first [of "hw s" "mem_start_brk s" "free_listp s" j vs] nl d ok' True y(2)
      by (simp add: hw_put_word y_def)
    ultimately show ?thesis using e True by simp
  next
    case False
    define x where "x = last us"
    have "x \<in> set us" using False by (simp add: x_def)
    then have x: "x \<in> set (frees 6 xs) \<or> x \<in> set (frees (6 + twords xs + (l + 2)) ys) \<or> x = 2 \<or> x = 6 + twords xs"
      "Suc x < HEAPW" using m ok j by auto
    let ?s = "put_word (put_word s y (ptr (mem_start_brk s) x)) (Suc x) (ptr (mem_start_brk s) y)"
    have "used_in ?s xs l ys"
      using used_in_upd [OF used_in_upd [OF u _ y(1)] _ x(1)] by simp
    moreover have "nlist (hw ?s) (mem_start_brk ?s) (free_listp ?s) (us @ vs)"
      using nlist_remove [OF nl False d ok', folded x_def y_def] y(2) x(2) by (simp add: hw_put_word)
    ultimately show ?thesis using e False by (simp add: x_def)
  qed
qed

definition place_unlink :: "mm_ref \<Rightarrow> addr \<Rightarrow> addr \<Rightarrow> mm_ref option" where
  "place_unlink s bp asize = do {
     s \<leftarrow> place_ref s bp asize;
     remove_block_ref s bp }"

lemma place_unlink_ok:
  assumes L: "listed_ref s (xs @ Free n # ys) fl" and j: "j = 6 + twords xs" and jfl: "j \<in> set fl"
    and m: "even m" "4 \<le> m" "m \<le> n"
  shows "\<exists>s' ws. place_unlink s (ptr (mem_start_brk s) j) (bsize m) = Some s'
    \<and> length ws = place_gets n m - 2 \<and> same_storage s s'
    \<and> listed_ref s' (xs @ Used ws # place_rest n m @ ys)
        (if m + 4 \<le> n then (j + m) # filter (\<lambda>k. k \<noteq> j) fl else filter (\<lambda>k. k \<noteq> j) fl)"
proof -
  let ?b = "mem_start_brk s"
  have j2: "j = 4 + 2 + twords xs" using j by simp
  note LD = listed_refD [OF L]
  note D = heap_blocksD [OF LD(1)] and V = heap_block_view [OF LD(1) j2]
  have n30: "n < 2 ^ 30" using V(9,10) by (simp add: HEAPW_eq)
  then have big: "2 * DSIZE \<le> bsize n - bsize m \<longleftrightarrow> m + 4 \<le> n"
    using m by (simp add: ptr_simps bsize_ge_2DSIZE) linarith
  have idx: "4 \<le> j" "j - 1 < HEAPW" "j + m - 2 < HEAPW" "j + m - 1 < HEAPW" "j + n - 2 < HEAPW" "even (n - m)" "even n"
    using V(6,8,9,10) m by auto
  have place: "place_ref s (ptr ?b j) (bsize m)
      = (if m + 4 \<le> n then add_block_ref (tag_split s j m n) (ptr ?b (j + m)) else Some (tag_whole s j n))"
    using D(1) V(1,6,8,10) big idx m
    by (simp add: place_ref_def blk_macros ptr_simps heap_exec tag_split_def tag_whole_def)
  obtain us vs where fl: "fl = us @ j # vs" using split_list [OF jfl] by blast
  have d: "distinct (us @ j # vs)" using LD(2) by (simp add: fl)
  then have out: "filter (\<lambda>k. k \<noteq> j) fl = us @ vs" unfolding fl by (rule filter_out_middle)
  have mem: "set (us @ vs) \<subseteq> set (frees 6 xs) \<union> set (frees (j + n) ys)" using LD(3) d j by (auto simp: fl)
  have far: "x + 4 \<le> j \<or> x = j \<or> j + n \<le> x" if "x \<in> set fl" for x
    using that mem frees_range_wf [of x 6 xs] frees_range [of x "j + n" ys] D(9) j by (auto simp: fl)
  show ?thesis
  proof (cases "m + 4 \<le> n")
    case True
    let ?t = "tag_split s j m n"
    have ut: "used_in ?t xs (m - 2) (Free (n - m) # ys)"
      unfolding tag_split_def by (rule used_inI [OF heap_blocks_split [OF LD(1) j2 m(1,2) True]]) simp
    have ft: "free_listp ?t = free_listp s" by (simp add: tag_split_def)
    have ht: "hw ?t k = hw s k" if "k \<noteq> j - 1" "k \<noteq> j + m - 2" "k \<noteq> j + m - 1" "k \<noteq> j + n - 2" for k
      using that idx by (simp add: tag_split_def hw_put_word)
    have "hw ?t x = hw s x \<and> hw ?t (Suc x) = hw s (Suc x)" if "x + 4 \<le> j \<or> x = j \<or> j + n \<le> x" for x
      by (intro conjI ht; use that idx(1) True m(2) in linarith)
    then have nt: "nlist (hw ?t) ?b (free_listp s) fl"
      using nlist_cong [of fl "hw s" "hw ?t"] far j LD(4) by auto
    define y where "y = hd (fl @ [2])"
    have fy: "free_listp ?t = ptr (mem_start_brk ?t) y" using LD(4) ft by (simp add: nlist_def y_def)
    have ml: "j + m + twords [Free (n - m)] = j + n" "6 + twords xs + (m - 2 + 2) = j + m" using True m j by simp_all
    have "set fl \<subseteq> set (frees 6 xs) \<union> set (frees (j + n) ys) \<union> {j}" using mem by (auto simp: fl)
    from hd_link [OF this] have yy: "y \<in> set (frees 6 xs) \<or> y \<in> set (frees (6 + twords xs + (m - 2 + 2)) (Free (n - m) # ys)) \<or> y = 2
        \<or> y = 6 + twords xs"
      unfolding ml(2) y_def [symmetric] using ml(1) j by (auto simp: add.assoc)
    have qq: "j + m \<in> set (frees 6 xs) \<or> j + m \<in> set (frees (6 + twords xs + (m - 2 + 2)) (Free (n - m) # ys))"
      unfolding ml(2) by simp
    have lt: "j + m + 1 < HEAPW" "y < HEAPW"
      using used_in_range(1) [OF ut, of y] yy V(10) True by (auto simp: HEAPW_eq)
    let ?u = "(put_word (put_word (put_word ?t (j + m + 1) (free_listp ?t)) (j + m) 0)
      y (ptr (mem_start_brk ?t) (j + m)))\<lparr>free_listp := ptr (mem_start_brk ?t) (j + m)\<rparr>"
    have a: "add_block_ref ?t (ptr ?b (j + m)) = Some ?u"
      using add_block_ref_words [OF used_in_range(2) [OF ut] fy lt] by simp
    have uu: "used_in ?u xs (m - 2) (Free (n - m) # ys)"
      using qq by (simp only: used_in_free_listp)
        (intro used_in_upd [OF _ _ yy, of _ y] used_in_upd [of _ xs "m - 2" _ "j + m" "j + m"]
          used_in_upd [OF ut, of "j + m + 1" "j + m"]; auto)
    have qfl: "j + m \<notin> set fl" using far [of "j + m"] True m by auto
    have ok: "\<forall>x \<in> set ((j + m) # fl). even x \<and> 2 < x"
      using free_index_all [OF LD(1,3)] idx V(5) m by simp
    have nu: "nlist (hw ?u) (mem_start_brk ?u) (free_listp ?u) (((j + m) # us) @ j # vs)"
      using nlist_add [OF nt LD(2) qfl ok, folded y_def] lt ft by (simp add: hw_put_word fl)
    have du: "distinct (((j + m) # us) @ j # vs)" using d qfl by (simp add: fl)
    have mu: "set (((j + m) # us) @ vs) \<subseteq> set (frees 6 xs) \<union> set (frees (j + (m - 2 + 2)) (Free (n - m) # ys))"
      using mem m True by auto
    obtain s' where s': "remove_block_ref ?u (ptr ?b j) = Some s'" "same_storage ?u s'"
      "used_in s' xs (m - 2) (Free (n - m) # ys)" "nlist (hw s') (mem_start_brk s') (free_listp s') ((j + m) # us @ vs)"
      using remove_used [OF uu j nu du mu] by auto
    obtain ws where ws: "length ws = m - 2" "heap_blocks s' 4 (xs @ Used ws # Free (n - m) # ys)"
      using s'(3) by (auto simp: used_in_def)
    have "listed_ref s' (xs @ Used ws # Free (n - m) # ys) ((j + m) # us @ vs)"
      using ws s'(4) du mu m j by (auto simp: listed_ref_def)
    moreover have "same_storage s s'" using s'(2) by (simp add: same_storage_def tag_split_def)
    ultimately show ?thesis
      using True a s'(1) ws(1)
      by (intro exI [of _ s'] exI [of _ ws]) (simp add: place_unlink_def place out place_gets_def place_rest_def)
  next
    case False
    let ?t = "tag_whole s j n"
    have ut: "used_in ?t xs (n - 2) ys"
      unfolding tag_whole_def by (rule used_inI [OF heap_blocks_retag_used [OF LD(1) j2]]) simp_all
    have "hw ?t x = hw s x \<and> hw ?t (Suc x) = hw s (Suc x)" if "x + 4 \<le> j \<or> x = j \<or> j + n \<le> x" for x
      unfolding tag_whole_def using that idx(1,2,5) V(9) by (auto simp: hw_put_word)
    then have nt: "nlist (hw ?t) (mem_start_brk ?t) (free_listp ?t) (us @ j # vs)"
      using nlist_cong [of fl "hw s" "hw ?t"] far j LD(4) by (auto simp: tag_whole_def fl)
    obtain s' where s': "remove_block_ref ?t (ptr ?b j) = Some s'" "same_storage ?t s'"
      "used_in s' xs (n - 2) ys" "nlist (hw s') (mem_start_brk s') (free_listp s') (us @ vs)"
      using remove_used [OF ut j nt d] mem V(9) by auto
    obtain ws where ws: "length ws = n - 2" "heap_blocks s' 4 (xs @ Used ws # ys)"
      using s'(3) by (auto simp: used_in_def)
    have "listed_ref s' (xs @ Used ws # ys) (us @ vs)"
      using ws s'(4) d mem V(9) j by (auto simp: listed_ref_def)
    moreover have "same_storage s s'" using s'(2) by (simp add: same_storage_def tag_whole_def)
    ultimately show ?thesis
      using False s'(1) ws(1)
      by (intro exI [of _ s'] exI [of _ ws]) (simp add: place_unlink_def place out place_gets_def place_rest_def)
  qed
qed

section \<open>Coalescing and searching\<close>

lemma coalesce_ref_code:
  assumes N: "nbhd s j p pa n False q qa"
    and u: "unlinks remove_block_ref (\<lambda>u. nbhd u j p pa n False q qa) (neighbours True pa (j - p) qa (j + n)) s u"
    and i: "i = (if pa then j else j - p)" and m: "m = (if pa then 0 else p) + n + (if qa then 0 else q)"
  shows "\<exists>t. (if pa \<and> qa then t = u else retagged u i m t)
    \<and> coalesce_ref s (ptr (mem_start_brk s) j) = do {
        s' \<leftarrow> add_block_ref t (ptr (mem_start_brk s) i); Some (ptr (mem_start_brk s) i, s') }"
proof -
  let ?b = "mem_start_brk s"
  note ND = nbhdD(7) [OF N]
  consider "pa" "qa" | "pa" "\<not> qa" | "\<not> pa" "qa" | "\<not> pa" "\<not> qa" by blast
  then show ?thesis
  proof cases
    case 1
    then show ?thesis using u i nbhd_reads [OF N refl] by (simp add: neighbours_def coalesce_ref_def)
  next
    case 2
    with u have r: "remove_block_ref s (ptr ?b (j + n)) = Some u" "mem_start_brk u = ?b"
      and N1: "nbhd u j p True n False q False"
      by (auto simp: neighbours_def same_storage_def)
    let ?t = "put_word (put_word u (j - 1) (hdr m False)) (j + m - 2) (hdr m False)"
    have "coalesce_ref s (ptr ?b j) = do { s' \<leftarrow> add_block_ref ?t (ptr ?b j); Some (ptr ?b j, s') }"
      using nbhd_reads [OF N refl] nbhd_reads [OF N1 r(2)] nbhdD(1-9,12,14) [OF N1] r 2 m
      by (simp add: coalesce_ref_def) (simp add: blk_macros ptr_simps heap_exec add.assoc)
    then show ?thesis using 2 i by (auto simp: retagged_def)
  next
    case 3
    with u have r: "remove_block_ref s (ptr ?b (j - p)) = Some u" "mem_start_brk u = ?b"
      and N1: "nbhd u j p False n False q True"
      by (auto simp: neighbours_def same_storage_def)
    have mm: "m = n + p" "i + m - 2 = j + n - 2" using 3 i m ND by simp_all
    let ?t = "put_word (put_word u (j + n - 2) (hdr m False)) (j - p - 1) (hdr m False)"
    have "coalesce_ref s (ptr ?b j) = do { s' \<leftarrow> add_block_ref ?t (ptr ?b (j - p)); Some (ptr ?b (j - p), s') }"
      using nbhd_reads [OF N refl] nbhd_reads [OF N1 r(2)] nbhdD(1-9,12,14) [OF N1] r 3 mm(1)
      by (simp add: coalesce_ref_def) (simp add: blk_macros ptr_simps heap_exec add.assoc)
    then show ?thesis using 3 i mm(2) by (auto simp: retagged_def)
  next
    case 4
    with u obtain v where r: "remove_block_ref s (ptr ?b (j + n)) = Some v" "mem_start_brk v = ?b"
      "remove_block_ref v (ptr ?b (j - p)) = Some u" "mem_start_brk u = ?b"
      and N1: "nbhd v j p False n False q False" and N2: "nbhd u j p False n False q False"
      by (auto simp: neighbours_def same_storage_def)
    have mm: "m = n + (p + q)" "i + m - 2 = j + n + q - 2" using 4 i m ND by simp_all
    let ?t = "put_word (put_word u (j - p - 1) (hdr m False)) (j + n + q - 2) (hdr m False)"
    have "coalesce_ref s (ptr ?b j) = do { s' \<leftarrow> add_block_ref ?t (ptr ?b (j - p)); Some (ptr ?b (j - p), s') }"
      using nbhd_reads [OF N refl] nbhd_reads(4) [OF N1 r(2)] nbhd_reads [OF N2 r(4)] nbhdD(1-9,14) [OF N2] r 4 mm(1)
      by (simp add: coalesce_ref_def Let_def) (simp add: blk_macros ptr_simps heap_exec add.assoc)
    then show ?thesis using 4 i mm(2) by (auto simp: retagged_def)
  qed
qed

text \<open>First fit along the list; the search stops at the prologue, whose tag says allocated.\<close>

lemma find_fit_first_from_ok:
  assumes L: "listed_ref s bs (us @ vs)" and m: "m < 2 ^ 30"
  shows "find_fit_first_from s (bsize m) (ptr (mem_start_brk s) (hd (vs @ [2])))
    = Some (opt_ptr (mem_start_brk s) (find (\<lambda>i. m \<le> block_words 6 bs i) vs))"
  using L
proof (induction vs arbitrary: us)
  case Nil
  note D = heap_blocksD [OF listed_refD(1) [OF Nil]]
  have "hw s (Suc 0) = hdr 4 True" using D(4) by simp
  with D(1) show ?case
    by (subst find_fit_first_from.simps) (simp add: ptr_simps heap_exec HEAPW_eq)
next
  case (Cons v vs)
  note LD = listed_refD [OF Cons.prems]
  have "v \<in> set (frees 6 bs)" using LD(3) by auto
  then obtain xs n ys where bs: "bs = xs @ Free n # ys" and v: "v = 6 + twords xs"
    using frees_split by blast
  have v': "v = 4 + 2 + twords xs" using v by simp
  note D = heap_blocksD [OF LD(1)] and V = heap_block_view [OF LD(1) [unfolded bs] v']
  have n30: "n < 2 ^ 30" using V(9,10) by (simp add: HEAPW_eq)
  have w: "block_words 6 bs v = n" using block_words_middle [of xs 6 "Free n" ys] D(9) bs v by simp
  have rec: "find_fit_first_from s (bsize m) (ptr (mem_start_brk s) (hd (vs @ [2])))
    = Some (opt_ptr (mem_start_brk s) (find (\<lambda>i. m \<le> block_words 6 bs i) vs))"
    using Cons.IH [of "us @ [v]"] Cons.prems by simp
  have "hw s (Suc v) = ptr (mem_start_brk s) (hd (vs @ [2]))" by (rule nlist_succ [OF LD(4)])
  moreover have "bsize m \<le> bsize n \<longleftrightarrow> m \<le> n" using m n30 by (rule bsize_le_iff)
  ultimately show ?case
    using D(1) V rec w
    by (subst find_fit_first_from.simps) (simp add: SUCC_P_def ptr_simps heap_exec)
qed

lemma find_fit_first_ok:
  assumes L: "listed_ref s bs fl" and m: "m < 2 ^ 30"
  shows "find_fit_first s (bsize m)
    = Some (opt_ptr (mem_start_brk s) (find (\<lambda>i. m \<le> block_words 6 bs i) fl))"
  using find_fit_first_from_ok [of s bs "[]" fl m] L m listed_refD(4) [OF L]
  by (simp add: find_fit_first_def nlist_def)

section \<open>The package\<close>

lemma extend_heap_ref_code:
  "even n \<Longrightarrow> n < 2 ^ 30 \<Longrightarrow> extend_heap_ref s (bsize n div WSIZE) =
    (let (bp, s) = mem_sbrk s (bsize n)
     in if bp = - 1 then Some (NULL, s)
        else do {
          s \<leftarrow> PUT s (HDRP bp) (PACK (bsize n) 0);
          f \<leftarrow> FTRP s bp;
          s \<leftarrow> PUT s f (PACK (bsize n) 0);
          nb \<leftarrow> NEXT_BLKP s bp;
          s \<leftarrow> PUT s (HDRP nb) (PACK 0 1);
          coalesce_ref s bp })"
  by (simp only: extend_heap_ref_def even_words_size_AND Let_def)

interpretation ref_alloc: list_allocator 4 6 listed_ref set "\<lambda>_. (#)" filter same_storage
  "\<lambda>s p n. add_block_ref s p" remove_block_ref True coalesce_ref extend_heap_ref mm_free_ref
  "\<lambda>m bs. find (\<lambda>i. m \<le> block_words 6 bs i)" find_fit_first place_unlink mm_malloc_ref
proof unfold_locales
  fix s :: mm_ref and xs ys bs fl j n m p pa q qa u i and sz r :: addr
  show "\<exists>t. (if pa \<and> qa then t = u else retagged u i m t)
      \<and> coalesce_ref s (ptr (mem_start_brk s) j) = do {
          s' \<leftarrow> add_block_ref t (ptr (mem_start_brk s) i); Some (ptr (mem_start_brk s) i, s') }"
    if "nbhd s j p pa n False q qa"
      "unlinks remove_block_ref (\<lambda>u. nbhd u j p pa n False q qa) (neighbours True pa (j - p) qa (j + n)) s u"
      "i = (if pa then j else j - p)" "m = (if pa then 0 else p) + n + (if qa then 0 else q)"
    using that by (rule coalesce_ref_code)
  show "find_fit_first s (bsize m) = Some (opt_ptr (mem_start_brk s) (find (\<lambda>i. m \<le> block_words 6 bs i) fl))"
    if "listed_ref s bs fl" "m < 2 ^ 30" using that by (rule find_fit_first_ok)
  show "i \<in> set fl \<and> m \<le> block_words 6 bs i" if "find (\<lambda>i. m \<le> block_words 6 bs i) fl = Some i"
    using that by (auto simp: find_Some_iff)
  show "\<exists>s' ws. place_unlink s (ptr (mem_start_brk s) j) (bsize m) = Some s'
      \<and> length ws = place_gets n m - 2 \<and> same_storage s s'
      \<and> listed_ref s' (xs @ Used ws # place_rest n m @ ys)
          (if m + 4 \<le> n then (j + m) # filter (\<lambda>k. k \<noteq> j) fl else filter (\<lambda>k. k \<noteq> j) fl)"
    if "listed_ref s (xs @ Free n # ys) fl" "j = 6 + twords xs" "j \<in> set fl" "even m" "4 \<le> m" "m \<le> n"
    using that by (rule place_unlink_ok)
  show "mm_malloc_ref s sz = do {
      bp \<leftarrow> find_fit_first s r;
      if bp \<noteq> NULL then do { s \<leftarrow> place_unlink s bp r; Some (bp, s) }
      else do {
        (bp, s) \<leftarrow> extend_heap_ref s (MAX_C r CHUNKSIZE div WSIZE);
        if bp = NULL then Some (NULL, s)
        else do { s \<leftarrow> place_unlink s bp r; Some (bp, s) } } }"
    if "0 < sz" "unat sz + 15 < 2 ^ 32" "r = bsize (req_words sz)"
    using word_gt_0 [of sz, THEN iffD1, OF that(1)]
    unfolding mm_malloc_ref_def Let_def ALIGN_eq [OF that(2)] that(3) by (simp add: place_unlink_def cong: if_cong)
qed (simp only: extend_heap_ref_code | simp add: mm_free_ref_def)+

lemma mm_init_ref_ok:
  assumes g: "geom s" and e: "mem_brk s = mem_start_brk s" and w: "unat (mem_max_addr s) + 4096 < 2 ^ 32"
  shows "\<exists>s'. mm_init_ref s = Some (0, s') \<and> listed_ref s' [Free 1024] [6] \<and> same_storage s s'"
proof -
  let ?b = "mem_start_brk s"
  let ?s0 = "s\<lparr>mem_brk := ptr ?b 6\<rparr>"
  let ?s1 = "(put_word (put_word (put_word (put_word (put_word (put_word ?s0 0 0) 1 (hdr 4 True))
      2 0) 3 0) 4 (hdr 4 True)) 5 (hdr 0 True))\<lparr>free_listp := ptr ?b 2\<rparr>"
  have sbrk: "mem_sbrk s (WSIZE * 6) = (ptr ?b 0, ?s0)"
    using mem_sbrk_ptr [OF g, of 0 6] e w by (simp add: ptr_def bsize_def WSIZE_def HEAPW_eq)
  have g0: "geom ?s0" using geom_brk [OF g, of 6] by (simp add: HEAPW_eq)
  have p: "ptr ?b 0 + WSIZE = ptr ?b 1" "ptr ?b 0 + 2 * WSIZE = ptr ?b 2" "ptr ?b 0 + 3 * WSIZE = ptr ?b 3"
    "ptr ?b 0 + 4 * WSIZE = ptr ?b 4" "ptr ?b 0 + 5 * WSIZE = ptr ?b 5"
    by (simp_all add: ptr_def WSIZE_def)
  have t: "PACK (4 * WSIZE) 1 = hdr 4 True" "PACK 0 0 = 0" "CHUNKSIZE = bsize 1024"
    by (simp_all add: PACK_def hdr_def bsize_def WSIZE_def CHUNKSIZE_def push_bit_eq_mult)
  have L: "listed_ref ?s1 [] []"
    using g0 by (simp add: listed_ref_def nlist_def heap_blocks_def hw_put_word HEAPW_eq)
  have "mm_init_ref s = do {
      (r, s) \<leftarrow> extend_heap_ref ?s1 (bsize 1024 div WSIZE);
      if r = NULL then Some (- 1, s) else Some (0, s) }"
    using sbrk g0 p t ptr_not_m1 [OF g, of 0]
    by (simp add: mm_init_ref_def Let_def heap_exec ptr_simps HEAPW_eq)
  moreover obtain s' where "extend_heap_ref ?s1 (bsize 1024 div WSIZE) = Some (ptr ?b 6, s')"
    "listed_ref s' [Free 1024] [6]" "same_storage ?s1 s'" "ptr ?b 6 \<noteq> NULL"
    using ref_alloc.extend_first [OF L] w by (auto simp: HEAPW_eq)
  ultimately show ?thesis by (simp add: same_storage_def)
qed

definition repr_ref :: "mm_ref \<Rightarrow> (addr \<rightharpoonup> byte list) \<Rightarrow> bool" where
  "repr_ref s L \<longleftrightarrow> (\<exists>bs fl. listed_ref s bs fl \<and> set fl = set (frees 6 bs) \<and> spaced bs
     \<and> L = live (mem_start_brk s) 6 bs)"

interpretation ref: list_package_realloc 4 6 listed_ref set "\<lambda>_. (#)" filter same_storage
  "\<lambda>s p n. add_block_ref s p" remove_block_ref True coalesce_ref extend_heap_ref mm_free_ref
  "\<lambda>m bs. find (\<lambda>i. m \<le> block_words 6 bs i)" find_fit_first place_unlink mm_malloc_ref
  repr_ref mm_init_ref mm_realloc_ref
proof unfold_locales
  show "\<exists>s' fl. mm_init_ref s = Some (0, s') \<and> listed_ref s' [Free 1024] fl \<and> set fl = {6} \<and> same_storage s s'"
    if "geom s" "mem_brk s = mem_start_brk s" "request_fits s 0" for s
    using mm_init_ref_ok [OF that(1,2)] that(3) by (fastforce simp: request_fits_def)
qed (simp_all add: repr_ref_def mm_realloc_ref_def Let_def cong: if_cong)

end
