(* ===== verification/Seg_List.thy ===== *)
theory Seg_List
  imports Malloc_Interface
begin

text \<open>
  The segregated-list allocator \<open>src/malloc/segregated_list-85.c\<close>: twenty free lists, one per power of two, each
  kept in the order of the block sizes and ended by NULL at both ends; the search is best fit, from the
  request's group upwards.
\<close>

section \<open>The code\<close>

definition GROUPSIZE :: nat where "GROUPSIZE = 20"

record mm_seg = mem +
  group_free_listp :: "addr list"

definition get_group :: "mm_seg \<Rightarrow> nat \<Rightarrow> addr option" where
  "get_group s i = (if i < length (group_free_listp s) then Some (group_free_listp s ! i) else None)"

definition set_group :: "mm_seg \<Rightarrow> nat \<Rightarrow> addr \<Rightarrow> mm_seg option" where
  "set_group s i p =
     (if i < length (group_free_listp s)
      then Some (s\<lparr>group_free_listp := (group_free_listp s)[i := p]\<rparr>) else None)"

text \<open>The loop that finds the group of a size, on a \<open>size_t\<close> (\<open>add_block\<close>, \<open>remove_block\<close>).\<close>

function group_from :: "nat \<Rightarrow> addr \<Rightarrow> nat" where
  "group_from group_idx sz =
     (if group_idx < GROUPSIZE - 1 \<and> sz > 1 then group_from (group_idx + 1) (drop_bit 1 sz)
      else group_idx)"
  by pat_completeness simp
termination by (relation "measure (\<lambda>(i, _). GROUPSIZE - i)") (auto simp: GROUPSIZE_def)

text \<open>The same loop on an \<open>int\<close> (\<open>find_fit\<close>).\<close>

function group_from_int :: "nat \<Rightarrow> cint \<Rightarrow> nat" where
  "group_from_int group_idx sz =
     (if group_idx < GROUPSIZE - 1 \<and> 1 <s sz then group_from_int (group_idx + 1) (signed_drop_bit 1 sz)
      else group_idx)"
  by pat_completeness simp
termination by (relation "measure (\<lambda>(i, _). GROUPSIZE - i)") (auto simp: GROUPSIZE_def)

declare group_from.simps [simp del] group_from_int.simps [simp del]

text \<open>The walk to the first block that is not smaller: \<open>prev\<close> and \<open>curr\<close>.\<close>

partial_function (option) insert_walk ::
  "mm_seg \<Rightarrow> addr \<Rightarrow> addr \<Rightarrow> addr \<Rightarrow> (addr \<times> addr) option" where
  "insert_walk s original_size prev cur =
     (if cur = NULL then Some (prev, cur)
      else do {
        n \<leftarrow> GET_SIZE s (HDRP cur);
        if original_size > n then do {
          q \<leftarrow> SUCC_P s cur;
          insert_walk s original_size cur q }
        else Some (prev, cur) })"

definition add_block_seg :: "mm_seg \<Rightarrow> addr \<Rightarrow> addr \<Rightarrow> mm_seg option" where
  "add_block_seg s bp sz = do {
     let group_idx = group_from 0 sz;
     cur \<leftarrow> get_group s group_idx;
     (prev, cur) \<leftarrow> insert_walk s sz NULL cur;
     if cur = NULL then
       (if prev = NULL then do {
          s \<leftarrow> SET_SUCC_P s bp NULL;
          s \<leftarrow> SET_PRED_P s bp NULL;
          set_group s group_idx bp }
        else do {
          s \<leftarrow> SET_SUCC_P s prev bp;
          s \<leftarrow> SET_PRED_P s bp prev;
          SET_SUCC_P s bp NULL })
     else
       (if prev = NULL then do {
          s \<leftarrow> SET_SUCC_P s bp cur;
          s \<leftarrow> SET_PRED_P s bp NULL;
          s \<leftarrow> SET_PRED_P s cur bp;
          set_group s group_idx bp }
        else do {
          s \<leftarrow> SET_SUCC_P s bp cur;
          s \<leftarrow> SET_PRED_P s bp prev;
          s \<leftarrow> SET_SUCC_P s prev bp;
          SET_PRED_P s cur bp }) }"

definition remove_block_seg :: "mm_seg \<Rightarrow> addr \<Rightarrow> mm_seg option" where
  "remove_block_seg s bp = do {
     sz \<leftarrow> GET_SIZE s (HDRP bp);
     let group_idx = group_from 0 sz;
     n \<leftarrow> SUCC_P s bp;
     p \<leftarrow> PRED_P s bp;
     if n = NULL then
       (if p = NULL then set_group s group_idx NULL
        else SET_SUCC_P s p NULL)
     else
       (if p = NULL then do {
          s \<leftarrow> SET_PRED_P s n NULL;
          n \<leftarrow> SUCC_P s bp;
          set_group s group_idx n }
        else do {
          s \<leftarrow> SET_PRED_P s n p;
          p \<leftarrow> PRED_P s bp;
          n \<leftarrow> SUCC_P s bp;
          SET_SUCC_P s p n }) }"

definition coalesce_seg :: "mm_seg \<Rightarrow> addr \<Rightarrow> (addr \<times> mm_seg) option" where
  "coalesce_seg s bp = do {
     pb \<leftarrow> PREV_BLKP s bp;
     pf \<leftarrow> FTRP s pb;
     prev_alloc \<leftarrow> GET_ALLOC s pf;
     nb \<leftarrow> NEXT_BLKP s bp;
     next_alloc \<leftarrow> GET_ALLOC s (HDRP nb);
     sz \<leftarrow> GET_SIZE s (HDRP bp);
     (bp, sz, s) \<leftarrow>
       (if prev_alloc \<noteq> 0 \<and> next_alloc \<noteq> 0 then Some (bp, sz, s)
        else if prev_alloc \<noteq> 0 \<and> next_alloc = 0 then do {
          nb \<leftarrow> NEXT_BLKP s bp;
          nsz \<leftarrow> GET_SIZE s (HDRP nb);
          s \<leftarrow> remove_block_seg s nb;
          s \<leftarrow> PUT s (HDRP bp) (PACK (sz + nsz) 0);
          f \<leftarrow> FTRP s bp;
          s \<leftarrow> PUT s f (PACK (sz + nsz) 0);
          Some (bp, sz + nsz, s) }
        else if prev_alloc = 0 \<and> next_alloc \<noteq> 0 then do {
          pb \<leftarrow> PREV_BLKP s bp;
          psz \<leftarrow> GET_SIZE s (HDRP pb);
          s \<leftarrow> remove_block_seg s pb;
          f \<leftarrow> FTRP s bp;
          s \<leftarrow> PUT s f (PACK (sz + psz) 0);
          pb \<leftarrow> PREV_BLKP s bp;
          s \<leftarrow> PUT s (HDRP pb) (PACK (sz + psz) 0);
          bp \<leftarrow> PREV_BLKP s bp;
          Some (bp, sz + psz, s) }
        else do {
          pb \<leftarrow> PREV_BLKP s bp;
          psz \<leftarrow> GET_SIZE s (HDRP pb);
          nb \<leftarrow> NEXT_BLKP s bp;
          nf \<leftarrow> FTRP s nb;
          nsz \<leftarrow> GET_SIZE s nf;
          let sz = sz + (psz + nsz);
          s \<leftarrow> remove_block_seg s nb;
          pb \<leftarrow> PREV_BLKP s bp;
          s \<leftarrow> remove_block_seg s pb;
          pb \<leftarrow> PREV_BLKP s bp;
          s \<leftarrow> PUT s (HDRP pb) (PACK sz 0);
          nb \<leftarrow> NEXT_BLKP s bp;
          nf \<leftarrow> FTRP s nb;
          s \<leftarrow> PUT s nf (PACK sz 0);
          bp \<leftarrow> PREV_BLKP s bp;
          Some (bp, sz, s) });
     s \<leftarrow> add_block_seg s bp sz;
     Some (bp, s) }"

definition extend_heap_seg :: "mm_seg \<Rightarrow> addr \<Rightarrow> (addr \<times> mm_seg) option" where
  "extend_heap_seg s words =
     (let sz = (if words AND 1 \<noteq> 0 then (words + 1) * WSIZE else words * WSIZE);
          (bp, s) = mem_sbrk s sz
      in if bp = - 1 then Some (NULL, s)
         else do {
           s \<leftarrow> PUT s (HDRP bp) (PACK sz 0);
           f \<leftarrow> FTRP s bp;
           s \<leftarrow> PUT s f (PACK sz 0);
           nb \<leftarrow> NEXT_BLKP s bp;
           s \<leftarrow> PUT s (HDRP nb) (PACK 0 1);
           coalesce_seg s bp })"

definition mm_init_seg :: "mm_seg \<Rightarrow> (int \<times> mm_seg) option" where
  "mm_init_seg s =
     (let s = s\<lparr>group_free_listp := replicate GROUPSIZE NULL\<rparr>;
          (heap_listp, s) = mem_sbrk s (WSIZE * 4)
      in if heap_listp = - 1 then Some (- 1, s)
         else do {
           s \<leftarrow> PUT s heap_listp 0;
           s \<leftarrow> PUT s (heap_listp + WSIZE) (PACK DSIZE 1);
           s \<leftarrow> PUT s (heap_listp + 2 * WSIZE) (PACK DSIZE 1);
           s \<leftarrow> PUT s (heap_listp + 3 * WSIZE) (PACK 0 1);
           (r, s) \<leftarrow> extend_heap_seg s (CHUNKSIZE div WSIZE);
           if r = NULL then Some (- 1, s) else Some (0, s) })"

text \<open>\<open>place\<close> takes the block off its list first, whether it was free or (from \<open>mm_realloc\<close>) allocated.\<close>

definition place_seg :: "mm_seg \<Rightarrow> addr \<Rightarrow> addr \<Rightarrow> mm_seg option" where
  "place_seg s bp asize = do {
     block_size \<leftarrow> GET_SIZE s (HDRP bp);
     s \<leftarrow> remove_block_seg s bp;
     if block_size - asize \<ge> 2 * DSIZE then do {
       s \<leftarrow> PUT s (HDRP bp) (PACK asize 1);
       f \<leftarrow> FTRP s bp;
       s \<leftarrow> PUT s f (PACK asize 1);
       bp \<leftarrow> NEXT_BLKP s bp;
       s \<leftarrow> PUT s (HDRP bp) (PACK (block_size - asize) 0);
       f \<leftarrow> FTRP s bp;
       s \<leftarrow> PUT s f (PACK (block_size - asize) 0);
       add_block_seg s bp (block_size - asize) }
     else do {
       s \<leftarrow> PUT s (HDRP bp) (PACK block_size 1);
       f \<leftarrow> FTRP s bp;
       PUT s f (PACK block_size 1) } }"

partial_function (option) fit_walk :: "mm_seg \<Rightarrow> addr \<Rightarrow> addr \<Rightarrow> addr option" where
  "fit_walk s asize cur =
     (if cur = NULL then Some NULL
      else do {
        n \<leftarrow> GET_SIZE s (HDRP cur);
        if asize > n then do {
          q \<leftarrow> SUCC_P s cur;
          fit_walk s asize q }
        else Some cur })"

text \<open>The loop over the groups: the list of groups it still has to search.\<close>

fun fit_groups :: "mm_seg \<Rightarrow> addr \<Rightarrow> nat list \<Rightarrow> addr option" where
  "fit_groups s asize [] = Some NULL"
| "fit_groups s asize (i # is) = do {
     cur \<leftarrow> get_group s i;
     cur \<leftarrow> fit_walk s asize cur;
     if cur \<noteq> NULL then Some cur else fit_groups s asize is }"

definition find_fit_seg :: "mm_seg \<Rightarrow> addr \<Rightarrow> addr option" where
  "find_fit_seg s asize = fit_groups s asize [group_from_int 0 asize..<GROUPSIZE]"

definition mm_malloc_seg :: "mm_seg \<Rightarrow> addr \<Rightarrow> (addr \<times> mm_seg) option" where
  "mm_malloc_seg s sz =
     (let newsize = ALIGN (sz + DSIZE);
          extendsize = MAX_C newsize CHUNKSIZE
      in if sz = 0 then Some (NULL, s)
         else do {
           bp \<leftarrow> find_fit_seg s newsize;
           if bp \<noteq> NULL then do {
             s \<leftarrow> place_seg s bp newsize;
             Some (bp, s) }
           else do {
             (bp, s) \<leftarrow> extend_heap_seg s (extendsize div WSIZE);
             if bp = NULL then Some (NULL, s)
             else do {
               s \<leftarrow> place_seg s bp newsize;
               Some (bp, s) } } })"

definition mm_free_seg :: "mm_seg \<Rightarrow> addr \<Rightarrow> mm_seg option" where
  "mm_free_seg s bp = do {
     sz \<leftarrow> GET_SIZE s (HDRP bp);
     s \<leftarrow> PUT s (HDRP bp) (PACK sz 0);
     f \<leftarrow> FTRP s bp;
     s \<leftarrow> PUT s f (PACK sz 0);
     (_, s) \<leftarrow> coalesce_seg s bp;
     Some s }"

definition mm_realloc_seg :: "mm_seg \<Rightarrow> addr \<Rightarrow> addr \<Rightarrow> (addr \<times> mm_seg) option" where
  "mm_realloc_seg s p sz =
     (if sz = 0 then do {
        s \<leftarrow> mm_free_seg s p;
        Some (p, s) }
      else if p = NULL then mm_malloc_seg s sz
      else do {
        let new_size = ALIGN (sz + DSIZE);
        block_size \<leftarrow> GET_SIZE s (HDRP p);
        if new_size \<le> block_size then do {
          s \<leftarrow> place_seg s p new_size;
          Some (p, s) }
        else do {
          (new_ptr, s) \<leftarrow> mm_malloc_seg s sz;
          if new_ptr = NULL then Some (NULL, s)
          else do {
            s \<leftarrow> memcpy s new_ptr p sz;
            s \<leftarrow> mm_free_seg s p;
            Some (new_ptr, s) } } })"

end
