(* ===== verification/Seg_Facts.thy ===== *)
theory Seg_Facts
  imports Seg_List
begin

text \<open>
  Facts on the segregated list: the group of a size, by both loops that compute it, and what shrinking a block in
  place does to the free lists.
\<close>


section \<open>The group of a size\<close>

lemma unat_half: "unat (drop_bit 1 (x :: addr)) = unat x div 2"
  by (simp only: unat_drop_bit_eq) (simp add: drop_bit_eq_div)

lemma group_from_bounds:
  assumes "g < 20" "2 ^ g * unat sz \<le> n" "n < 2 ^ g * (unat sz + 1)" "0 < unat sz"
  shows "group_from g sz < 20 \<and> 2 ^ group_from g sz \<le> n \<and> (group_from g sz < 19 \<longrightarrow> n < 2 ^ (group_from g sz + 1))"
  using assms
proof (induction g sz rule: group_from.induct)
  case (1 g sz)
  show ?case
  proof (cases "g < GROUPSIZE - 1 \<and> sz > 1")
    case True
    have half: "unat (drop_bit 1 sz) = unat sz div 2" by (rule unat_half)
    have "1 < unat sz" using True by (simp add: word_less_nat_alt)
    then have pos: "0 < unat (drop_bit 1 sz)" unfolding half by simp
    have "2 ^ (g + 1) * (unat sz div 2) = 2 ^ g * (2 * (unat sz div 2))" by simp
    also have "\<dots> \<le> 2 ^ g * unat sz" by (rule mult_le_mono2) simp
    finally have lo: "2 ^ (g + 1) * unat (drop_bit 1 sz) \<le> n" unfolding half using "1.prems"(2) by (rule order_trans)
    have "2 ^ g * (unat sz + 1) \<le> 2 ^ g * (2 * (unat sz div 2 + 1))" by (rule mult_le_mono2) simp
    also have "\<dots> = 2 ^ (g + 1) * (unat (drop_bit 1 sz) + 1)" unfolding half by simp
    finally have hi: "n < 2 ^ (g + 1) * (unat (drop_bit 1 sz) + 1)" using "1.prems"(3) by simp
    have "g + 1 < 20" using True by (simp add: GROUPSIZE_def)
    note this lo hi pos
    moreover have "group_from g sz = group_from (g + 1) (drop_bit 1 sz)"
      using True by (subst group_from.simps) simp
    ultimately show ?thesis using "1.IH" [OF True] by simp
  next
    case False
    then have e: "group_from g sz = g" by (subst group_from.simps) auto
    have le: "2 ^ g \<le> n"
    proof -
      have "(2 :: nat) ^ g \<le> 2 ^ g * unat sz" using "1.prems"(4) by simp
      then show ?thesis using "1.prems"(2) by (rule order_trans)
    qed
    have "n < 2 ^ (g + 1)" if "g < 19"
    proof -
      have "unat sz \<le> 1" using False that by (simp add: GROUPSIZE_def word_less_nat_alt)
      then have "2 ^ g * (unat sz + 1) \<le> (2 :: nat) ^ g * 2" by (intro mult_le_mono2) simp
      with "1.prems"(3) have "n < 2 ^ g * 2" by (rule less_le_trans)
      then show ?thesis by simp
    qed
    then show ?thesis using e le "1.prems"(1) by simp
  qed
qed

text \<open>Group \<open>g < 19\<close> holds the sizes from \<open>2 ^ g\<close> to below \<open>2 ^ (g + 1)\<close>, group 19 the larger ones.\<close>

lemma group_of_size:
  "0 < unat sz \<Longrightarrow> group_from 0 sz < 20 \<and> 2 ^ group_from 0 sz \<le> unat sz
     \<and> (group_from 0 sz < 19 \<longrightarrow> unat sz < 2 ^ (group_from 0 sz + 1))"
  by (rule group_from_bounds) simp_all

lemma group_int_eq: "unat sz < 2 ^ 31 \<Longrightarrow> group_from_int g sz = group_from g sz"
proof (induction g sz rule: group_from.induct)
  case (1 g sz)
  have s: "sint sz = int (unat sz)" by (rule sint_small [OF 1(2)])
  have c: "1 <s sz \<longleftrightarrow> 1 < sz"
    unfolding word_sless_alt s by (simp add: word_less_nat_alt del: of_nat_unat)
  have h: "signed_drop_bit 1 sz = drop_bit 1 sz"
  proof -
    have d: "unat (drop_bit 1 sz) = unat sz div 2" by (rule unat_half)
    then have "sint (drop_bit 1 sz) = int (unat sz div 2)" using 1(2) sint_small [of "drop_bit 1 sz"] by simp
    then have "sint (signed_drop_bit 1 sz) = sint (drop_bit 1 sz)"
      unfolding sint_signed_drop_bit_eq s by (simp add: drop_bit_eq_div zdiv_int del: of_nat_unat)
    then show ?thesis by (rule signed_word_eqI)
  qed
  show ?case
  proof (cases "g < GROUPSIZE - 1 \<and> sz > 1")
    case True
    have "unat (drop_bit 1 sz) < 2 ^ 31" unfolding unat_half using 1(2) by simp
    with True 1(1) show ?thesis
      by (subst group_from.simps, subst group_from_int.simps) (simp add: c h [unfolded One_nat_def])
  next
    case False
    then show ?thesis by (subst group_from.simps, subst group_from_int.simps) (auto simp: c)
  qed
qed

section \<open>Shrinking a block in place\<close>

text \<open>
  \<open>mm_realloc\<close> calls \<open>place\<close> when the block is large enough, and \<open>place\<close> starts by taking the block off its
  free list. The block is allocated: its first two payload words are the client's data, not links.
  When they are zero, the block passes for the only member of its group, and the whole group is dropped.
\<close>

lemma hw_groups [simp]: "hw (s\<lparr>group_free_listp := gs\<rparr>) = hw s"
  by (rule ext) (simp add: hw_def)

lemma geom_groups [simp]: "geom (s\<lparr>group_free_listp := gs\<rparr>) = geom s"
  by (simp add: geom_def)

lemma groups_put_word [simp]: "group_free_listp (put_word s i v) = group_free_listp s"
  by (simp add: put_word_def)

lemma mm_realloc_seg_drops_group:
  assumes H: "heap_blocks s 2 (xs @ Used ws # ys)" and gs: "length (group_free_listp s) = GROUPSIZE"
    and z: "ws ! 0 = 0" "ws ! 1 = 0"
    and sz: "0 < sz" "unat sz + 15 < 2 ^ 32" "req_words sz \<le> length ws + 2" "length ws + 2 < req_words sz + 4"
  shows "\<exists>s'. mm_realloc_seg s (ptr (mem_start_brk s) (4 + twords xs)) sz = Some (ptr (mem_start_brk s) (4 + twords xs), s')
    \<and> group_free_listp s' = (group_free_listp s)[group_from 0 (bsize (length ws + 2)) := NULL]"
proof -
  define j n where "j = 4 + twords xs" and "n = length ws + 2"
  have j2: "j = 2 + 2 + twords xs" by (simp add: j_def)
  note D = heap_blocksD [OF H] and V = heap_block_view [OF H j2]
  have n30: "n < 2 ^ 30" and n4: "4 \<le> n" "even n" "j + n \<le> HEAPW" "4 \<le> j"
    using V(6-10) by (simp_all add: n_def HEAPW_eq)
  have tg: "hw s (j - 1) = hdr n True" using V(1) by (simp add: n_def)
  have "blk_at (hw s) j (Used ws)" using D(6) j_def by simp
  then have w: "k < length ws \<Longrightarrow> hw s (j + k) = ws ! k" for k by (simp add: blk_at_def)
  have "2 \<le> length ws" using n4(1) by (simp add: n_def)
  then have "0 < length ws" "1 < length ws" by linarith+
  then have ld: "hw s j = 0" "hw s (j + 1) = 0" using w [of 0] w [of 1] z by simp_all
  have g: "group_from 0 (bsize n) < 20"
    using group_of_size [of "bsize n"] n30 n4(1) by (simp add: unat_bsize)
  have nz: "ptr (mem_start_brk s) j \<noteq> NULL" "sz \<noteq> 0"
    using ptr_not_NULL [OF D(1), of j] n4 sz(1) by (auto simp: j_def)
  have a: "ALIGN (sz + DSIZE) = bsize (req_words sz)" by (rule ALIGN_eq [OF sz(2)])
  have r: "req_words sz < 2 ^ 30" "req_words sz \<le> n" "n < req_words sz + 4" using sz(3,4) n30 by (simp_all add: n_def)
  have fit: "bsize (req_words sz) \<le> bsize n" using bsize_le_iff [of "req_words sz" n] r n30 by simp
  have small: "\<not> 2 * DSIZE \<le> bsize n - bsize (req_words sz)"
    using r n30 by (simp add: ptr_simps bsize_ge_2DSIZE)
  let ?s = "s\<lparr>group_free_listp := (group_free_listp s)[group_from 0 (bsize n) := NULL]\<rparr>"
  let ?t = "put_word (put_word ?s (j - 1) (hdr n True)) (j + n - 2) (hdr n True)"
  have size: "GET_SIZE s (HDRP (ptr (mem_start_brk s) j)) = Some (bsize n)"
    using D(1) n4 tg by (simp add: ptr_simps heap_exec)
  have rem: "remove_block_seg s (ptr (mem_start_brk s) j) = Some ?s"
    using size D(1) n4 ld g gs
    by (simp add: remove_block_seg_def SUCC_P_def PRED_P_def set_group_def GROUPSIZE_def Let_def ptr_simps heap_exec)
  have "place_seg s (ptr (mem_start_brk s) j) (bsize (req_words sz)) = Some ?t"
    using size rem small D(1) n4
    by (simp add: place_seg_def blk_macros ptr_simps heap_exec)
  then have "mm_realloc_seg s (ptr (mem_start_brk s) j) sz = Some (ptr (mem_start_brk s) j, ?t)"
    using nz size a fit by (simp add: mm_realloc_seg_def Let_def)
  then show ?thesis by (intro exI [of _ ?t]) (simp add: j_def n_def)
qed

end
