(* ===== verification/Seg_Correct.thy ===== *)
theory Seg_Correct
  imports Free_Store Link_Words Seg_Facts
begin

text \<open>
  Correctness of \<open>mm_init\<close>, \<open>mm_malloc\<close> and \<open>mm_free\<close> of \<open>src/malloc/segregated_list-85.c\<close>: twenty lists, each linked
  both ways, sorted by size and holding the free blocks of its group; the two list operations keep the contract
  \<open>free_list\<close>, and the search finds a best fit. \<open>mm_realloc\<close> does not keep the lists (\<open>mm_realloc_seg_drops_group\<close>).
\<close>

section \<open>Linked segments\<close>

text \<open>
  \<open>linked h b pr xs nx\<close>: the blocks \<open>xs\<close> are linked both ways, the first one back to \<open>pr\<close> and the last one on to \<open>nx\<close>.
\<close>

definition head_or :: "addr \<Rightarrow> nat list \<Rightarrow> addr \<Rightarrow> addr" where
  "head_or b xs nx = (case xs of [] \<Rightarrow> nx | x # _ \<Rightarrow> ptr b x)"

definition last_or :: "addr \<Rightarrow> addr \<Rightarrow> nat list \<Rightarrow> addr" where
  "last_or b pr xs = (if xs = [] then pr else ptr b (last xs))"

primrec linked :: "(nat \<Rightarrow> 32 word) \<Rightarrow> addr \<Rightarrow> addr \<Rightarrow> nat list \<Rightarrow> addr \<Rightarrow> bool" where
  "linked h b pr [] nx \<longleftrightarrow> True"
| "linked h b pr (x # xs) nx \<longleftrightarrow> h x = pr \<and> h (Suc x) = head_or b xs nx \<and> linked h b (ptr b x) xs nx"

lemma head_last_simps [simp]:
  "head_or b [] nx = nx" "head_or b (x # xs) nx = ptr b x" "head_or b (xs @ x # ys) nx = head_or b xs (ptr b x)"
  "last_or b pr [] = pr" "last_or b pr (xs @ [x]) = ptr b x" "last_or b (ptr b x) xs = ptr b (last (x # xs))"
  by (simp_all add: head_or_def last_or_def split: list.split)

lemma linked_append:
  "linked h b pr (xs @ ys) nx \<longleftrightarrow> linked h b pr xs (head_or b ys nx) \<and> linked h b (last_or b pr xs) ys nx"
proof (induction xs arbitrary: pr)
  case (Cons x xs)
  have "head_or b (xs @ ys) nx = head_or b xs (head_or b ys nx)" by (cases xs) simp_all
  with Cons show ?case by (auto simp: last_or_def)
qed simp

lemma linked_cong:
  "(\<And>x. x \<in> set xs \<Longrightarrow> h x = h' x \<and> h (Suc x) = h' (Suc x)) \<Longrightarrow> linked h b pr xs nx \<longleftrightarrow> linked h' b pr xs nx"
  by (induction xs arbitrary: pr) auto

text \<open>Relinking the last and the first member.\<close>

lemma linked_last:
  assumes "linked h b pr xs nx" "\<And>x. x \<in> set xs \<Longrightarrow> h' x = h x" "\<And>x. x \<in> set (butlast xs) \<Longrightarrow> h' (Suc x) = h (Suc x)"
    and "xs \<noteq> [] \<Longrightarrow> h' (Suc (last xs)) = nx'"
  shows "linked h' b pr xs nx'"
  using assms
proof (induction xs arbitrary: pr)
  case (Cons x xs)
  then show ?case by (cases xs) auto
qed simp

lemma linked_first:
  assumes "linked h b pr xs nx" "\<And>x. x \<in> set (tl xs) \<Longrightarrow> h' x = h x" "\<And>x. x \<in> set xs \<Longrightarrow> h' (Suc x) = h (Suc x)"
    and "xs \<noteq> [] \<Longrightarrow> h' (hd xs) = pr'"
  shows "linked h' b pr' xs nx"
proof (cases xs)
  case (Cons x ys)
  then have "linked h b (ptr b x) ys nx \<longleftrightarrow> linked h' b (ptr b x) ys nx"
    using assms(2,3) by (intro linked_cong) auto
  with Cons assms show ?thesis by simp
qed simp

text \<open>Members have even indices, so a successor word is never a predecessor word.\<close>

lemma linked_insert:
  assumes l: "linked h b 0 (us @ vs) 0" and d: "distinct (us @ p # vs)" "\<forall>x \<in> set (us @ p # vs). even x"
    and h: "h' p = last_or b 0 us" "h' (Suc p) = head_or b vs 0"
    and us: "us \<noteq> [] \<Longrightarrow> h' (Suc (last us)) = ptr b p" and vs: "vs \<noteq> [] \<Longrightarrow> h' (hd vs) = ptr b p"
    and o: "\<And>k. k \<noteq> p \<Longrightarrow> k \<noteq> Suc p \<Longrightarrow> (us = [] \<or> k \<noteq> Suc (last us)) \<Longrightarrow> (vs = [] \<or> k \<noteq> hd vs) \<Longrightarrow> h' k = h k"
  shows "linked h' b 0 (us @ p # vs) 0"
proof -
  have L: "linked h b 0 us (head_or b vs 0)" "linked h b (last_or b 0 us) vs 0"
    using l by (simp_all add: linked_append)
  have ns: "x \<noteq> Suc y" if "x \<in> set (us @ p # vs)" "y \<in> set (us @ p # vs)" for x y
    using that bspec [OF d(2), of x] bspec [OF d(2), of y] by auto
  have hv: "vs \<noteq> [] \<Longrightarrow> hd vs \<in> set vs" and lu: "us \<noteq> [] \<Longrightarrow> last us \<in> set us" by simp_all
  have "linked h' b 0 us (ptr b p)"
  proof (rule linked_last [where h' = h', OF L(1) _ _ us])
    show "h' x = h x" if "x \<in> set us" for x
      by (rule o) (use that d(1) hv lu ns [of x p] ns [of x "last us"] in auto)
    show "h' (Suc x) = h (Suc x)" if x: "x \<in> set (butlast us)" for x
    proof (rule o)
      have "x \<in> set us" "x \<noteq> last us"
        using x d(1) by (cases us rule: rev_cases; auto)+
      then show "Suc x \<noteq> p" "Suc x \<noteq> Suc p" "us = [] \<or> Suc x \<noteq> Suc (last us)" "vs = [] \<or> Suc x \<noteq> hd vs"
        using d(1) hv ns [of "hd vs" x] ns [of p x] by auto
    qed
  qed
  moreover have "linked h' b (ptr b p) vs 0"
  proof (rule linked_first [where h' = h', OF L(2) _ _ vs])
    show "h' x = h x" if "x \<in> set (tl vs)" for x
    proof (rule o)
      have "x \<in> set vs" "x \<noteq> hd vs" using that d(1) by (cases vs; auto)+
      then show "x \<noteq> p" "x \<noteq> Suc p" "us = [] \<or> x \<noteq> Suc (last us)" "vs = [] \<or> x \<noteq> hd vs"
        using d(1) lu ns [of x p] ns [of x "last us"] by auto
    qed
    have dj: "last us \<notin> set vs" if "us \<noteq> []" using lu [OF that] d(1) by (auto simp: disjoint_iff)
    show "h' (Suc x) = h (Suc x)" if "x \<in> set vs" for x
      by (rule o) (use that d(1) hv dj ns [of "hd vs" x] ns [of p x] in auto)
  qed
  ultimately show ?thesis using h by (simp add: linked_append)
qed

lemma linked_delete:
  assumes l: "linked h b 0 (us @ p # vs) 0" and d: "distinct (us @ p # vs)" "\<forall>x \<in> set (us @ p # vs). even x"
    and us: "us \<noteq> [] \<Longrightarrow> h' (Suc (last us)) = head_or b vs 0" and vs: "vs \<noteq> [] \<Longrightarrow> h' (hd vs) = last_or b 0 us"
    and o: "\<And>k. (us = [] \<or> k \<noteq> Suc (last us)) \<Longrightarrow> (vs = [] \<or> k \<noteq> hd vs) \<Longrightarrow> h' k = h k"
  shows "linked h' b 0 (us @ vs) 0"
proof -
  have L: "linked h b 0 us (ptr b p)" "linked h b (ptr b p) vs 0"
    using l by (simp_all add: linked_append)
  have ns: "x \<noteq> Suc y" if "x \<in> set (us @ p # vs)" "y \<in> set (us @ p # vs)" for x y
    using that bspec [OF d(2), of x] bspec [OF d(2), of y] by auto
  have hv: "vs \<noteq> [] \<Longrightarrow> hd vs \<in> set vs" and lu: "us \<noteq> [] \<Longrightarrow> last us \<in> set us" by simp_all
  have "linked h' b 0 us (head_or b vs 0)"
  proof (rule linked_last [where h' = h', OF L(1) _ _ us])
    show "h' x = h x" if "x \<in> set us" for x
      by (rule o) (use that d(1) hv lu ns [of x p] ns [of x "last us"] in auto)
    show "h' (Suc x) = h (Suc x)" if x: "x \<in> set (butlast us)" for x
    proof (rule o)
      have "x \<in> set us" "x \<noteq> last us"
        using x d(1) by (cases us rule: rev_cases; auto)+
      then show "us = [] \<or> Suc x \<noteq> Suc (last us)" "vs = [] \<or> Suc x \<noteq> hd vs"
        using d(1) hv ns [of "hd vs" x] ns [of p x] by auto
    qed
  qed
  moreover have "linked h' b (last_or b 0 us) vs 0"
  proof (rule linked_first [where h' = h', OF L(2) _ _ vs])
    show "h' x = h x" if "x \<in> set (tl vs)" for x
    proof (rule o)
      have "x \<in> set vs" "x \<noteq> hd vs" using that d(1) by (cases vs; auto)+
      then show "us = [] \<or> x \<noteq> Suc (last us)" "vs = [] \<or> x \<noteq> hd vs"
        using d(1) lu ns [of x p] ns [of x "last us"] by auto
    qed
    have dj: "last us \<notin> set vs" if "us \<noteq> []" using lu [OF that] d(1) by (auto simp: disjoint_iff)
    show "h' (Suc x) = h (Suc x)" if "x \<in> set vs" for x
      by (rule o) (use that d(1) hv dj ns [of "hd vs" x] ns [of p x] in auto)
  qed
  ultimately show ?thesis by (simp add: linked_append)
qed

section \<open>The twenty lists\<close>

text \<open>
  \<open>F g\<close> is the list of group \<open>g\<close>. Its members are free blocks of the group, sorted by size and linked both ways with
  NULL at both ends.
\<close>

definition group_of :: "nat \<Rightarrow> nat" where
  "group_of n = group_from 0 (bsize n)"

definition group_ok :: "mm_seg \<Rightarrow> blk list \<Rightarrow> nat \<Rightarrow> nat list \<Rightarrow> bool" where
  "group_ok s bs g fl \<longleftrightarrow> linked (hw s) (mem_start_brk s) 0 fl 0 \<and> distinct fl
     \<and> sorted (map (block_words 4 bs) fl) \<and> (\<forall>k \<in> set fl. group_of (block_words 4 bs k) = g)
     \<and> (if g < GROUPSIZE then group_free_listp s ! g = head_or (mem_start_brk s) fl 0 else fl = [])"

definition listed_seg :: "mm_seg \<Rightarrow> blk list \<Rightarrow> (nat \<Rightarrow> nat list) \<Rightarrow> bool" where
  "listed_seg s bs F \<longleftrightarrow> heap_blocks s 2 bs \<and> length (group_free_listp s) = GROUPSIZE
     \<and> (\<Union>g. set (F g)) \<subseteq> set (frees 4 bs) \<and> (\<forall>g. group_ok s bs g (F g))"

definition seg_ins :: "blk list \<Rightarrow> nat \<Rightarrow> (nat \<Rightarrow> nat list) \<Rightarrow> nat \<Rightarrow> nat list" where
  "seg_ins bs p F = (let n = block_words 4 bs p; g = group_of n
     in F(g := takeWhile (\<lambda>k. block_words 4 bs k < n) (F g) @ p # dropWhile (\<lambda>k. block_words 4 bs k < n) (F g)))"

lemma listed_segD:
  assumes "listed_seg s bs F"
  shows "heap_blocks s 2 bs" "length (group_free_listp s) = GROUPSIZE" "\<And>g. set (F g) \<subseteq> set (frees 4 bs)"
    "\<And>g. group_ok s bs g (F g)"
  using assms by (auto simp: listed_seg_def)

lemma group_okD:
  assumes "group_ok s bs g fl"
  shows "linked (hw s) (mem_start_brk s) 0 fl 0" "distinct fl" "sorted (map (block_words 4 bs) fl)"
    "\<And>k. k \<in> set fl \<Longrightarrow> group_of (block_words 4 bs k) = g"
    "g < GROUPSIZE \<Longrightarrow> group_free_listp s ! g = head_or (mem_start_brk s) fl 0"
  using assms by (auto simp: group_ok_def)

text \<open>What the code reads of a free block.\<close>

lemma free_seg_index:
  assumes H: "heap_blocks s 2 bs" and i: "i \<in> set (frees 4 bs)"
  shows "even i" "4 \<le> i" "i + 4 \<le> HEAPW" "ptr (mem_start_brk s) i \<noteq> NULL"
    "GET_SIZE s (HDRP (ptr (mem_start_brk s) i)) = Some (bsize (block_words 4 bs i))"
    "4 \<le> block_words 4 bs i" "block_words 4 bs i < 2 ^ 30"
proof -
  obtain xs n ys where bs: "bs = xs @ Free n # ys" and j: "i = 4 + twords xs" using frees_split [OF i] by blast
  have j2: "i = 2 + 2 + twords xs" using j by simp
  note D = heap_blocksD [OF H] and V = heap_block_view [OF H [unfolded bs] j2]
  have n: "block_words 4 bs i = n" using block_words_middle [of xs 4 "Free n" ys] D(9) bs j by simp
  show "even i" "4 \<le> i" "i + 4 \<le> HEAPW" "4 \<le> block_words 4 bs i" "block_words 4 bs i < 2 ^ 30"
    using V n by (simp_all add: HEAPW_eq)
  show "ptr (mem_start_brk s) i \<noteq> NULL" using V(9,10) by (intro ptr_not_NULL [OF D(1)]) simp
  show "GET_SIZE s (HDRP (ptr (mem_start_brk s) i)) = Some (bsize (block_words 4 bs i))"
    using D(1) V(1,6,8,9,10) n by (simp add: ptr_simps heap_exec)
qed

lemma group_of_less: "4 \<le> n \<Longrightarrow> n < 2 ^ 30 \<Longrightarrow> group_of n < GROUPSIZE"
  using group_of_size [of "bsize n"] by (simp add: group_of_def unat_bsize GROUPSIZE_def)

text \<open>Larger blocks are in later groups.\<close>

lemma group_of_mono:
  assumes "4 \<le> m" "m \<le> n" "n < 2 ^ 30"
  shows "group_of m \<le> group_of n"
proof (rule ccontr)
  assume "\<not> group_of m \<le> group_of n"
  moreover have "group_of m < 20 \<and> 2 ^ group_of m \<le> 4 * m"
    "group_of n < 20 \<and> 2 ^ group_of n \<le> 4 * n \<and> (group_of n < 19 \<longrightarrow> 4 * n < 2 ^ (group_of n + 1))"
    using group_of_size [of "bsize m"] group_of_size [of "bsize n"] assms by (simp_all add: group_of_def unat_bsize)
  moreover have "(2 :: nat) ^ (group_of n + 1) \<le> 2 ^ group_of m" if "group_of n < group_of m"
    using that by (intro power_increasing) simp_all
  ultimately show False using assms by auto
qed

lemma group_blocks_cong:
  assumes "\<And>k. k \<in> set fl \<Longrightarrow> hw s' k = hw s k \<and> hw s' (Suc k) = hw s (Suc k) \<and> block_words 4 bs' k = block_words 4 bs k"
    and "mem_start_brk s' = mem_start_brk s" "group_free_listp s' ! g = group_free_listp s ! g"
  shows "group_ok s' bs' g fl \<longleftrightarrow> group_ok s bs g fl"
proof -
  have "linked (hw s') b 0 fl 0 \<longleftrightarrow> linked (hw s) b 0 fl 0" for b
    by (rule linked_cong) (use assms(1) in simp)
  moreover have "sorted (map (block_words 4 bs') fl) = sorted (map (block_words 4 bs) fl)"
    by (rule arg_cong [of _ _ sorted]) (use assms(1) in simp)
  ultimately show ?thesis using assms by (auto simp: group_ok_def)
qed

section \<open>The list operations on a tagged heap\<close>

lemma same_storage_seg [simp]:
  "same_storage s (put_word s' i v) = same_storage s s'"
  "same_storage s (s'\<lparr>group_free_listp := x\<rparr>) = same_storage s s'"
  by (simp_all add: same_storage_def)

lemma heap_blocks_groups [simp]: "heap_blocks (s\<lparr>group_free_listp := x\<rparr>) pn bs = heap_blocks s pn bs"
  by (simp add: heap_blocks_def)

lemma frame_seg: "only_heap s s' \<Longrightarrow> group_free_listp s' = group_free_listp s"
  by (drule only_heap_def [THEN iffD1, THEN arg_cong, of _ _ group_free_listp]) simp

lemma seg_upd:
  assumes "heap_blocks s 2 bs" "i \<in> set (frees 4 bs)"
  shows "heap_blocks (put_word s i v) 2 bs" "heap_blocks (put_word s (Suc i) v) 2 bs"
  using heap_blocks_upd_interior [OF assms(1), of i] assms(2) by simp_all

text \<open>The walk of \<open>add_block\<close> stops between the smaller blocks and the others.\<close>

lemma insert_walk_ok:
  assumes H: "heap_blocks s 2 bs" and n: "n < 2 ^ 30"
  shows "set ws \<subseteq> set (frees 4 bs) \<Longrightarrow> linked (hw s) (mem_start_brk s) pr ws 0
    \<Longrightarrow> insert_walk s (bsize n) pr (head_or (mem_start_brk s) ws 0)
      = Some (last_or (mem_start_brk s) pr (takeWhile (\<lambda>k. block_words 4 bs k < n) ws),
          head_or (mem_start_brk s) (dropWhile (\<lambda>k. block_words 4 bs k < n) ws) 0)"
proof (induction ws arbitrary: pr)
  case Nil
  then show ?case by (subst insert_walk.simps) simp
next
  case (Cons w ws)
  have w: "w \<in> set (frees 4 bs)" using Cons.prems(1) by simp
  note I = free_seg_index [OF H w]
  have cmp: "bsize n > bsize (block_words 4 bs w) \<longleftrightarrow> block_words 4 bs w < n"
    using bsize_le_iff [OF n I(7)] by (simp add: not_le [symmetric])
  have "SUCC_P s (ptr (mem_start_brk s) w) = Some (head_or (mem_start_brk s) ws 0)"
    using heap_blocksD(1) [OF H] I(3) Cons.prems(2) by (simp add: SUCC_P_def ptr_simps heap_exec)
  then show ?case
    using I(4,5) cmp Cons by (subst insert_walk.simps) (auto simp: last_or_def)
qed

definition link_in :: "(nat \<Rightarrow> 32 word) \<Rightarrow> addr \<Rightarrow> nat list \<Rightarrow> nat \<Rightarrow> nat list \<Rightarrow> nat \<Rightarrow> 32 word" where
  "link_in h b us p vs k =
     (if us \<noteq> [] \<and> k = Suc (last us) \<or> vs \<noteq> [] \<and> k = hd vs then ptr b p
      else if k = p then last_or b 0 us else if k = Suc p then head_or b vs 0 else h k)"

definition link_out :: "(nat \<Rightarrow> 32 word) \<Rightarrow> addr \<Rightarrow> nat list \<Rightarrow> nat list \<Rightarrow> nat \<Rightarrow> 32 word" where
  "link_out h b us vs k =
     (if us \<noteq> [] \<and> k = Suc (last us) then head_or b vs 0
      else if vs \<noteq> [] \<and> k = hd vs then last_or b 0 us else h k)"

lemma add_block_seg_words:
  assumes H: "heap_blocks s 2 bs" and m: "set (us @ p # vs) \<subseteq> set (frees 4 bs)" and d: "distinct (us @ p # vs)"
    and g: "group_from 0 sz < length (group_free_listp s)"
    and w: "insert_walk s sz NULL (group_free_listp s ! group_from 0 sz)
      = Some (last_or (mem_start_brk s) 0 us, head_or (mem_start_brk s) vs 0)"
  shows "\<exists>s'. add_block_seg s (ptr (mem_start_brk s) p) sz = Some s' \<and> heap_blocks s' 2 bs \<and> same_storage s s'
    \<and> hw s' = link_in (hw s) (mem_start_brk s) us p vs
    \<and> group_free_listp s' = (if us = [] then (group_free_listp s)[group_from 0 sz := ptr (mem_start_brk s) p]
        else group_free_listp s)"
proof -
  let ?b = "mem_start_brk s" and ?gs = "(group_free_listp s)[group_from 0 sz := ptr (mem_start_brk s) p]"
  have g0: "geom s" using heap_blocksD(1) [OF H] .
  have p: "p \<in> set (frees 4 bs)" and u: "us \<noteq> [] \<Longrightarrow> last us \<in> set (frees 4 bs)"
    and v: "vs \<noteq> [] \<Longrightarrow> hd vs \<in> set (frees 4 bs)" using m by auto
  have nu: "us \<noteq> [] \<Longrightarrow> last us \<noteq> p" and nv: "vs \<noteq> [] \<Longrightarrow> hd vs \<noteq> p"
    using d by (auto dest: last_in_set hd_in_set)
  have P: "p + 1 < HEAPW" "even p" using free_seg_index [OF H p] by simp_all
  have U: "last us + 1 < HEAPW" "even (last us)" "ptr ?b (last us) \<noteq> 0" if "us \<noteq> []"
    using free_seg_index [OF H u [OF that]] by simp_all
  have V: "hd vs + 1 < HEAPW" "even (hd vs)" "ptr ?b (hd vs) \<noteq> 0" if "vs \<noteq> []"
    using free_seg_index [OF H v [OF that]] by simp_all
  have hv: "head_or ?b vs 0 = (if vs = [] then 0 else ptr ?b (hd vs))" by (cases vs) simp_all
  note S = add_block_seg_def Let_def get_group_def set_group_def SET_SUCC_P_def SET_PRED_P_def ptr_simps heap_exec
    link_in_def last_or_def fun_eq_iff
  show ?thesis
  proof (cases "us = []")
    case un: True
    show ?thesis
    proof (cases "vs = []")
      case True
      let ?s = "(put_word (put_word s (Suc p) 0) p 0)\<lparr>group_free_listp := ?gs\<rparr>"
      have "heap_blocks ?s 2 bs" using p H by (simp add: seg_upd)
      with un True g0 g w P show ?thesis by (intro exI [of _ ?s]) (simp add: S hv)
    next
      case False
      let ?s = "(put_word (put_word (put_word s (Suc p) (ptr ?b (hd vs))) p 0) (hd vs) (ptr ?b p))\<lparr>group_free_listp := ?gs\<rparr>"
      have "heap_blocks ?s 2 bs" using p v False H by (simp add: seg_upd)
      with un False g0 g w P V nv show ?thesis by (intro exI [of _ ?s]) (simp add: S hv)
    qed
  next
    case un: False
    show ?thesis
    proof (cases "vs = []")
      case True
      let ?s = "put_word (put_word (put_word s (Suc (last us)) (ptr ?b p)) p (ptr ?b (last us))) (Suc p) 0"
      have "heap_blocks ?s 2 bs" using p u un H by (simp add: seg_upd)
      moreover have "Suc (last us) \<noteq> p" "last us \<noteq> Suc p" using U(2) P(2) un by auto
      ultimately show ?thesis using un True g0 g w P U nu by (intro exI [of _ ?s]) (simp add: S hv)
    next
      case False
      let ?s = "put_word (put_word (put_word (put_word s (Suc p) (ptr ?b (hd vs))) p (ptr ?b (last us)))
        (Suc (last us)) (ptr ?b p)) (hd vs) (ptr ?b p)"
      have "heap_blocks ?s 2 bs" using p u v un False H by (simp add: seg_upd)
      moreover have "Suc (last us) \<noteq> p" "last us \<noteq> Suc p" using U(2) P(2) un by auto
      ultimately show ?thesis using un False g0 g w P U V nu nv by (intro exI [of _ ?s]) (simp add: S hv)
    qed
  qed
qed

lemma remove_block_seg_words:
  assumes H: "heap_blocks s 2 bs" and m: "set (us @ p # vs) \<subseteq> set (frees 4 bs)" and d: "distinct (us @ p # vs)"
    and g: "group_of (block_words 4 bs p) < length (group_free_listp s)"
    and l: "hw s p = last_or (mem_start_brk s) 0 us" "hw s (Suc p) = head_or (mem_start_brk s) vs 0"
  shows "\<exists>s'. remove_block_seg s (ptr (mem_start_brk s) p) = Some s' \<and> heap_blocks s' 2 bs \<and> same_storage s s'
    \<and> hw s' = link_out (hw s) (mem_start_brk s) us vs
    \<and> group_free_listp s' = (if us = [] then (group_free_listp s)
          [group_of (block_words 4 bs p) := head_or (mem_start_brk s) vs 0] else group_free_listp s)"
proof -
  let ?b = "mem_start_brk s" and ?gs = "(group_free_listp s)[group_of (block_words 4 bs p) := head_or (mem_start_brk s) vs 0]"
  have g0: "geom s" using heap_blocksD(1) [OF H] .
  have p: "p \<in> set (frees 4 bs)" and u: "us \<noteq> [] \<Longrightarrow> last us \<in> set (frees 4 bs)"
    and v: "vs \<noteq> [] \<Longrightarrow> hd vs \<in> set (frees 4 bs)" using m by auto
  have nu: "us \<noteq> [] \<Longrightarrow> last us \<noteq> p" and nv: "vs \<noteq> [] \<Longrightarrow> hd vs \<noteq> p"
    using d by (auto dest: last_in_set hd_in_set)
  have P: "p + 1 < HEAPW" "even p" "GET_SIZE s (HDRP (ptr ?b p)) = Some (bsize (block_words 4 bs p))"
    using free_seg_index [OF H p] by simp_all
  have U: "last us + 1 < HEAPW" "even (last us)" "ptr ?b (last us) \<noteq> 0" if "us \<noteq> []"
    using free_seg_index [OF H u [OF that]] by simp_all
  have V: "hd vs + 1 < HEAPW" "even (hd vs)" "ptr ?b (hd vs) \<noteq> 0" if "vs \<noteq> []"
    using free_seg_index [OF H v [OF that]] by simp_all
  have hv: "head_or ?b vs 0 = (if vs = [] then 0 else ptr ?b (hd vs))" by (cases vs) simp_all
  note S = remove_block_seg_def Let_def set_group_def SET_SUCC_P_def SET_PRED_P_def SUCC_P_def PRED_P_def ptr_simps heap_exec
    link_out_def last_or_def fun_eq_iff group_of_def
  show ?thesis
  proof (cases "us = []")
    case un: True
    show ?thesis
    proof (cases "vs = []")
      case True
      let ?s = "s\<lparr>group_free_listp := ?gs\<rparr>"
      have "heap_blocks ?s 2 bs" using H by simp
      with un True g0 g l P show ?thesis by (intro exI [of _ ?s]) (simp add: S hv)
    next
      case False
      let ?s = "(put_word s (hd vs) 0)\<lparr>group_free_listp := ?gs\<rparr>"
      have "heap_blocks ?s 2 bs" using v False H by (simp add: seg_upd)
      moreover have "hd vs \<noteq> Suc p" using V(2) P(2) False by auto
      ultimately show ?thesis using un False g0 g l P V nv by (intro exI [of _ ?s]) (simp add: S hv)
    qed
  next
    case un: False
    show ?thesis
    proof (cases "vs = []")
      case True
      let ?s = "put_word s (Suc (last us)) 0"
      have "heap_blocks ?s 2 bs" using u un H by (simp add: seg_upd)
      with un True g0 g l P U nu show ?thesis by (intro exI [of _ ?s]) (simp add: S hv)
    next
      case False
      let ?s = "put_word (put_word s (hd vs) (ptr ?b (last us))) (Suc (last us)) (ptr ?b (hd vs))"
      have "heap_blocks ?s 2 bs" using u v un False H by (simp add: seg_upd)
      moreover have "hd vs \<noteq> Suc p" using V(2) P(2) False by auto
      ultimately show ?thesis using un False g0 g l P U V nu nv by (intro exI [of _ ?s]) (simp add: S hv)
    qed
  qed
qed

text \<open>The other groups are untouched.\<close>

lemma link_other:
  assumes "\<forall>x \<in> set (k # us @ p # vs). even x" "k \<notin> set (us @ p # vs)"
  shows "link_in h b us p vs k = h k" "link_in h b us p vs (Suc k) = h (Suc k)"
    "link_out h b us vs k = h k" "link_out h b us vs (Suc k) = h (Suc k)"
proof -
  have ns: "x \<noteq> Suc y" if "x \<in> set (k # us @ p # vs)" "y \<in> set (k # us @ p # vs)" for x y
    using that bspec [OF assms(1), of x] bspec [OF assms(1), of y] by auto
  have u: "us \<noteq> [] \<Longrightarrow> last us \<in> set (k # us @ p # vs) \<and> last us \<noteq> k"
    using assms(2) by (auto dest: last_in_set)
  have v: "vs \<noteq> [] \<Longrightarrow> hd vs \<in> set (k # us @ p # vs) \<and> hd vs \<noteq> k"
    using assms(2) by (auto dest: hd_in_set)
  show "link_in h b us p vs k = h k" "link_in h b us p vs (Suc k) = h (Suc k)"
    "link_out h b us vs k = h k" "link_out h b us vs (Suc k) = h (Suc k)"
    using assms(2) ns [of k "last us"] ns [of k p] ns [of "hd vs" k] ns [of p k] u v
    by (auto simp: link_in_def link_out_def)
qed

lemma group_unique:
  assumes L: "listed_seg s bs F" and k: "k \<in> set (F g)"
  shows "g = group_of (block_words 4 bs k)"
  using group_okD(4) [OF listed_segD(4) [OF L] k] by simp

lemma dropWhile_sorted: "sorted (map f xs) \<Longrightarrow> x \<in> set (dropWhile (\<lambda>k. f k < n) xs) \<Longrightarrow> n \<le> (f x :: nat)"
  by (induction xs) (auto split: if_splits)

lemma sorted_insert:
  assumes "sorted (map f xs)"
  shows "sorted (map f (takeWhile (\<lambda>k. f k < f p) xs @ p # dropWhile (\<lambda>k. f k < (f p :: nat)) xs))"
proof -
  have "sorted (map f (takeWhile (\<lambda>k. f k < f p) xs) @ map f (dropWhile (\<lambda>k. f k < f p) xs))"
    using assms by (simp flip: map_append)
  then show ?thesis
    using dropWhile_sorted [OF assms, of _ "f p"] set_takeWhileD [of _ "\<lambda>k. f k < f p" xs]
    by (fastforce simp: sorted_append)
qed

lemma add_block_seg_ok:
  assumes L: "listed_seg s bs F" and p: "p \<in> set (frees 4 bs)" "p \<notin> (\<Union>g. set (F g))"
  shows "\<exists>s'. add_block_seg s (ptr (mem_start_brk s) p) (bsize (block_words 4 bs p)) = Some s'
    \<and> listed_seg s' bs (seg_ins bs p F) \<and> same_storage s s'"
proof -
  let ?b = "mem_start_brk s"
  define n g where "n = block_words 4 bs p" and "g = group_of n"
  define us vs where "us = takeWhile (\<lambda>k. block_words 4 bs k < n) (F g)" and "vs = dropWhile (\<lambda>k. block_words 4 bs k < n) (F g)"
  note LD = listed_segD [OF L]
  note G = group_okD [OF LD(4) [of g]] and I = free_seg_index [OF LD(1) p(1)]
  have uv: "F g = us @ vs" by (simp add: us_def vs_def)
  have gg: "g < GROUPSIZE" "group_from 0 (bsize n) = g" using I(6,7) group_of_less by (simp_all add: g_def n_def group_of_def)
  have sub: "set (us @ p # vs) \<subseteq> set (frees 4 bs)" using LD(3) [of g] p(1) unfolding uv by auto
  have "p \<notin> set (F g)" using p(2) by blast
  then have d: "distinct (us @ p # vs)" using G(2) unfolding uv by auto
  have ev: "\<forall>x \<in> set (us @ p # vs). even x" using free_seg_index(1) [OF LD(1)] sub by blast
  have walk: "insert_walk s (bsize n) NULL (group_free_listp s ! group_from 0 (bsize n))
      = Some (last_or ?b 0 us, head_or ?b vs 0)"
    using insert_walk_ok [OF LD(1) I(7) [folded n_def] LD(3) [of g] G(1)] G(5) gg by (simp add: us_def vs_def)
  have lg: "group_from 0 (bsize n) < length (group_free_listp s)" using gg LD(2) by simp
  from add_block_seg_words [OF LD(1) sub d lg walk] obtain s' where
    s': "add_block_seg s (ptr ?b p) (bsize n) = Some s'" "heap_blocks s' 2 bs" "same_storage s s'"
      "hw s' = link_in (hw s) ?b us p vs"
      "group_free_listp s' = (if us = [] then (group_free_listp s)[g := ptr ?b p] else group_free_listp s)"
    unfolding gg(2) by blast
  have b: "mem_start_brk s' = ?b" using s'(3) by (simp add: same_storage_def)
  have F': "seg_ins bs p F = F(g := us @ p # vs)" by (simp add: seg_ins_def n_def g_def us_def vs_def Let_def)
  have "group_ok s' bs g' (seg_ins bs p F g')" for g'
  proof (cases "g' = g")
    case True
    have "linked (hw s') ?b 0 (us @ p # vs) 0"
    proof (rule linked_insert [of "hw s"])
      show "linked (hw s) ?b 0 (us @ vs) 0" using G(1) uv by simp
      have ns: "x \<noteq> Suc y" if "x \<in> set (us @ p # vs)" "y \<in> set (us @ p # vs)" for x y
        using that bspec [OF ev, of x] bspec [OF ev, of y] by auto
      have u: "us \<noteq> [] \<Longrightarrow> last us \<in> set (us @ p # vs) \<and> last us \<noteq> p" using d by (auto dest: last_in_set)
      have v: "vs \<noteq> [] \<Longrightarrow> hd vs \<in> set (us @ p # vs) \<and> hd vs \<noteq> p" using d by (auto dest: hd_in_set)
      show "hw s' p = last_or ?b 0 us" "hw s' (Suc p) = head_or ?b vs 0"
        unfolding s'(4) link_in_def using ns [of p "last us"] ns [of "hd vs" p] u v by auto
    qed (use d ev in \<open>auto simp: s'(4) link_in_def\<close>)
    moreover have "sorted (map (block_words 4 bs) (us @ p # vs))"
      unfolding us_def vs_def n_def by (rule sorted_insert [OF G(3)])
    moreover have "\<forall>k \<in> set (us @ p # vs). group_of (block_words 4 bs k) = g"
      using G(4) uv by (auto simp: g_def n_def)
    moreover have "group_free_listp s' ! g = head_or ?b (us @ p # vs) 0"
      using s'(5) lg gg G(5) by (cases us) (auto simp: uv)
    ultimately show ?thesis using True d gg(1) b F' by (simp add: group_ok_def)
  next
    case False
    have "group_ok s' bs g' (F g') \<longleftrightarrow> group_ok s bs g' (F g')"
    proof (rule group_blocks_cong)
      fix k
      assume k: "k \<in> set (F g')"
      have "k \<notin> set (us @ p # vs)"
        using group_unique [OF L k] group_unique [OF L, of k g] uv p(2) k False by auto
      moreover have "even k" using free_seg_index(1) [OF LD(1)] LD(3) [of g'] k by blast
      ultimately show "hw s' k = hw s k \<and> hw s' (Suc k) = hw s (Suc k) \<and> block_words 4 bs k = block_words 4 bs k"
        unfolding s'(4) using link_other(1,2) [of k us p vs] ev by simp
    qed (use b s'(5) False in simp_all)
    with LD(4) [of g'] False F' show ?thesis by simp
  qed
  moreover have "set (seg_ins bs p F g') \<subseteq> set (frees 4 bs)" for g'
    using LD(3) [of g'] sub unfolding F' by (cases "g' = g") simp_all
  then have "(\<Union>g'. set (seg_ins bs p F g')) \<subseteq> set (frees 4 bs)" by blast
  moreover have "length (group_free_listp s') = GROUPSIZE" using s'(5) LD(2) by simp
  ultimately have "listed_seg s' bs (seg_ins bs p F)" using s'(2) by (simp add: listed_seg_def)
  with s'(1,3) show ?thesis by (simp add: n_def)
qed

lemma remove_block_seg_ok:
  assumes L: "listed_seg s bs F" and p: "p \<in> (\<Union>g. set (F g))"
  shows "\<exists>s'. remove_block_seg s (ptr (mem_start_brk s) p) = Some s'
    \<and> listed_seg s' bs (\<lambda>g. filter (\<lambda>k. k \<noteq> p) (F g)) \<and> same_storage s s'"
proof -
  let ?b = "mem_start_brk s"
  obtain g where pg: "p \<in> set (F g)" using p by blast
  obtain us vs where uv: "F g = us @ p # vs" using split_list [OF pg] by blast
  note LD = listed_segD [OF L]
  note G = group_okD [OF LD(4) [of g]]
  have pf: "p \<in> set (frees 4 bs)" using LD(3) pg by blast
  note I = free_seg_index [OF LD(1) pf]
  have gg: "group_of (block_words 4 bs p) = g" "g < GROUPSIZE" using G(4) [OF pg] I(6,7) group_of_less by auto
  have sub: "set (us @ p # vs) \<subseteq> set (frees 4 bs)" using LD(3) [of g] unfolding uv .
  have d: "distinct (us @ p # vs)" using G(2) uv by simp
  have ev: "\<forall>x \<in> set (us @ p # vs). even x" using free_seg_index(1) [OF LD(1)] sub by blast
  have lk: "hw s p = last_or ?b 0 us" "hw s (Suc p) = head_or ?b vs 0"
    using G(1) by (simp_all add: uv linked_append)
  have lg: "group_of (block_words 4 bs p) < length (group_free_listp s)" using gg LD(2) by simp
  from remove_block_seg_words [OF LD(1) sub d lg lk] obtain s' where
    s': "remove_block_seg s (ptr ?b p) = Some s'" "heap_blocks s' 2 bs" "same_storage s s'"
      "hw s' = link_out (hw s) ?b us vs"
      "group_free_listp s' = (if us = [] then (group_free_listp s)[g := head_or ?b vs 0] else group_free_listp s)"
    unfolding gg(1) by blast
  have b: "mem_start_brk s' = ?b" using s'(3) by (simp add: same_storage_def)
  have Fg: "filter (\<lambda>k. k \<noteq> p) (F g) = us @ vs" unfolding uv by (rule filter_out_middle [OF d])
  have "group_ok s' bs g' (filter (\<lambda>k. k \<noteq> p) (F g'))" for g'
  proof (cases "g' = g")
    case True
    have "linked (hw s') ?b 0 (us @ vs) 0"
    proof (rule linked_delete [of "hw s" _ us p vs])
      have ns: "x \<noteq> Suc y" if "x \<in> set (us @ p # vs)" "y \<in> set (us @ p # vs)" for x y
        using that bspec [OF ev, of x] bspec [OF ev, of y] by auto
      show "hw s' (hd vs) = last_or ?b 0 us" if "vs \<noteq> []"
        unfolding s'(4) link_out_def using that ns [of "hd vs" "last us"] by auto
    qed (use d ev G(1) uv in \<open>auto simp: s'(4) link_out_def\<close>)
    moreover have "sorted (map (block_words 4 bs) (us @ vs))" using G(3) by (simp add: uv sorted_append)
    moreover have "\<forall>k \<in> set (us @ vs). group_of (block_words 4 bs k) = g" using G(4) uv by auto
    moreover have "group_free_listp s' ! g = head_or ?b (us @ vs) 0"
      using s'(5) lg gg G(5) by (cases us) (auto simp: uv)
    ultimately show ?thesis using True d gg(2) b Fg by (simp add: group_ok_def)
  next
    case False
    have np: "p \<notin> set (F g')" using group_unique [OF L, of p g'] gg(1) False by auto
    then have "filter (\<lambda>k. k \<noteq> p) (F g') = F g'" by (auto simp: filter_id_conv)
    moreover have "group_ok s' bs g' (F g') \<longleftrightarrow> group_ok s bs g' (F g')"
    proof (rule group_blocks_cong)
      fix k
      assume k: "k \<in> set (F g')"
      have "k \<notin> set (us @ p # vs)"
        using group_unique [OF L k] group_unique [OF L, of k g] uv False by auto
      moreover have "even k" using free_seg_index(1) [OF LD(1)] LD(3) [of g'] k by blast
      ultimately show "hw s' k = hw s k \<and> hw s' (Suc k) = hw s (Suc k) \<and> block_words 4 bs k = block_words 4 bs k"
        unfolding s'(4) using link_other(3,4) [of k us p vs] ev by simp
    qed (use b s'(5) False in simp_all)
    ultimately show ?thesis using LD(4) [of g'] by simp
  qed
  moreover have "(\<Union>g'. set (filter (\<lambda>k. k \<noteq> p) (F g'))) \<subseteq> set (frees 4 bs)" using LD(3) by auto
  moreover have "length (group_free_listp s') = GROUPSIZE" using s'(5) LD(2) by simp
  ultimately have "listed_seg s' bs (\<lambda>g. filter (\<lambda>k. k \<noteq> p) (F g))" using s'(2) by (simp add: listed_seg_def)
  with s'(1,3) show ?thesis by blast
qed

interpretation seg_list: free_list 2 4 listed_seg "\<lambda>F. \<Union>g. set (F g)" seg_ins "\<lambda>P F g. filter P (F g)" same_storage
  add_block_seg remove_block_seg
proof unfold_locales
  fix s s' :: mm_seg and bs bs' F p and P Q :: "nat \<Rightarrow> bool"
  show "(\<Union>g. set (seg_ins bs p F g)) = insert p (\<Union>g. set (F g))"
  proof -
    have "set (takeWhile P xs @ p # dropWhile P xs) = insert p (set xs)" for P and xs :: "nat list"
      by (induction xs) auto
    then show ?thesis by (auto simp: seg_ins_def Let_def split: if_splits)
  qed
  show "only_heap s s' \<Longrightarrow> same_storage s s'"
    by (simp add: same_storage_def only_heap_bounds)
  show "listed_seg s' bs' F" if L: "listed_seg s bs F" and "heap_blocks s' 2 bs'" and o: "only_heap s s'"
    and k: "\<And>k. k \<in> (\<Union>g. set (F g)) \<Longrightarrow> k \<in> set (frees 4 bs') \<and> block_words 4 bs' k = block_words 4 bs k
      \<and> hw s' k = hw s k \<and> hw s' (Suc k) = hw s (Suc k)"
  proof -
    have "group_ok s' bs' g (F g) \<longleftrightarrow> group_ok s bs g (F g)" for g
      by (rule group_blocks_cong) (use k only_heap_bounds [OF o] frame_seg [OF o] in auto)
    then show ?thesis using that(2) L k frame_seg [OF o] by (auto simp: listed_seg_def)
  qed
  show "(\<lambda>g. filter P (F g)) = (\<lambda>g. filter Q (F g))" if "\<And>k. k \<in> (\<Union>g. set (F g)) \<Longrightarrow> P k = Q k"
    using that by (intro ext filter_cong) auto
  show "\<exists>s'. add_block_seg s (ptr (mem_start_brk s) p) (bsize (block_words 4 bs p)) = Some s'
      \<and> listed_seg s' bs (seg_ins bs p F) \<and> same_storage s s'"
    if "listed_seg s bs F" "p \<in> set (frees 4 bs)" "p \<notin> (\<Union>g. set (F g))" using that by (rule add_block_seg_ok)
  show "\<exists>s'. remove_block_seg s (ptr (mem_start_brk s) p) = Some s'
      \<and> listed_seg s' bs (\<lambda>g. filter (\<lambda>k. k \<noteq> p) (F g)) \<and> same_storage s s'"
    if "listed_seg s bs F" "p \<in> (\<Union>g. set (F g))" using that by (rule remove_block_seg_ok)
qed (auto simp: listed_seg_def conj_commute intro: same_storage_trans)

end
