(* ===== verification/Seg_Package.thy ===== *)
theory Seg_Package
  imports Seg_Correct
begin

text \<open>
  The routines of \<open>src/malloc/segregated_list-85.c\<close> on the twenty lists: merging, placing, the best-fit search over the
  groups, and the package without \<open>mm_realloc\<close>.
\<close>

section \<open>Coalescing and placing\<close>

lemma coalesce_seg_code:
  assumes N: "nbhd s j p pa n False q qa"
    and u: "unlinks remove_block_seg (\<lambda>u. nbhd u j p pa n False q qa) (neighbours True pa (j - p) qa (j + n)) s u"
    and i: "i = (if pa then j else j - p)" and m: "m = (if pa then 0 else p) + n + (if qa then 0 else q)"
  shows "\<exists>t. (if pa \<and> qa then t = u else retagged u i m t)
    \<and> coalesce_seg s (ptr (mem_start_brk s) j) = do {
        s' \<leftarrow> add_block_seg t (ptr (mem_start_brk s) i) (bsize m); Some (ptr (mem_start_brk s) i, s') }"
proof -
  let ?b = "mem_start_brk s"
  note ND = nbhdD(7) [OF N]
  consider "pa" "qa" | "pa" "\<not> qa" | "\<not> pa" "qa" | "\<not> pa" "\<not> qa" by blast
  then show ?thesis
  proof cases
    case 1
    then show ?thesis using u i m nbhd_reads [OF N refl] by (simp add: neighbours_def coalesce_seg_def)
  next
    case 2
    with u have r: "remove_block_seg s (ptr ?b (j + n)) = Some u" "mem_start_brk u = ?b"
      and N1: "nbhd u j p True n False q False"
      by (auto simp: neighbours_def same_storage_def)
    let ?t = "put_word (put_word u (j - 1) (hdr m False)) (j + m - 2) (hdr m False)"
    have "coalesce_seg s (ptr ?b j) = do { s' \<leftarrow> add_block_seg ?t (ptr ?b j) (bsize m); Some (ptr ?b j, s') }"
      using nbhd_reads [OF N refl] nbhd_reads [OF N1 r(2)] nbhdD(1-9,12,14) [OF N1] r 2 m
      by (simp add: coalesce_seg_def) (simp add: blk_macros ptr_simps heap_exec add.assoc)
    then show ?thesis using 2 i by (auto simp: retagged_def)
  next
    case 3
    with u have r: "remove_block_seg s (ptr ?b (j - p)) = Some u" "mem_start_brk u = ?b"
      and N1: "nbhd u j p False n False q True"
      by (auto simp: neighbours_def same_storage_def)
    have mm: "m = n + p" "i + m - 2 = j + n - 2" using 3 i m ND by simp_all
    let ?t = "put_word (put_word u (j + n - 2) (hdr m False)) (j - p - 1) (hdr m False)"
    have "coalesce_seg s (ptr ?b j) = do { s' \<leftarrow> add_block_seg ?t (ptr ?b (j - p)) (bsize m); Some (ptr ?b (j - p), s') }"
      using nbhd_reads [OF N refl] nbhd_reads [OF N1 r(2)] nbhdD(1-9,12,14) [OF N1] r 3 mm(1)
      by (simp add: coalesce_seg_def) (simp add: blk_macros ptr_simps heap_exec add.assoc)
    then show ?thesis using 3 i mm(2) by (auto simp: retagged_def)
  next
    case 4
    with u obtain v where r: "remove_block_seg s (ptr ?b (j + n)) = Some v" "mem_start_brk v = ?b"
      "remove_block_seg v (ptr ?b (j - p)) = Some u" "mem_start_brk u = ?b"
      and N1: "nbhd v j p False n False q False" and N2: "nbhd u j p False n False q False"
      by (auto simp: neighbours_def same_storage_def)
    have mm: "m = n + (p + q)" "i + m - 2 = j + n + q - 2" using 4 i m ND by simp_all
    let ?t = "put_word (put_word u (j - p - 1) (hdr m False)) (j + n + q - 2) (hdr m False)"
    have "coalesce_seg s (ptr ?b j) = do { s' \<leftarrow> add_block_seg ?t (ptr ?b (j - p)) (bsize m); Some (ptr ?b (j - p), s') }"
      using nbhd_reads [OF N refl] nbhd_reads(4) [OF N1 r(2)] nbhd_reads [OF N2 r(4)] nbhdD(1-9,14) [OF N2] r 4 mm(1)
      by (simp add: coalesce_seg_def Let_def) (simp add: blk_macros ptr_simps heap_exec add.assoc)
    then show ?thesis using 4 i mm(2) by (auto simp: retagged_def)
  qed
qed

lemma place_seg_ok:
  assumes L: "listed_seg s (xs @ Free n # ys) F" and j: "j = 4 + twords xs" and jF: "j \<in> (\<Union>g. set (F g))"
    and m: "even m" "4 \<le> m" "m \<le> n"
  shows "\<exists>s' ws. place_seg s (ptr (mem_start_brk s) j) (bsize m) = Some s'
    \<and> length ws = place_gets n m - 2 \<and> same_storage s s'
    \<and> listed_seg s' (xs @ Used ws # place_rest n m @ ys)
        (if m + 4 \<le> n then seg_ins (xs @ Used ws # place_rest n m @ ys) (j + m) (\<lambda>g. filter (\<lambda>k. k \<noteq> j) (F g))
         else (\<lambda>g. filter (\<lambda>k. k \<noteq> j) (F g)))"
proof -
  let ?b = "mem_start_brk s"
  have j2: "j = 2 + 2 + twords xs" using j by simp
  note LD = listed_segD [OF L]
  note D = heap_blocksD [OF LD(1)] and V = heap_block_view [OF LD(1) j2]
  have n30: "n < 2 ^ 30" using V(9,10) by (simp add: HEAPW_eq)
  then have big: "2 * DSIZE \<le> bsize n - bsize m \<longleftrightarrow> m + 4 \<le> n"
    using m by (simp add: ptr_simps bsize_ge_2DSIZE) linarith
  obtain s1 s' ws where s1: "remove_block_seg s (ptr ?b j) = Some s1" "same_storage s s1"
    and s': "(if m + 4 \<le> n then add_block_seg (tag_split s1 j m n) (ptr ?b (j + m)) (bsize (n - m))
      else Some (tag_whole s1 j n)) = Some s'"
    "length ws = place_gets n m - 2" "same_storage s s'" "listed_seg s' (xs @ Used ws # place_rest n m @ ys)
      (if m + 4 \<le> n then seg_ins (xs @ Used ws # place_rest n m @ ys) (j + m) (\<lambda>g. filter (\<lambda>k. k \<noteq> j) (F g))
       else (\<lambda>g. filter (\<lambda>k. k \<noteq> j) (F g)))"
    by (rule seg_list.remove_place [OF L j jF m])
  have b1: "mem_start_brk s1 = ?b" using s1(2) by (simp add: same_storage_def)
  have g1: "geom s1"
    using remove_block_seg_ok [OF L jF] s1(1) by (auto dest: listed_segD(1) heap_blocksD(1))
  have sz: "GET_SIZE s (HDRP (ptr ?b j)) = Some (bsize n)"
    using D(1) V(1,6,8,10) by (simp add: ptr_simps heap_exec)
  have idx: "4 \<le> j" "j - 1 < HEAPW" "j + m - 2 < HEAPW" "j + m - 1 < HEAPW" "j + n - 2 < HEAPW" "even (n - m)" "even n"
    using V(6,8,9,10) m by auto
  have "place_seg s (ptr ?b j) (bsize m)
      = (if m + 4 \<le> n then add_block_seg (tag_split s1 j m n) (ptr ?b (j + m)) (bsize (n - m))
         else Some (tag_whole s1 j n))"
    using sz s1(1) big b1 g1 idx m
    by (simp add: place_seg_def blk_macros ptr_simps heap_exec tag_split_def tag_whole_def)
  with s' show ?thesis by auto
qed

section \<open>The search\<close>

lemma fit_walk_ok:
  assumes H: "heap_blocks s 2 bs" and n: "m < 2 ^ 30"
  shows "set ws \<subseteq> set (frees 4 bs) \<Longrightarrow> linked (hw s) (mem_start_brk s) pr ws 0
    \<Longrightarrow> fit_walk s (bsize m) (head_or (mem_start_brk s) ws 0)
      = Some (opt_ptr (mem_start_brk s) (find (\<lambda>k. m \<le> block_words 4 bs k) ws))"
proof (induction ws arbitrary: pr)
  case Nil
  then show ?case by (subst fit_walk.simps) simp
next
  case (Cons w ws)
  have w: "w \<in> set (frees 4 bs)" using Cons.prems(1) by simp
  note I = free_seg_index [OF H w]
  have cmp: "bsize m > bsize (block_words 4 bs w) \<longleftrightarrow> \<not> m \<le> block_words 4 bs w"
    using bsize_le_iff [OF n I(7)] by (simp add: not_le [symmetric])
  have "SUCC_P s (ptr (mem_start_brk s) w) = Some (head_or (mem_start_brk s) ws 0)"
    using heap_blocksD(1) [OF H] I(3) Cons.prems(2) by (simp add: SUCC_P_def ptr_simps heap_exec)
  then show ?case
    using I(4,5) cmp Cons by (subst fit_walk.simps) auto
qed

lemma fit_groups_ok:
  assumes L: "listed_seg s bs F" and m: "m < 2 ^ 30"
  shows "\<forall>g \<in> set gs. g < GROUPSIZE \<Longrightarrow> fit_groups s (bsize m) gs
    = Some (opt_ptr (mem_start_brk s) (find (\<lambda>k. m \<le> block_words 4 bs k) (concat (map F gs))))"
proof (induction gs)
  case (Cons g gs)
  note LD = listed_segD [OF L]
  have "get_group s g = Some (head_or (mem_start_brk s) (F g) 0)"
    using group_okD(5) [OF LD(4) [of g]] Cons.prems LD(2) by (simp add: get_group_def)
  moreover have "fit_walk s (bsize m) (head_or (mem_start_brk s) (F g) 0)
      = Some (opt_ptr (mem_start_brk s) (find (\<lambda>k. m \<le> block_words 4 bs k) (F g)))"
    by (rule fit_walk_ok [OF LD(1) m LD(3) group_okD(1) [OF LD(4)]])
  moreover have "find P (xs @ ys) = (case find P xs of None \<Rightarrow> find P ys | Some k \<Rightarrow> Some k)" for P and xs ys :: "nat list"
    by (induction xs) auto
  moreover have "ptr (mem_start_brk s) k \<noteq> 0" if "find P (F g) = Some k" for P k
  proof -
    have "k \<in> set (frees 4 bs)" using that LD(3) [of g] by (auto simp: find_Some_iff)
    from free_seg_index(4) [OF LD(1) this] show ?thesis .
  qed
  ultimately show ?case using Cons by (auto split: option.split)
qed simp

definition seg_search :: "nat \<Rightarrow> blk list \<Rightarrow> (nat \<Rightarrow> nat list) \<Rightarrow> nat option" where
  "seg_search m bs F = find (\<lambda>k. m \<le> block_words 4 bs k) (concat (map F [group_from_int 0 (bsize m)..<GROUPSIZE]))"

lemma find_fit_seg_ok:
  "listed_seg s bs F \<Longrightarrow> m < 2 ^ 30 \<Longrightarrow> find_fit_seg s (bsize m) = Some (opt_ptr (mem_start_brk s) (seg_search m bs F))"
  by (simp add: find_fit_seg_def seg_search_def fit_groups_ok)

text \<open>It misses no block, and the one it finds is the smallest that fits.\<close>

lemma group_start:
  assumes "4 \<le> m" "m \<le> n" "n < 2 ^ 29"
  shows "group_from_int 0 (bsize m) \<le> group_of n"
  using assms group_int_eq [of "bsize m" 0] group_of_mono [of m n] by (simp add: unat_bsize group_of_def)

lemma members_size:
  assumes L: "listed_seg s bs F" and k: "k \<in> set (F g)"
  shows "4 \<le> block_words 4 bs k" "block_words 4 bs k < 2 ^ 29" "group_of (block_words 4 bs k) = g" "g < GROUPSIZE"
proof -
  note LD = listed_segD [OF L]
  have f: "k \<in> set (frees 4 bs)" using LD(3) k by blast
  obtain xs n ys where bs: "bs = xs @ Free n # ys" and j: "k = 4 + twords xs" using frees_split [OF f] by blast
  have "block_words 4 bs k = n"
    using block_words_middle [of xs 4 "Free n" ys] heap_blocksD(9) [OF LD(1)] bs j by simp
  then show "block_words 4 bs k < 2 ^ 29"
    using heap_blocksD(10) [OF LD(1)] bs by (simp add: HEAPW_eq)
  show "4 \<le> block_words 4 bs k" by (rule free_seg_index(6) [OF LD(1) f])
  show "group_of (block_words 4 bs k) = g" by (rule group_okD(4) [OF LD(4) k])
  then show "g < GROUPSIZE" using group_of_less free_seg_index(6,7) [OF LD(1) f] by metis
qed

lemma seg_search_None:
  assumes L: "listed_seg s bs F" and m: "4 \<le> m" and n: "seg_search m bs F = None" and k: "k \<in> set (F g)"
  shows "block_words 4 bs k < m"
proof (rule ccontr)
  assume "\<not> block_words 4 bs k < m"
  note K = members_size [OF L k]
  then have "group_from_int 0 (bsize m) \<le> g"
    using group_start [OF m _ K(2)] \<open>\<not> block_words 4 bs k < m\<close> by simp
  then have "k \<in> set (concat (map F [group_from_int 0 (bsize m)..<GROUPSIZE]))" using k K(4) by auto
  with n have "\<not> m \<le> block_words 4 bs k" unfolding seg_search_def find_None_iff by blast
  with \<open>\<not> block_words 4 bs k < m\<close> show False by simp
qed

lemma sorted_concat_groups:
  assumes L: "listed_seg s bs F"
  shows "sorted (map (block_words 4 bs) (concat (map F [a..<b])))"
proof (induction b)
  case (Suc b)
  note LD = listed_segD [OF L]
  have "block_words 4 bs x \<le> block_words 4 bs y" if x: "x \<in> set (F g)" "g < b" and y: "y \<in> set (F b)" for x y g
  proof (rule ccontr)
    assume "\<not> block_words 4 bs x \<le> block_words 4 bs y"
    then have "group_of (block_words 4 bs y) \<le> group_of (block_words 4 bs x)"
      using members_size(1,2) [OF L x(1)] members_size(1) [OF L y] by (intro group_of_mono) simp_all
    then show False using members_size(3) [OF L x(1)] members_size(3) [OF L y] x(2) by simp
  qed
  with Suc group_okD(3) [OF LD(4) [of b]] show ?case by (auto simp: sorted_append)
qed simp

lemma find_sorted:
  "sorted (map f xs) \<Longrightarrow> find (\<lambda>k. m \<le> (f k :: nat)) xs = Some i \<Longrightarrow> x \<in> set xs \<Longrightarrow> m \<le> f x \<Longrightarrow> f i \<le> f x"
  by (induction xs) (auto split: if_splits)

lemma seg_search_best:
  assumes L: "listed_seg s bs F" and m: "4 \<le> m" and i: "seg_search m bs F = Some i"
    and k: "k \<in> set (F g)" "m \<le> block_words 4 bs k"
  shows "block_words 4 bs i \<le> block_words 4 bs k"
proof -
  note K = members_size [OF L k(1)]
  have "group_from_int 0 (bsize m) \<le> g" using group_start [OF m k(2) K(2)] K(3) by simp
  then have "k \<in> set (concat (map F [group_from_int 0 (bsize m)..<GROUPSIZE]))" using k(1) K(4) by auto
  from find_sorted [OF sorted_concat_groups [OF L] i [unfolded seg_search_def] this k(2)] show ?thesis .
qed

section \<open>The package\<close>

lemma extend_heap_seg_code:
  "even n \<Longrightarrow> n < 2 ^ 30 \<Longrightarrow> extend_heap_seg s (bsize n div WSIZE) =
    (let (bp, s) = mem_sbrk s (bsize n)
     in if bp = - 1 then Some (NULL, s)
        else do {
          s \<leftarrow> PUT s (HDRP bp) (PACK (bsize n) 0);
          f \<leftarrow> FTRP s bp;
          s \<leftarrow> PUT s f (PACK (bsize n) 0);
          nb \<leftarrow> NEXT_BLKP s bp;
          s \<leftarrow> PUT s (HDRP nb) (PACK 0 1);
          coalesce_seg s bp })"
  by (simp only: extend_heap_seg_def even_words_size_AND Let_def)

interpretation seg_alloc: list_allocator 2 4 listed_seg "\<lambda>F. \<Union>g. set (F g)" seg_ins "\<lambda>P F g. filter P (F g)" same_storage
  add_block_seg remove_block_seg True coalesce_seg extend_heap_seg mm_free_seg seg_search find_fit_seg place_seg
  mm_malloc_seg
proof unfold_locales
  fix s :: mm_seg and xs ys bs F j n m p pa q qa u i and sz r :: addr
  show "\<exists>t. (if pa \<and> qa then t = u else retagged u i m t)
      \<and> coalesce_seg s (ptr (mem_start_brk s) j) = do {
          s' \<leftarrow> add_block_seg t (ptr (mem_start_brk s) i) (bsize m); Some (ptr (mem_start_brk s) i, s') }"
    if "nbhd s j p pa n False q qa"
      "unlinks remove_block_seg (\<lambda>u. nbhd u j p pa n False q qa) (neighbours True pa (j - p) qa (j + n)) s u"
      "i = (if pa then j else j - p)" "m = (if pa then 0 else p) + n + (if qa then 0 else q)"
    using that by (rule coalesce_seg_code)
  show "find_fit_seg s (bsize m) = Some (opt_ptr (mem_start_brk s) (seg_search m bs F))"
    if "listed_seg s bs F" "m < 2 ^ 30" using that by (rule find_fit_seg_ok)
  show "i \<in> (\<Union>g. set (F g)) \<and> m \<le> block_words 4 bs i" if "seg_search m bs F = Some i"
    using that unfolding seg_search_def find_Some_iff
    by (metis (no_types, lifting) UN_iff iso_tuple_UNIV_I nth_mem set_concat set_map imageE)
  show "\<exists>s' ws. place_seg s (ptr (mem_start_brk s) j) (bsize m) = Some s'
      \<and> length ws = place_gets n m - 2 \<and> same_storage s s'
      \<and> listed_seg s' (xs @ Used ws # place_rest n m @ ys)
          (if m + 4 \<le> n then seg_ins (xs @ Used ws # place_rest n m @ ys) (j + m) (\<lambda>g. filter (\<lambda>k. k \<noteq> j) (F g))
           else (\<lambda>g. filter (\<lambda>k. k \<noteq> j) (F g)))"
    if "listed_seg s (xs @ Free n # ys) F" "j = 4 + twords xs" "j \<in> (\<Union>g. set (F g))" "even m" "4 \<le> m" "m \<le> n"
    using that by (rule place_seg_ok)
  show "mm_malloc_seg s sz = do {
      bp \<leftarrow> find_fit_seg s r;
      if bp \<noteq> NULL then do { s \<leftarrow> place_seg s bp r; Some (bp, s) }
      else do {
        (bp, s) \<leftarrow> extend_heap_seg s (MAX_C r CHUNKSIZE div WSIZE);
        if bp = NULL then Some (NULL, s)
        else do { s \<leftarrow> place_seg s bp r; Some (bp, s) } } }"
    if "0 < sz" "unat sz + 15 < 2 ^ 32" "r = bsize (req_words sz)"
    using word_gt_0 [of sz, THEN iffD1, OF that(1)]
    unfolding mm_malloc_seg_def Let_def ALIGN_eq [OF that(2)] that(3) by simp
qed (simp only: extend_heap_seg_code | simp add: mm_free_seg_def)+

lemma mm_init_seg_ok:
  assumes g: "geom s" and e: "mem_brk s = mem_start_brk s" and w: "unat (mem_max_addr s) + 4096 < 2 ^ 32"
  shows "\<exists>s' F. mm_init_seg s = Some (0, s') \<and> listed_seg s' [Free 1024] F \<and> (\<Union>g. set (F g)) = {4} \<and> same_storage s s'"
proof -
  let ?b = "mem_start_brk s"
  let ?s0 = "s\<lparr>group_free_listp := replicate GROUPSIZE NULL, mem_brk := ptr ?b 4\<rparr>"
  let ?s1 = "put_word (put_word (put_word (put_word ?s0 0 0) 1 (hdr 2 True)) 2 (hdr 2 True)) 3 (hdr 0 True)"
  let ?sg = "s\<lparr>group_free_listp := replicate GROUPSIZE NULL\<rparr>"
  have sbrk: "mem_sbrk ?sg (WSIZE * 4) = (ptr ?b 0, ?sg\<lparr>mem_brk := ptr ?b 4\<rparr>)"
  proof -
    have "geom ?sg" "mem_brk ?sg = ptr (mem_start_brk ?sg) 0" using g e by (simp_all add: ptr_def)
    from mem_sbrk_ptr [OF this, of 4] w show ?thesis by (simp add: HEAPW_eq bsize_def WSIZE_def)
  qed
  have g0: "geom ?s0" using geom_brk [of ?sg 4] g by (simp add: HEAPW_eq)
  have p: "ptr ?b 0 + WSIZE = ptr ?b 1" "ptr ?b 0 + 2 * WSIZE = ptr ?b 2" "ptr ?b 0 + 3 * WSIZE = ptr ?b 3"
    by (simp_all add: ptr_def WSIZE_def)
  have t: "PACK DSIZE 1 = hdr 2 True" "CHUNKSIZE = bsize 1024"
    by (simp_all add: PACK_def hdr_def bsize_def DSIZE_def CHUNKSIZE_def push_bit_eq_mult)
  have L: "listed_seg ?s1 [] (\<lambda>_. [])"
    using g0 by (simp add: listed_seg_def group_ok_def heap_blocks_def hw_put_word HEAPW_eq)
  have "mm_init_seg s = do {
      (r, s) \<leftarrow> extend_heap_seg ?s1 (bsize 1024 div WSIZE);
      if r = NULL then Some (- 1, s) else Some (0, s) }"
    using sbrk g0 p t ptr_not_m1 [OF g, of 0]
    by (simp add: mm_init_seg_def Let_def heap_exec ptr_simps HEAPW_eq)
  moreover obtain s' where "extend_heap_seg ?s1 (bsize 1024 div WSIZE) = Some (ptr ?b 4, s')"
    "listed_seg s' [Free 1024] (seg_ins [Free 1024] 4 (\<lambda>_. []))"
    "(\<Union>g. set (seg_ins [Free 1024] 4 (\<lambda>_. []) g)) = {4}" "same_storage ?s1 s'" "ptr ?b 4 \<noteq> NULL"
    using seg_alloc.extend_first [OF L] w by (auto simp: HEAPW_eq)
  ultimately show ?thesis
    by (intro exI [of _ s'] exI [of _ "seg_ins [Free 1024] 4 (\<lambda>_. [])"]) (simp add: same_storage_def)
qed

definition repr_seg :: "mm_seg \<Rightarrow> (addr \<rightharpoonup> byte list) \<Rightarrow> bool" where
  "repr_seg s L \<longleftrightarrow> (\<exists>bs F. listed_seg s bs F \<and> (\<Union>g. set (F g)) = set (frees 4 bs) \<and> spaced bs
     \<and> L = live (mem_start_brk s) 4 bs)"

interpretation seg: list_package 2 4 listed_seg "\<lambda>F. \<Union>g. set (F g)" seg_ins "\<lambda>P F g. filter P (F g)" same_storage
  add_block_seg remove_block_seg True coalesce_seg extend_heap_seg mm_free_seg seg_search find_fit_seg place_seg
  mm_malloc_seg repr_seg mm_init_seg
proof unfold_locales
  show "\<exists>s' F. mm_init_seg s = Some (0, s') \<and> listed_seg s' [Free 1024] F \<and> (\<Union>g. set (F g)) = {4} \<and> same_storage s s'"
    if "geom s" "mem_brk s = mem_start_brk s" "request_fits s 0" for s
    using mm_init_seg_ok [OF that(1,2)] that(3) by (simp add: request_fits_def)
qed (simp add: repr_seg_def)

end
