(* ===== verification/Buddy_Tree.thy ===== *)
theory Buddy_Tree
  imports Main
begin

text \<open>
  The tree of \<open>src/malloc/buddy.c\<close> as a set. A node is a pair of a bucket \<open>b\<close> and a position \<open>k\<close>: it stands for the
  \<open>2 ^ (31 - b)\<close> bytes at offset \<open>k * 2 ^ (31 - b)\<close>. Its children are \<open>(b + 1, 2 * k)\<close> and \<open>(b + 1, 2 * k + 1)\<close>. The state
  of the tree is the set \<open>U\<close> of the nodes in use below a root \<open>(L, 0)\<close>; the free nodes and the split bits follow from it.
\<close>

section \<open>Used and free nodes\<close>

text \<open>Some node at or below \<open>(b, k)\<close> is in use.\<close>

definition busy :: "(nat \<times> nat) set \<Rightarrow> nat \<Rightarrow> nat \<Rightarrow> bool" where
  "busy U b k \<longleftrightarrow> (\<exists>(c, j) \<in> U. b \<le> c \<and> j div 2 ^ (c - b) = k)"

definition sib :: "nat \<Rightarrow> nat" where
  "sib k = (if even k then Suc k else k - 1)"

lemma sib_simps [simp]: "sib (sib k) = k" "sib k div 2 = k div 2" "sib k \<noteq> k" "k \<noteq> sib k" "sib (2 * k) = Suc (2 * k)" "sib (Suc (2 * k)) = 2 * k"
  "sib 0 = 1" "sib (Suc 0) = 0"
  by (auto simp: sib_def elim: oddE)

lemma sib_iff: "sib j = k \<longleftrightarrow> j = sib k"
  by auto

lemma sib_less: "0 < n \<Longrightarrow> k < 2 ^ n \<Longrightarrow> sib k < 2 ^ n"
  by (cases n) (auto simp: sib_def elim!: evenE)

lemma half_eq: "j div 2 = k div 2 \<longleftrightarrow> j = k \<or> j = sib k"
  by (auto simp: sib_def elim!: evenE oddE)

lemma div_pow: "(j :: nat) div 2 ^ m div 2 ^ n = j div 2 ^ (m + n)"
  by (simp add: div_mult2_eq power_add)

lemma div_pow_first: "0 < n \<Longrightarrow> (j :: nat) div 2 ^ n = j div 2 div 2 ^ (n - 1)"
  using div_pow [of j 1 "n - 1"] by simp

lemma div_anc: "b \<le> c \<Longrightarrow> (j :: nat) div 2 ^ (Suc c - b) = j div 2 div 2 ^ (c - b)"
  using div_pow_first [of "Suc c - b" j] by (simp add: Suc_diff_le)

lemma div_anc_half: "b < c \<Longrightarrow> (j :: nat) div 2 ^ (c - b) = j div 2 ^ (c - Suc b) div 2"
  using div_pow [of j "c - Suc b" 1] by (simp add: Suc_diff_Suc)

lemma busyI: "(c, j) \<in> U \<Longrightarrow> b \<le> c \<Longrightarrow> j div 2 ^ (c - b) = k \<Longrightarrow> busy U b k"
  unfolding busy_def by blast

lemma busy_empty [simp]: "\<not> busy {} b k"
  by (simp add: busy_def)

lemma busy_mono: "busy U b k \<Longrightarrow> U \<subseteq> V \<Longrightarrow> busy V b k"
  by (auto simp: busy_def)

lemma busy_insert: "busy (insert (c, j) U) b k \<longleftrightarrow> busy U b k \<or> b \<le> c \<and> j div 2 ^ (c - b) = k"
  by (auto simp: busy_def)

lemma busy_used: "(b, k) \<in> U \<Longrightarrow> busy U b k"
  by (force simp: busy_def)

lemma busyE:
  assumes "busy U b k" obtains c j where "(c, j) \<in> U" "b \<le> c" "j div 2 ^ (c - b) = k"
  using assms by (auto simp: busy_def)

lemma busy_up: "busy U (Suc b) k \<Longrightarrow> busy U b (k div 2)"
  by (erule busyE, erule busyI) (auto simp: div_anc_half)

lemma busy_down: "busy U b k \<Longrightarrow> (b, k) \<in> U \<or> busy U (Suc b) (2 * k) \<or> busy U (Suc b) (Suc (2 * k))"
proof -
  assume "busy U b k"
  then obtain c j where c: "(c, j) \<in> U" "b \<le> c" "j div 2 ^ (c - b) = k" by (auto simp: busy_def)
  show ?thesis
  proof (cases "b = c")
    case False
    then have "b < c" using c(2) by simp
    then have "busy U (Suc b) (j div 2 ^ (c - Suc b))"
      using c(1) by (intro busyI) simp_all
    moreover have "j div 2 ^ (c - Suc b) div 2 = k" using c(3) \<open>b < c\<close> by (simp add: div_anc_half)
    then have "j div 2 ^ (c - Suc b) = 2 * k \<or> j div 2 ^ (c - Suc b) = Suc (2 * k)" by linarith
    ultimately show ?thesis by metis
  qed (use c in simp)
qed

text \<open>No node in use lies below another one.\<close>

definition wf_tree :: "nat \<Rightarrow> (nat \<times> nat) set \<Rightarrow> bool" where
  "wf_tree L U \<longleftrightarrow> (\<forall>(b, k) \<in> U. L \<le> b \<and> b \<le> 27 \<and> k < 2 ^ (b - L)
     \<and> \<not> busy U (Suc b) (2 * k) \<and> \<not> busy U (Suc b) (Suc (2 * k)))"

lemma wf_treeD:
  assumes "wf_tree L U" "(b, k) \<in> U"
  shows "L \<le> b" "b \<le> 27" "k < 2 ^ (b - L)" "\<not> busy U (Suc b) (2 * k)" "\<not> busy U (Suc b) (Suc (2 * k))"
  using assms by (auto simp: wf_tree_def)

text \<open>The free nodes are the largest ones without a used one: their buddy is in use, or they are the root.\<close>

definition free_nodes :: "nat \<Rightarrow> (nat \<times> nat) set \<Rightarrow> nat \<Rightarrow> nat set" where
  "free_nodes L U b = {k. L \<le> b \<and> b \<le> 27 \<and> k < 2 ^ (b - L) \<and> \<not> busy U b k \<and> (b = L \<or> busy U b (sib k))}"

text \<open>The bit of an inner node: exactly one of its children is in use. Above the parent of the root they are off.\<close>

definition split_bit :: "nat \<Rightarrow> (nat \<times> nat) set \<Rightarrow> nat \<Rightarrow> nat \<Rightarrow> bool" where
  "split_bit L U b k \<longleftrightarrow> L \<le> Suc b \<and> busy U (Suc b) (2 * k) \<noteq> busy U (Suc b) (Suc (2 * k))"

lemma split_bit_parent: "0 < b \<Longrightarrow> L \<le> b \<Longrightarrow> split_bit L U (b - 1) (k div 2) \<longleftrightarrow> busy U b k \<noteq> busy U b (sib k)"
  by (cases "even k") (auto simp: split_bit_def elim!: evenE oddE)

text \<open>When exactly one node changes between busy and not, exactly its parent's bit changes.\<close>

lemma split_bit_toggle:
  assumes "0 < b" "L \<le> b" "\<And>c j. L \<le> c \<Longrightarrow> busy U' c j \<longleftrightarrow> busy U c j \<noteq> ((c, j) = (b, k))"
  shows "split_bit L U' c j \<longleftrightarrow> split_bit L U c j \<noteq> ((c, j) = (b - 1, k div 2))"
proof (cases "Suc c = b \<and> j = k div 2")
  case True
  then have "c = b - 1" "j = k div 2" by auto
  then show ?thesis
    using split_bit_parent [OF assms(1,2), of U k] split_bit_parent [OF assms(1,2), of U' k] assms(3) [of b] assms(2) by auto
next
  case False
  then have "(Suc c, 2 * j) \<noteq> (b, k)" "(Suc c, Suc (2 * j)) \<noteq> (b, k)" "(c, j) \<noteq> (b - 1, k div 2)" using assms(1) by auto
  then show ?thesis unfolding split_bit_def using assms(3) [of "Suc c"] by blast
qed

section \<open>Taking and giving back a free node\<close>

lemma busy_take:
  assumes "b = L \<or> busy U b (sib k)" "L \<le> c"
  shows "busy (insert (b, k) U) c j \<longleftrightarrow> busy U c j \<or> (c, j) = (b, k)"
proof -
  have "busy U c j" if c: "c < b" "k div 2 ^ (b - c) = j"
  proof -
    have "busy U b (sib k)" using c(1) assms by auto
    then obtain d i where d: "(d, i) \<in> U" "b \<le> d" "i div 2 ^ (d - b) = sib k" by (auto simp: busy_def)
    have "i div 2 ^ (d - c) = i div 2 ^ (d - b) div 2 ^ (b - c)"
      using c(1) d(2) by (simp add: div_pow)
    also have "\<dots> = sib k div 2 div 2 ^ (b - c - 1)"
      unfolding d(3) using c(1) by (intro div_pow_first) simp
    also have "\<dots> = j" using c div_pow_first [of "b - c" k] by simp
    finally show ?thesis using d(1,2) c(1) by (intro busyI) simp_all
  qed
  then show ?thesis by (cases "c = b") (auto simp: busy_insert)
qed

lemma take_node:
  assumes w: "wf_tree L U" and f: "k \<in> free_nodes L U b"
  shows "wf_tree L (insert (b, k) U)"
    and "free_nodes L (insert (b, k) U) c = free_nodes L U c - (if c = b then {k} else {})"
    and "0 < b \<Longrightarrow> split_bit L (insert (b, k) U) c j \<longleftrightarrow> split_bit L U c j \<noteq> ((c, j) = (b - 1, k div 2))"
proof -
  let ?U = "insert (b, k) U"
  have F: "L \<le> b" "b \<le> 27" "k < 2 ^ (b - L)" "\<not> busy U b k" "b = L \<or> busy U b (sib k)"
    using f by (auto simp: free_nodes_def)
  note B = busy_take [OF F(5)]
  have "\<not> busy U (Suc b) (2 * k)" "\<not> busy U (Suc b) (Suc (2 * k))"
    using busy_up [of U b "2 * k"] busy_up [of U b "Suc (2 * k)"] F(4) by auto
  then have new: "\<not> busy ?U (Suc b) (2 * k) \<and> \<not> busy ?U (Suc b) (Suc (2 * k))" using F(1) by (simp add: B)
  have old: "\<not> busy ?U (Suc c) (2 * j) \<and> \<not> busy ?U (Suc c) (Suc (2 * j))" if u: "(c, j) \<in> U" for c j
  proof -
    note W = wf_treeD [OF w u]
    have "sib k = Suc (2 * j)" if "b = Suc c" "k = 2 * j" using that by simp
    moreover have "sib k = 2 * j" if "b = Suc c" "k = Suc (2 * j)" using that by simp
    ultimately show ?thesis using W F(5) by (auto simp: B)
  qed
  show "wf_tree L ?U"
    using new old w F(1-3) unfolding wf_tree_def by (auto split: prod.splits)
  show "free_nodes L ?U c = free_nodes L U c - (if c = b then {k} else {})"
  proof (cases "c = b")
    case True
    have "x \<in> free_nodes L ?U b \<longleftrightarrow> x \<in> free_nodes L U b \<and> x \<noteq> k" for x
    proof (cases "x = sib k")
      case True
      then have "b = L \<Longrightarrow> \<not> (x < 2 ^ (b - L))" using F(3) by simp
      then show ?thesis using True F by (auto simp: free_nodes_def B)
    qed (use F(1) in \<open>auto simp: free_nodes_def B sib_iff\<close>)
    with True show ?thesis by auto
  qed (auto simp: free_nodes_def B)
  show "split_bit L ?U c j \<longleftrightarrow> split_bit L U c j \<noteq> ((c, j) = (b - 1, k div 2))" if "0 < b"
    by (rule split_bit_toggle [OF that F(1)]) (use B F(4) in auto)
qed

text \<open>Giving a node back is taking it in reverse.\<close>

lemma given_back_free:
  assumes w: "wf_tree L (insert (b, k) U)" and u: "(b, k) \<notin> U" and s: "b = L \<or> busy U b (sib k)"
  shows "wf_tree L U" "k \<in> free_nodes L U b"
proof -
  note W = wf_treeD [OF w insertI1]
  have "\<not> busy U b k" using busy_down [of U b k] u W(4,5) by (auto simp: busy_insert)
  with W(1-3) s show "k \<in> free_nodes L U b" by (simp add: free_nodes_def)
  show "wf_tree L U" using w unfolding wf_tree_def by (force dest: busy_mono [OF _ subset_insertI])
qed

section \<open>Splitting and merging\<close>

lemma busy_child:
  assumes "L \<le> c"
  shows "busy (insert (Suc b, k) U) c j \<longleftrightarrow> busy (insert (b, k div 2) U) c j \<or> (c, j) = (Suc b, k)"
  by (cases "c = Suc b") (auto simp: busy_insert le_Suc_eq div_anc)

text \<open>A used node becomes its parent, the buddy being free; and the other way round.\<close>

lemma merge_node:
  assumes w: "wf_tree L (insert (Suc b, k) U)" and u: "(Suc b, k) \<notin> U" and s: "\<not> busy U (Suc b) (sib k)" and L: "L \<le> b"
  shows "wf_tree L (insert (b, k div 2) U)" "(b, k div 2) \<notin> U"
    and "free_nodes L (insert (Suc b, k) U) c
      = (if c = Suc b then insert (sib k) (free_nodes L (insert (b, k div 2) U) c) else free_nodes L (insert (b, k div 2) U) c)"
    and "sib k \<notin> free_nodes L (insert (b, k div 2) U) (Suc b)"
    and "split_bit L (insert (b, k div 2) U) c j \<longleftrightarrow> split_bit L (insert (Suc b, k) U) c j \<noteq> ((c, j) = (b, k div 2))"
proof -
  let ?U = "insert (b, k div 2) U" and ?V = "insert (Suc b, k) U"
  note W = wf_treeD [OF w insertI1]
  have nk: "\<not> busy U (Suc b) k" using busy_down [of U "Suc b" k] u W(4,5) by (auto simp: busy_insert)
  have kids: "\<not> busy U (Suc b) (2 * (k div 2)) \<and> \<not> busy U (Suc b) (Suc (2 * (k div 2)))"
    using nk s by (cases "even k") (auto elim!: evenE oddE)
  show nu: "(b, k div 2) \<notin> U"
  proof
    assume "(b, k div 2) \<in> U"
    then have "(b, k div 2) \<in> ?V" by simp
    from wf_treeD(4,5) [OF w this] have "\<not> busy ?V (Suc b) k" by (cases "even k") (auto elim!: evenE oddE)
    then show False by (simp add: busy_used)
  qed
  have B: "busy ?V c j \<longleftrightarrow> busy ?U c j \<or> (c, j) = (Suc b, k)" for c j
    by (rule busy_child [of 0]) simp
  have pk: "\<not> busy ?U (Suc b) k" "\<not> busy ?U (Suc b) (sib k)" using nk s by (auto simp: busy_insert)
  have wk: "\<not> busy ?U (Suc c) (2 * j) \<and> \<not> busy ?U (Suc c) (Suc (2 * j))" if "(c, j) \<in> ?U" for c j
  proof (cases "(c, j) = (b, k div 2)")
    case False
    then have "(c, j) \<in> ?V" using that by auto
    from wf_treeD(4,5) [OF w this] show ?thesis by (auto simp: B)
  qed (use kids in \<open>auto simp: busy_insert\<close>)
  have "k < 2 ^ (Suc b - L)" by (rule W(3))
  then have "k div 2 < 2 ^ (b - L)" using L by (simp add: Suc_diff_le)
  then have "\<forall>(c, j) \<in> ?U. L \<le> c \<and> c \<le> 27 \<and> j < 2 ^ (c - L)"
    using w L W(2) unfolding wf_tree_def by auto
  with wk show "wf_tree L ?U" unfolding wf_tree_def by blast
  show "sib k \<notin> free_nodes L ?U (Suc b)" using L pk by (simp add: free_nodes_def)
  have sk: "sib k < 2 ^ (Suc b - L)" using W(3) L by (intro sib_less) simp_all
  have "x \<in> free_nodes L ?V c \<longleftrightarrow> x \<in> free_nodes L ?U c \<or> (c, x) = (Suc b, sib k)" for x
    using pk sk L W(2) by (auto simp: free_nodes_def B sib_iff)
  then show "free_nodes L ?V c = (if c = Suc b then insert (sib k) (free_nodes L ?U c) else free_nodes L ?U c)"
    by auto
  have "split_bit L ?U c j \<longleftrightarrow> split_bit L ?V c j \<noteq> ((c, j) = (Suc b - 1, k div 2))"
    by (rule split_bit_toggle) (use B pk L in auto)
  then show "split_bit L ?U c j \<longleftrightarrow> split_bit L ?V c j \<noteq> ((c, j) = (b, k div 2))" by simp
qed

lemma split_node:
  assumes w: "wf_tree L (insert (b, k) U)" and u: "(b, k) \<notin> U" and b: "b < 27"
  shows "wf_tree L (insert (Suc b, 2 * k) U)" "(Suc b, 2 * k) \<notin> U" "\<not> busy U (Suc b) (Suc (2 * k))"
proof -
  let ?U = "insert (b, k) U" and ?V = "insert (Suc b, 2 * k) U"
  note W = wf_treeD [OF w insertI1]
  have B: "busy ?V c j \<longleftrightarrow> busy ?U c j \<or> (c, j) = (Suc b, 2 * k)" for c j
    using busy_child [of 0 c b "2 * k"] by simp
  have n: "\<not> busy U (Suc b) (2 * k)" "\<not> busy U (Suc b) (Suc (2 * k))" using W(4,5) by (auto simp: busy_insert)
  then show "\<not> busy U (Suc b) (Suc (2 * k))" "(Suc b, 2 * k) \<notin> U" using busy_used by blast+
  have "\<not> busy ?V (Suc (Suc b)) i" if "i div 2 = 2 * k" for i
    using n(1) busy_up [of U "Suc b" i] that by (auto simp: busy_insert)
  moreover have "\<not> busy ?V (Suc c) (2 * j) \<and> \<not> busy ?V (Suc c) (Suc (2 * j))" if j: "(c, j) \<in> U" for c j
  proof -
    have "(c, j) \<in> ?U" "(c, j) \<noteq> (b, k)" using j u by auto
    with wf_treeD(4,5) [OF w this(1)] show ?thesis by (auto simp: B)
  qed
  moreover have "2 * k < 2 ^ (Suc b - L)" using W(1,3) by (simp add: Suc_diff_le)
  ultimately show "wf_tree L ?V" using w b W(1) unfolding wf_tree_def by auto
qed

section \<open>A higher root\<close>

lemma free_nodes_empty: "L \<le> 27 \<Longrightarrow> free_nodes L {} b = (if b = L then {0} else {})"
  by (auto simp: free_nodes_def)

lemma busy_root:
  assumes w: "wf_tree L U" and u: "U \<noteq> {}"
  shows "busy U L k \<longleftrightarrow> k = 0"
proof -
  have "j div 2 ^ (c - L) = 0" if "(c, j) \<in> U" for c j using wf_treeD(3) [OF w that] by simp
  with u wf_treeD(1) [OF w] show ?thesis by (fastforce simp: busy_def)
qed

lemma busy_range: "wf_tree L U \<Longrightarrow> L \<le> b \<Longrightarrow> busy U b k \<Longrightarrow> k < 2 ^ (b - L)"
proof -
  assume w: "wf_tree L U" and b: "L \<le> b" "busy U b k"
  then obtain c j where c: "(c, j) \<in> U" "b \<le> c" "j div 2 ^ (c - b) = k" by (auto simp: busy_def)
  have "j < 2 ^ ((b - L) + (c - b))" using wf_treeD(3) [OF w c(1)] c(2) b(1) by simp
  then have "j < 2 ^ (b - L) * 2 ^ (c - b)" by (simp only: power_add)
  then show "k < 2 ^ (b - L)" unfolding c(3) [symmetric] by (simp add: div_less_iff_less_mult)
qed

lemma wf_tree_higher: "wf_tree L U \<Longrightarrow> wf_tree (L - 1) U"
  unfolding wf_tree_def
  by (fastforce elim!: less_le_trans intro: power_increasing diff_le_mono2)

lemma higher_root:
  assumes w: "wf_tree (Suc L) U" and u: "U \<noteq> {}" and L: "Suc L \<le> 27"
  shows "free_nodes (Suc L) U (Suc L) = {}" "free_nodes L U L = {}"
    and "Suc L \<le> b \<Longrightarrow> free_nodes L U b = (if b = Suc L then {1} else free_nodes (Suc L) U b)"
    and "split_bit L U c j \<longleftrightarrow> split_bit (Suc L) U c j \<noteq> (0 < L \<and> (c, j) = (L - 1, 0))"
    and "split_bit (Suc L) U L 0"
proof -
  note R = busy_root [OF w u] and R' = busy_root [OF wf_tree_higher [OF w] u, simplified]
  show "free_nodes (Suc L) U (Suc L) = {}" by (auto simp: free_nodes_def R)
  show "free_nodes L U L = {}" by (auto simp: free_nodes_def R')
  show "split_bit (Suc L) U L 0" by (simp add: split_bit_def R)
  show "free_nodes L U b = (if b = Suc L then {1} else free_nodes (Suc L) U b)" if b: "Suc L \<le> b"
  proof (cases "b = Suc L")
    case True
    have "k \<in> free_nodes L U (Suc L) \<longleftrightarrow> k = 1" for k
    proof
      assume k: "k \<in> free_nodes L U (Suc L)"
      then have "k < 2" "k \<noteq> 0" by (auto simp: free_nodes_def R)
      then show "k = 1" by simp
    qed (use L in \<open>simp add: free_nodes_def R\<close>)
    with True show ?thesis by auto
  next
    case False
    have "x < 2 ^ (b - Suc L)" if x: "busy U b (sib x)" for x
    proof -
      have "sib x < 2 ^ (b - Suc L)" by (rule busy_range [OF w b x])
      then have "sib (sib x) < 2 ^ (b - Suc L)" by (rule sib_less [rotated]) (use b False in simp)
      then show ?thesis by simp
    qed
    moreover have le: "(2 :: nat) ^ (b - Suc L) \<le> 2 ^ (b - L)" by (intro power_increasing) simp_all
    ultimately show ?thesis using False b by (auto simp: free_nodes_def intro: less_le_trans [OF _ le])
  qed
  show "split_bit L U c j \<longleftrightarrow> split_bit (Suc L) U c j \<noteq> (0 < L \<and> (c, j) = (L - 1, 0))"
  proof (cases "Suc c = L")
    case True
    then have "split_bit L U c j \<longleftrightarrow> (2 * j = 0) \<noteq> (Suc (2 * j) = 0)" by (simp add: split_bit_def R')
    with True show ?thesis by (auto simp: split_bit_def)
  qed (auto simp: split_bit_def)
qed

section \<open>Nodes do not overlap\<close>

definition off :: "nat \<Rightarrow> nat \<Rightarrow> nat" where
  "off b k = k * 2 ^ (31 - b)"

lemma off_mono: "(k + 1) * 2 ^ (31 - b) = off b k + 2 ^ (31 - b)"
  by (simp add: off_def)

lemma off_apart:
  assumes "b \<le> c" "c \<le> 31" "j div 2 ^ (c - b) \<noteq> k"
  shows "off b k + 2 ^ (31 - b) \<le> off c j \<or> off c j + 2 ^ (31 - c) \<le> off b k"
proof -
  define q where "q = (2 :: nat) ^ (c - b)"
  have p: "(2 :: nat) ^ (31 - b) = q * 2 ^ (31 - c)" using assms(1,2) by (simp add: q_def flip: power_add)
  have "0 < q" by (simp add: q_def)
  consider "j div q < k" | "k < j div q" using assms(3) unfolding q_def by linarith
  then show ?thesis
  proof cases
    case 1
    then have "j < k * q" using \<open>0 < q\<close> by (simp add: div_less_iff_less_mult)
    then have "(j + 1) * 2 ^ (31 - c) \<le> k * q * 2 ^ (31 - c)" by (intro mult_le_mono1) simp
    then show ?thesis unfolding off_def p by (simp add: mult.assoc)
  next
    case 2
    then have "(k + 1) * q \<le> j" using \<open>0 < q\<close> by (metis Suc_eq_plus1 Suc_leI less_eq_div_iff_mult_less_eq)
    then have "(k + 1) * q * 2 ^ (31 - c) \<le> j * 2 ^ (31 - c)" by (intro mult_le_mono1)
    moreover have "(k + 1) * q * 2 ^ (31 - c) = k * (q * 2 ^ (31 - c)) + q * 2 ^ (31 - c)" by (simp add: algebra_simps)
    ultimately show ?thesis unfolding off_def p by linarith
  qed
qed

text \<open>The nodes that are in use or free: no one lies below another.\<close>

definition leaf :: "nat \<Rightarrow> (nat \<times> nat) set \<Rightarrow> nat \<Rightarrow> nat \<Rightarrow> bool" where
  "leaf L U b k \<longleftrightarrow> (b, k) \<in> U \<or> k \<in> free_nodes L U b"

lemma leaf_bounds:
  assumes "wf_tree L U" "leaf L U b k"
  shows "L \<le> b" "b \<le> 27" "k < 2 ^ (b - L)"
  using assms by (auto simp: leaf_def free_nodes_def dest: wf_treeD)

lemma leaf_below:
  assumes w: "wf_tree L U" and l: "leaf L U b k" "leaf L U c j" and d: "b \<le> c" "j div 2 ^ (c - b) = k"
  shows "(b, k) = (c, j)"
proof (rule ccontr)
  assume ne: "(b, k) \<noteq> (c, j)"
  then have bc: "b < c" using d by (cases "b = c") auto
  have below: False if "busy U c i" "i div 2 = j div 2" for i
  proof -
    obtain e m where e: "(e, m) \<in> U" "c \<le> e" "m div 2 ^ (e - c) = i" using \<open>busy U c i\<close> by (auto simp: busy_def)
    have *: "m div 2 ^ (e - a) = i div 2 ^ (c - a)" if "a \<le> c" for a
      using that e(2) unfolding e(3) [symmetric] by (simp add: div_pow)
    have **: "i div 2 ^ (c - a) = j div 2 ^ (c - a)" if "a < c" for a
    proof -
      have "x div 2 ^ (c - a) = x div 2 div 2 ^ (c - a - 1)" for x :: nat
        using that by (intro div_pow_first) simp
      then show ?thesis using \<open>i div 2 = j div 2\<close> by simp
    qed
    from l(1) show False unfolding leaf_def
    proof
      assume bk: "(b, k) \<in> U"
      have "busy U (Suc b) (i div 2 ^ (c - Suc b))" using e(1,2) * [of "Suc b"] bc by (intro busyI [of e m]) simp_all
      moreover have "i div 2 ^ (c - Suc b) div 2 = k" using ** [OF bc] d(2) bc by (simp add: div_anc_half)
      then have "i div 2 ^ (c - Suc b) = 2 * k \<or> i div 2 ^ (c - Suc b) = Suc (2 * k)" by linarith
      ultimately show False using wf_treeD(4,5) [OF w bk] by metis
    next
      assume "k \<in> free_nodes L U b"
      moreover have "busy U b k" using e(1,2) * [OF d(1)] ** [OF bc] d bc by (intro busyI [of e m]) simp_all
      ultimately show False by (simp add: free_nodes_def)
    qed
  qed
  from l(2) show False unfolding leaf_def
  proof
    assume "(c, j) \<in> U" then show False using below [of j] busy_used by auto
  next
    assume "j \<in> free_nodes L U c"
    then have "busy U c (sib j)" using bc leaf_bounds(1) [OF w l(1)] by (auto simp: free_nodes_def)
    from below [OF this] show False by simp
  qed
qed

lemma leaves_apart:
  assumes w: "wf_tree L U" and l: "leaf L U b k" "leaf L U c j" and ne: "(b, k) \<noteq> (c, j)"
  shows "off b k + 2 ^ (31 - b) \<le> off c j \<or> off c j + 2 ^ (31 - c) \<le> off b k"
proof (cases "b \<le> c")
  case True
  then show ?thesis using leaf_below [OF w l] leaf_bounds(2) [OF w l(2)] ne by (intro off_apart) auto
next
  case False
  then show ?thesis
    using leaf_below [OF w l(2,1)] leaf_bounds(2) [OF w l(1)] ne off_apart [of c b k j] by auto
qed

end
