(* ===== verification/Buddy.thy ===== *)
theory Buddy
  imports Memlib
begin

text \<open>
  The buddy allocator \<open>src/malloc/buddy.c\<close>: a binary tree over a 2 GB address range from \<open>base_ptr\<close>, one
  bit per inner node (\<open>node_is_split\<close>), one circular free list per block size. The list heads are the static
  array \<open>buckets\<close>, so links point both into the storage and into that array; it lies at an address of
  the same byte memory. \<open>None\<close> is an access outside both, or a loop that does not end.
\<close>

section \<open>The code\<close>

definition HEADER_SIZE :: addr where "HEADER_SIZE = 8"
definition MIN_ALLOC_LOG2 :: nat where "MIN_ALLOC_LOG2 = 4"
definition MIN_ALLOC :: addr where "MIN_ALLOC = push_bit MIN_ALLOC_LOG2 1"
definition MAX_ALLOC_LOG2 :: addr where "MAX_ALLOC_LOG2 = 31"
definition MAX_ALLOC :: addr where "MAX_ALLOC = push_bit (unat MAX_ALLOC_LOG2) 1"
definition BUCKET_COUNT :: addr where "BUCKET_COUNT = MAX_ALLOC_LOG2 - of_nat MIN_ALLOC_LOG2 + 1"

text \<open>\<open>sizeof(list_t)\<close>: two pointers, \<open>prev\<close> at offset 0 and \<open>next\<close> at offset 4.\<close>

definition SIZEOF_LIST_T :: addr where "SIZEOF_LIST_T = 8"

text \<open>\<open>buckets_addr\<close> is the address of the array; \<open>node_is_split\<close> has \<open>2 ^ 24\<close> bytes.\<close>

record buddy = mem +
  buckets_addr :: addr
  bucket_limit :: addr
  node_is_split :: "addr \<Rightarrow> byte"
  base_ptr :: addr
  max_ptr :: addr

definition in_buckets :: "buddy \<Rightarrow> addr \<Rightarrow> bool" where
  "in_buckets s p \<longleftrightarrow> buckets_addr s \<le> p
     \<and> unat p + 4 \<le> unat (buckets_addr s) + unat (BUCKET_COUNT * SIZEOF_LIST_T)"

definition LD :: "buddy \<Rightarrow> addr \<Rightarrow> 32 word option" where
  "LD s p = (if in_storage s p 4 \<or> in_buckets s p then Some (ld32 (bytes s) p) else None)"

definition ST :: "buddy \<Rightarrow> addr \<Rightarrow> 32 word \<Rightarrow> buddy option" where
  "ST s p v = (if in_storage s p 4 \<or> in_buckets s p
     then Some (s\<lparr>bytes := st32 (bytes s) p v\<rparr>) else None)"

definition bucket_head :: "buddy \<Rightarrow> addr \<Rightarrow> addr" where
  "bucket_head s bucket = buckets_addr s + bucket * SIZEOF_LIST_T"

definition get_prev :: "buddy \<Rightarrow> addr \<Rightarrow> addr option" where "get_prev s e = LD s e"
definition get_next :: "buddy \<Rightarrow> addr \<Rightarrow> addr option" where "get_next s e = LD s (e + 4)"
definition set_prev :: "buddy \<Rightarrow> addr \<Rightarrow> addr \<Rightarrow> buddy option" where "set_prev s e v = ST s e v"
definition set_next :: "buddy \<Rightarrow> addr \<Rightarrow> addr \<Rightarrow> buddy option" where "set_next s e v = ST s (e + 4) v"

definition update_max_ptr :: "buddy \<Rightarrow> addr \<Rightarrow> bool \<times> buddy" where
  "update_max_ptr s new_value =
     (let s = s\<lparr>max_ptr := mem_heap_hi s\<rparr>
      in if new_value > max_ptr s then
           (let (r, s) = mem_sbrk s (new_value - max_ptr s) in if r = - 1 then (False, s) else (True, s))
         else (True, s))"

definition list_init :: "buddy \<Rightarrow> addr \<Rightarrow> buddy option" where
  "list_init s l = do {
     s \<leftarrow> set_prev s l l;
     set_next s l l }"

definition list_push :: "buddy \<Rightarrow> addr \<Rightarrow> addr \<Rightarrow> buddy option" where
  "list_push s l entry = do {
     prev \<leftarrow> get_prev s l;
     s \<leftarrow> set_prev s entry prev;
     s \<leftarrow> set_next s entry l;
     s \<leftarrow> set_next s prev entry;
     set_prev s l entry }"

definition list_remove_buddy :: "buddy \<Rightarrow> addr \<Rightarrow> buddy option" where
  "list_remove_buddy s entry = do {
     prev \<leftarrow> get_prev s entry;
     nxt \<leftarrow> get_next s entry;
     s \<leftarrow> set_next s prev nxt;
     set_prev s nxt prev }"

definition list_pop :: "buddy \<Rightarrow> addr \<Rightarrow> (addr \<times> buddy) option" where
  "list_pop s l = do {
     back \<leftarrow> get_prev s l;
     if back = l then Some (NULL, s)
     else do {
       s \<leftarrow> list_remove_buddy s back;
       Some (back, s) } }"

definition ptr_for_node :: "buddy \<Rightarrow> addr \<Rightarrow> addr \<Rightarrow> addr" where
  "ptr_for_node s index bucket =
     base_ptr s + push_bit (unat (MAX_ALLOC_LOG2 - bucket)) (index - push_bit (unat bucket) 1 + 1)"

text \<open>\<open>ptr - base_ptr\<close> is a signed \<open>ptrdiff_t\<close>, so the shift is arithmetic.\<close>

definition node_for_ptr :: "buddy \<Rightarrow> addr \<Rightarrow> addr \<Rightarrow> addr" where
  "node_for_ptr s p bucket =
     signed_drop_bit (unat (MAX_ALLOC_LOG2 - bucket)) (p - base_ptr s) + push_bit (unat bucket) 1 - 1"

definition split_byte :: "addr \<Rightarrow> addr option" where
  "split_byte index = (if index div 8 < push_bit 24 1 then Some (index div 8) else None)"

definition parent_is_split :: "buddy \<Rightarrow> addr \<Rightarrow> bool option" where
  "parent_is_split s index = (let index = (index - 1) div 2 in do {
     i \<leftarrow> split_byte index;
     Some (drop_bit (unat (index mod 8)) (node_is_split s i) AND 1 \<noteq> 0) })"

definition flip_parent_is_split :: "buddy \<Rightarrow> addr \<Rightarrow> buddy option" where
  "flip_parent_is_split s index = (let index = (index - 1) div 2 in do {
     i \<leftarrow> split_byte index;
     Some (s\<lparr>node_is_split := (node_is_split s)
       (i := node_is_split s i XOR push_bit (unat (index mod 8)) 1)\<rparr>) })"

partial_function (option) bucket_loop :: "addr \<Rightarrow> addr \<Rightarrow> addr \<Rightarrow> addr option" where
  "bucket_loop request bucket sz =
     (if sz < request then bucket_loop request (bucket - 1) (sz * 2) else Some bucket)"

definition bucket_for_request :: "addr \<Rightarrow> addr option" where
  "bucket_for_request request = bucket_loop request (BUCKET_COUNT - 1) MIN_ALLOC"

partial_function (option) lower_bucket_limit :: "buddy \<Rightarrow> addr \<Rightarrow> (bool \<times> buddy) option" where
  "lower_bucket_limit s bucket =
     (if bucket < bucket_limit s then do {
        let root = node_for_ptr s (base_ptr s) (bucket_limit s);
        split \<leftarrow> parent_is_split s root;
        if \<not> split then do {
          s \<leftarrow> list_remove_buddy s (base_ptr s);
          let s = s\<lparr>bucket_limit := bucket_limit s - 1\<rparr>;
          s \<leftarrow> list_init s (bucket_head s (bucket_limit s));
          s \<leftarrow> list_push s (bucket_head s (bucket_limit s)) (base_ptr s);
          lower_bucket_limit s bucket }
        else do {
          let right_child = ptr_for_node s (root + 1) (bucket_limit s);
          let (ok, s) = update_max_ptr s (right_child + SIZEOF_LIST_T);
          if \<not> ok then Some (False, s)
          else do {
            s \<leftarrow> list_push s (bucket_head s (bucket_limit s)) right_child;
            let s = s\<lparr>bucket_limit := bucket_limit s - 1\<rparr>;
            s \<leftarrow> list_init s (bucket_head s (bucket_limit s));
            let root = (root - 1) div 2;
            s \<leftarrow> (if root \<noteq> 0 then flip_parent_is_split s root else Some s);
            lower_bucket_limit s bucket } } }
      else Some (True, s))"

text \<open>The five statements \<open>mm_init\<close> and the first call of \<open>mm_malloc\<close> share.\<close>

definition mm_init_buddy :: "buddy \<Rightarrow> (int \<times> buddy) option" where
  "mm_init_buddy s = do {
     let (p, s) = mem_sbrk s 0;
     let s = s\<lparr>base_ptr := p, max_ptr := p, bucket_limit := BUCKET_COUNT - 1\<rparr>;
     let (_, s) = update_max_ptr s (base_ptr s + SIZEOF_LIST_T);
     s \<leftarrow> list_init s (bucket_head s (BUCKET_COUNT - 1));
     s \<leftarrow> list_push s (bucket_head s (BUCKET_COUNT - 1)) (base_ptr s);
     Some (0, s) }"

text \<open>The inner loop of \<open>mm_malloc\<close> that splits the block down to the requested size.\<close>

partial_function (option) split_down :: "buddy \<Rightarrow> addr \<Rightarrow> addr \<Rightarrow> addr \<Rightarrow> buddy option" where
  "split_down s i bucket original_bucket =
     (if bucket < original_bucket then do {
        let i = i * 2 + 1;
        let bucket = bucket + 1;
        s \<leftarrow> flip_parent_is_split s i;
        s \<leftarrow> list_push s (bucket_head s bucket) (ptr_for_node s (i + 1) bucket);
        split_down s i bucket original_bucket }
      else Some s)"

text \<open>What \<open>mm_malloc\<close> does with a block \<open>p\<close> it took from the list of \<open>bucket\<close>.\<close>

definition take_block :: "buddy \<Rightarrow> addr \<Rightarrow> addr \<Rightarrow> addr \<Rightarrow> addr \<Rightarrow> (addr \<times> buddy) option" where
  "take_block s request original_bucket bucket p = do {
     let sz = push_bit (unat (MAX_ALLOC_LOG2 - bucket)) 1;
     let bytes_needed = (if bucket < original_bucket then sz div 2 + SIZEOF_LIST_T else sz);
     let (ok, s) = update_max_ptr s (p + bytes_needed);
     if \<not> ok then do {
       s \<leftarrow> list_push s (bucket_head s bucket) p;
       Some (NULL, s) }
     else do {
       let i = node_for_ptr s p bucket;
       s \<leftarrow> (if i \<noteq> 0 then flip_parent_is_split s i else Some s);
       s \<leftarrow> split_down s i bucket original_bucket;
       s \<leftarrow> ST s p request;
       Some (p + HEADER_SIZE, s) } }"

partial_function (option) malloc_loop :: "buddy \<Rightarrow> addr \<Rightarrow> addr \<Rightarrow> addr \<Rightarrow> (addr \<times> buddy) option" where
  "malloc_loop s request original_bucket bucket =
     (if bucket + 1 \<noteq> 0 then do {
        (ok, s) \<leftarrow> lower_bucket_limit s bucket;
        if \<not> ok then Some (NULL, s)
        else do {
          (p, s) \<leftarrow> list_pop s (bucket_head s bucket);
          if p = NULL then
            (if bucket \<noteq> bucket_limit s \<or> bucket = 0 then malloc_loop s request original_bucket (bucket - 1)
             else do {
               (ok, s) \<leftarrow> lower_bucket_limit s (bucket - 1);
               if \<not> ok then Some (NULL, s)
               else do {
                 (p, s) \<leftarrow> list_pop s (bucket_head s bucket);
                 take_block s request original_bucket bucket p } })
          else take_block s request original_bucket bucket p } }
      else Some (NULL, s))"

definition mm_malloc_buddy :: "buddy \<Rightarrow> addr \<Rightarrow> (addr \<times> buddy) option" where
  "mm_malloc_buddy s request =
     (if request + HEADER_SIZE > MAX_ALLOC then Some (NULL, s)
      else do {
        s \<leftarrow> (if base_ptr s = NULL then do { (_, s) \<leftarrow> mm_init_buddy s; Some s } else Some s);
        original_bucket \<leftarrow> bucket_for_request (request + HEADER_SIZE);
        malloc_loop s request original_bucket original_bucket })"

text \<open>The loop of \<open>mm_free\<close> that merges upwards: the node and bucket it ends with.\<close>

partial_function (option) merge_up :: "buddy \<Rightarrow> addr \<Rightarrow> addr \<Rightarrow> (addr \<times> addr \<times> buddy) option" where
  "merge_up s i bucket =
     (if i \<noteq> 0 then do {
        s \<leftarrow> flip_parent_is_split s i;
        split \<leftarrow> parent_is_split s i;
        if split \<or> bucket = bucket_limit s then Some (i, bucket, s)
        else do {
          s \<leftarrow> list_remove_buddy s (ptr_for_node s (((i - 1) XOR 1) + 1) bucket);
          merge_up s ((i - 1) div 2) (bucket - 1) } }
      else Some (i, bucket, s))"

definition mm_free_buddy :: "buddy \<Rightarrow> addr \<Rightarrow> buddy option" where
  "mm_free_buddy s p =
     (if p = NULL then Some s
      else do {
        let p = p - HEADER_SIZE;
        request \<leftarrow> LD s p;
        bucket \<leftarrow> bucket_for_request (request + HEADER_SIZE);
        let i = node_for_ptr s p bucket;
        (i, bucket, s) \<leftarrow> merge_up s i bucket;
        list_push s (bucket_head s bucket) (ptr_for_node s i bucket) })"

definition mm_realloc_buddy :: "buddy \<Rightarrow> addr \<Rightarrow> addr \<Rightarrow> (addr \<times> buddy) option" where
  "mm_realloc_buddy s oldptr sz = do {
     (newptr, s) \<leftarrow> mm_malloc_buddy s sz;
     if newptr = NULL then Some (NULL, s)
     else do {
       copySize \<leftarrow> LD s oldptr;
       let copySize = (if sz < copySize then sz else copySize);
       s \<leftarrow> memcpy s newptr oldptr copySize;
       s \<leftarrow> mm_free_buddy s oldptr;
       Some (newptr, s) } }"

end
