(* ===== verification/Buddy_Facts.thy ===== *)
theory Buddy_Facts
  imports Buddy
begin

text \<open>
  Correctness of the buddy allocator's building blocks: the bucket of a request, the numbering of the tree's nodes,
  the split bits, and the circular free lists.
\<close>


section \<open>The bucket of a request\<close>

text \<open>Bucket \<open>b\<close> holds blocks of \<open>2 ^ (31 - b)\<close> bytes.\<close>

lemma bucket_loop_ok:
  assumes "k \<le> 31" "unat request \<le> 2 ^ 31" "k = 4 \<or> 2 ^ (k - 1) < unat request" "4 \<le> k"
  shows "\<exists>e. bucket_loop request (of_nat (31 - k)) (of_nat (2 ^ k)) = Some (of_nat (31 - e))
    \<and> k \<le> e \<and> e \<le> 31 \<and> unat request \<le> 2 ^ e \<and> (e = 4 \<or> 2 ^ (e - 1) < unat request)"
  using assms
proof (induction "31 - k" arbitrary: k)
  case 0
  then have k: "k = 31" by simp
  have "bucket_loop request (of_nat (31 - k)) (of_nat (2 ^ k)) = Some (of_nat (31 - k))"
    using 0(3) k by (subst bucket_loop.simps) (simp add: word_less_nat_alt unat_of_nat32)
  then show ?case using 0 k by (intro exI [of _ 31]) simp
next
  case (Suc d)
  have u: "unat (of_nat (2 ^ k) :: addr) = 2 ^ k"
  proof (rule unat_of_nat32)
    show "2 ^ k < (2 ^ 32 :: nat)" using Suc.prems(1) by (intro power_strict_increasing) simp_all
  qed
  show ?case
  proof (cases "2 ^ k < unat request")
    case True
    have k: "k < 31" using Suc(2) by simp
    then have "of_nat (31 - k) - 1 = (of_nat (31 - Suc k) :: addr)" by (simp add: of_nat_diff algebra_simps)
    then have "bucket_loop request (of_nat (31 - k)) (of_nat (2 ^ k))
        = bucket_loop request (of_nat (31 - Suc k)) (of_nat (2 ^ Suc k))"
      using True u by (subst bucket_loop.simps) (simp add: word_less_nat_alt mult.commute)
    moreover have "d = 31 - Suc k" using Suc(2) by simp
    moreover have "Suc k \<le> 31" "4 \<le> Suc k" "Suc k = 4 \<or> 2 ^ (Suc k - 1) < unat request"
      using k Suc.prems(4) True by simp_all
    ultimately show ?thesis using Suc(1) [of "Suc k"] Suc.prems(2) by (metis Suc_leD)
  next
    case False
    then have "bucket_loop request (of_nat (31 - k)) (of_nat (2 ^ k)) = Some (of_nat (31 - k))"
      using u by (subst bucket_loop.simps) (simp add: word_less_nat_alt)
    then show ?thesis using False Suc.prems by (intro exI [of _ k]) simp
  qed
qed

lemma bucket_for_request_ok:
  assumes "unat request \<le> 2 ^ 31"
  shows "\<exists>e. bucket_for_request request = Some (of_nat (31 - e)) \<and> 4 \<le> e \<and> e \<le> 31
    \<and> unat request \<le> 2 ^ e \<and> (e = 4 \<or> 2 ^ (e - 1) < unat request)"
proof -
  have "bucket_for_request request = bucket_loop request (of_nat (31 - 4)) (of_nat (2 ^ 4))"
    by (simp add: bucket_for_request_def BUCKET_COUNT_def MAX_ALLOC_LOG2_def MIN_ALLOC_def MIN_ALLOC_LOG2_def
        push_bit_eq_mult)
  with bucket_loop_ok [of 4 request] assms show ?thesis by simp
qed

text \<open>Beyond \<open>MAX_ALLOC\<close> the size wraps round to 0 and the loop does not end.\<close>

lemma bucket_loop_some:
  "bucket_loop request bucket sz = Some b \<Longrightarrow> \<exists>n. request \<le> sz * 2 ^ n"
proof (induction rule: bucket_loop.raw_induct [rotated, consumes 1])
  case (1 f request bucket sz b)
  show ?case
  proof (cases "sz < request")
    case True
    with 1 obtain n where "request \<le> sz * 2 * 2 ^ n" by fastforce
    then show ?thesis by (intro exI [of _ "Suc n"]) (simp add: mult.assoc)
  next
    case False
    then show ?thesis by (intro exI [of _ 0]) simp
  qed
qed

lemma unat_power2_le: "unat (2 ^ n :: addr) \<le> 2 ^ 31"
proof (cases "n < 32")
  case True
  then have "(2 :: nat) ^ n \<le> 2 ^ 31" by (intro power_increasing) simp_all
  then have "unat (of_nat (2 ^ n) :: addr) = 2 ^ n" by (intro unat_of_nat32) simp
  then show ?thesis using \<open>2 ^ n \<le> 2 ^ 31\<close> by simp
next
  case False
  then obtain k where "n = 32 + k" by (metis le_iff_add not_less)
  then have "(2 ^ n :: addr) = 2 ^ 32 * 2 ^ k" by (simp only: power_add)
  moreover have "(2 ^ 32 :: addr) = 0" by simp
  ultimately show ?thesis by (simp only: mult_zero_left) simp
qed

lemma bucket_for_request_diverges: "2 ^ 31 < unat request \<Longrightarrow> bucket_for_request request = None"
proof (rule ccontr)
  assume r: "2 ^ 31 < unat request" and "bucket_for_request request \<noteq> None"
  then obtain b where "bucket_loop request (BUCKET_COUNT - 1) MIN_ALLOC = Some b"
    by (auto simp: bucket_for_request_def)
  from bucket_loop_some [OF this] obtain n where "request \<le> MIN_ALLOC * 2 ^ n" by blast
  moreover have "MIN_ALLOC * 2 ^ n = 2 ^ (4 + n)"
    by (simp add: MIN_ALLOC_def MIN_ALLOC_LOG2_def push_bit_eq_mult power_add)
  ultimately show False using r unat_power2_le [of "4 + n"] by (simp add: word_le_nat_alt)
qed

section \<open>Nodes and addresses\<close>

text \<open>The nodes of bucket \<open>b\<close> have the indices from \<open>2 ^ b - 1\<close> to \<open>2 ^ (b + 1) - 2\<close>.\<close>

lemma unat_pow: "n < 32 \<Longrightarrow> unat (push_bit n 1 :: addr) = 2 ^ n"
proof -
  assume "n < 32"
  then have "(2 :: nat) ^ n < 2 ^ 32" by (intro power_strict_increasing) simp_all
  then have "unat (of_nat (2 ^ n) :: addr) = 2 ^ n" by (rule unat_of_nat32)
  then show ?thesis by (simp add: push_bit_eq_mult)
qed

lemma node_offset:
  assumes b: "unat bucket \<le> 27" and i: "2 ^ unat bucket \<le> unat index + 1" "unat index + 1 < 2 * 2 ^ unat bucket"
  defines "k \<equiv> unat index + 1 - 2 ^ unat bucket"
  shows "index - push_bit (unat bucket) 1 + 1 = of_nat k" "k < 2 ^ unat bucket"
    "unat (MAX_ALLOC_LOG2 - bucket) = 31 - unat bucket" "k * 2 ^ (31 - unat bucket) < 2 ^ 31"
    "push_bit (31 - unat bucket) (of_nat k :: addr) = of_nat (k * 2 ^ (31 - unat bucket))"
proof -
  have "push_bit (unat bucket) 1 = (of_nat (2 ^ unat bucket) :: addr)" by (simp add: push_bit_eq_mult)
  then have "index - push_bit (unat bucket) 1 + 1 = of_nat (unat index + 1) - of_nat (2 ^ unat bucket)" by simp
  then show "index - push_bit (unat bucket) 1 + 1 = of_nat k" using i by (simp add: k_def of_nat_diff)
  show k: "k < 2 ^ unat bucket" using i by (simp add: k_def)
  have "bucket \<le> MAX_ALLOC_LOG2" using b by (simp add: word_le_nat_alt MAX_ALLOC_LOG2_def)
  then show "unat (MAX_ALLOC_LOG2 - bucket) = 31 - unat bucket" by (simp add: unat_sub MAX_ALLOC_LOG2_def)
  have "k * 2 ^ (31 - unat bucket) < 2 ^ unat bucket * 2 ^ (31 - unat bucket)" using k by simp
  then show "k * 2 ^ (31 - unat bucket) < 2 ^ 31" using b by (simp flip: power_add)
  show "push_bit (31 - unat bucket) (of_nat k :: addr) = of_nat (k * 2 ^ (31 - unat bucket))"
    by (simp add: push_bit_eq_mult)
qed

lemma signed_shift_nat:
  assumes "m < 2 ^ 31" shows "signed_drop_bit n (of_nat m :: addr) = of_nat (m div 2 ^ n)"
proof -
  have u: "unat (of_nat m :: addr) = m" using assms by (intro unat_of_nat32) simp
  then have s: "sint (of_nat m :: addr) = int m" using sint_small [of "of_nat m"] assms by simp
  have "m div 2 ^ n \<le> m" by simp
  then have "m div 2 ^ n < 2 ^ 31" using assms by linarith
  then have "unat (of_nat (m div 2 ^ n) :: addr) = m div 2 ^ n" by (intro unat_of_nat32) simp
  then have s': "sint (of_nat (m div 2 ^ n) :: addr) = int (m div 2 ^ n)"
    using sint_small [of "of_nat (m div 2 ^ n)"] \<open>m div 2 ^ n < 2 ^ 31\<close> by simp
  have "sint (signed_drop_bit n (of_nat m :: addr)) = sint (of_nat (m div 2 ^ n) :: addr)"
    unfolding sint_signed_drop_bit_eq s s' by (simp add: drop_bit_eq_div zdiv_int)
  then show ?thesis by (rule signed_word_eqI)
qed

lemma node_ptr_node:
  assumes b: "unat bucket \<le> 27" and i: "2 ^ unat bucket \<le> unat index + 1" "unat index + 1 < 2 * 2 ^ unat bucket"
  shows "node_for_ptr s (ptr_for_node s index bucket) bucket = index"
proof -
  note N = node_offset [OF assms]
  define k where "k = unat index + 1 - 2 ^ unat bucket"
  have "ptr_for_node s index bucket - base_ptr s = of_nat (k * 2 ^ (31 - unat bucket))"
    unfolding ptr_for_node_def N(1,3) k_def [symmetric] using N(5) by (simp add: k_def)
  then have "node_for_ptr s (ptr_for_node s index bucket) bucket = of_nat k + push_bit (unat bucket) 1 - 1"
    unfolding node_for_ptr_def N(3) using signed_shift_nat [OF N(4)] by (simp add: k_def)
  also have "\<dots> = index" using N(1) by (simp add: k_def algebra_simps)
  finally show ?thesis .
qed

lemma ptr_node_range:
  assumes b: "unat bucket \<le> 27" and i: "2 ^ unat bucket \<le> unat index + 1" "unat index + 1 < 2 * 2 ^ unat bucket"
  shows "unat (ptr_for_node s index bucket - base_ptr s) + 2 ^ (31 - unat bucket) \<le> 2 ^ 31"
    "2 ^ (31 - unat bucket) dvd unat (ptr_for_node s index bucket - base_ptr s)"
proof -
  note N = node_offset [OF assms]
  define k where "k = unat index + 1 - 2 ^ unat bucket"
  have "ptr_for_node s index bucket - base_ptr s = of_nat (k * 2 ^ (31 - unat bucket))"
    unfolding ptr_for_node_def N(1,3) k_def [symmetric] using N(5) by (simp add: k_def)
  moreover have "k * 2 ^ (31 - unat bucket) < 2 ^ 31" using N(4) by (simp add: k_def)
  ultimately have u: "unat (ptr_for_node s index bucket - base_ptr s) = k * 2 ^ (31 - unat bucket)"
    using unat_of_nat32 [of "k * 2 ^ (31 - unat bucket)"] by simp
  show "2 ^ (31 - unat bucket) dvd unat (ptr_for_node s index bucket - base_ptr s)" unfolding u by simp
  have "(k + 1) * 2 ^ (31 - unat bucket) \<le> 2 ^ unat bucket * 2 ^ (31 - unat bucket)"
    using N(2) by (intro mult_le_mono1) (simp add: k_def)
  also have "\<dots> = 2 ^ 31" using b by (simp flip: power_add)
  finally show "unat (ptr_for_node s index bucket - base_ptr s) + 2 ^ (31 - unat bucket) \<le> 2 ^ 31"
    unfolding u by simp
qed

section \<open>The split bits\<close>

lemma parent_after_flip:
  assumes f: "flip_parent_is_split s i = Some s'"
  shows "parent_is_split s' i = map_option Not (parent_is_split s i)"
    and "(j - 1) div 2 \<noteq> (i - 1) div 2 \<Longrightarrow> parent_is_split s' j = parent_is_split s j"
    and "s'\<lparr>node_is_split := node_is_split s\<rparr> = s"
proof -
  define p where "p = (i - 1) div 2"
  obtain x where x: "split_byte p = Some x"
    "s' = s\<lparr>node_is_split := (node_is_split s)(x := node_is_split s x XOR push_bit (unat (p mod 8)) 1)\<rparr>"
    using f by (auto simp: flip_parent_is_split_def p_def Let_def split: Option.bind_splits)
  then have xp: "x = p div 8" by (simp add: split_byte_def split: if_splits)
  have low: "drop_bit n (w :: byte) AND 1 \<noteq> 0 \<longleftrightarrow> bit w n" for n w
    by (simp add: and_one_eq bit_iff_odd_drop_bit odd_iff_mod_2_eq_one)
  have m8: "unat (q mod 8) < 8" for q :: addr by (simp add: unat_mod)
  have push: "bit (2 ^ k :: byte) n \<longleftrightarrow> n = k" if "k < 8" for k n
    using that by (auto simp: bit_exp_iff)
  show "parent_is_split s' i = map_option Not (parent_is_split s i)"
    using x m8 [of p] by (simp add: parent_is_split_def Let_def low bit_xor_iff push flip: p_def)
  show "s'\<lparr>node_is_split := node_is_split s\<rparr> = s" using x(2) by simp
  assume ne: "(j - 1) div 2 \<noteq> (i - 1) div 2"
  define q where "q = (j - 1) div 2"
  have "q \<noteq> p" using ne by (simp add: p_def q_def)
  have "unat (q mod 8) \<noteq> unat (p mod 8)" if "q div 8 = x"
  proof
    assume "unat (q mod 8) = unat (p mod 8)"
    then have "q mod 8 = p mod 8" by (simp add: word_unat_eq_iff)
    with that xp have "q div 8 * 8 + q mod 8 = p div 8 * 8 + p mod 8" by simp
    with \<open>q \<noteq> p\<close> show False by (simp only: div_mult_mod_eq)
  qed
  then show "parent_is_split s' j = parent_is_split s j"
    using x(2) m8 [of p] unfolding parent_is_split_def q_def [symmetric] Let_def
    by (auto simp: split_byte_def low bit_xor_iff push)
qed

section \<open>The circular lists\<close>

text \<open>Words that do not share a byte.\<close>

definition apart4 :: "addr \<Rightarrow> addr \<Rightarrow> bool" where
  "apart4 p q \<longleftrightarrow> (\<forall>i < 4. \<forall>k < 4. p + of_nat i \<noteq> q + of_nat k)"

lemma apart4_sym: "apart4 p q \<Longrightarrow> apart4 q p"
  unfolding apart4_def by metis

lemma apart4I:
  assumes "unat p + 4 \<le> unat q \<or> unat q + 4 \<le> unat p" "unat p + 4 \<le> 2 ^ 32" "unat q + 4 \<le> 2 ^ 32"
  shows "apart4 p q"
  unfolding apart4_def
proof (intro allI impI)
  fix i k :: nat
  assume "i < 4" "k < 4"
  then have "unat (p + of_nat i) = unat p + i" "unat (q + of_nat k) = unat q + k"
    using assms by (intro unat_add_of_nat32; linarith)+
  with assms(1) \<open>i < 4\<close> \<open>k < 4\<close> show "p + of_nat i \<noteq> q + of_nat k" by auto
qed

lemma ld32_st32_apart: "apart4 p q \<Longrightarrow> ld32 (st32 m p v) q = ld32 m q"
proof (rule ld32_cong)
  fix k :: nat
  assume "apart4 p q" "k < 4"
  then show "st32 m p v (q + of_nat k) = m (q + of_nat k)"
    by (intro st32_other) (metis apart4_def)
qed

lemma st32_byte_apart: "\<forall>k < 4. a \<noteq> p + of_nat k \<Longrightarrow> st32 m p v a = m a"
  by (rule st32_other) auto

definition word_ok :: "buddy \<Rightarrow> addr \<Rightarrow> bool" where
  "word_ok s p \<longleftrightarrow> in_storage s p 4 \<or> in_buckets s p"

lemma LD_ok: "word_ok s p \<Longrightarrow> LD s p = Some (ld32 (bytes s) p)"
  by (simp add: LD_def word_ok_def)

lemma ST_ok: "word_ok s p \<Longrightarrow> ST s p v = Some (s\<lparr>bytes := st32 (bytes s) p v\<rparr>)"
  by (simp add: ST_def word_ok_def)

lemma word_ok_bytes [simp]: "word_ok (s\<lparr>bytes := m\<rparr>) p = word_ok s p"
  by (simp add: word_ok_def in_storage_def in_buckets_def)

text \<open>A \<open>list_t\<close> at \<open>p\<close>, and two that share no byte.\<close>

definition cell_ok :: "buddy \<Rightarrow> addr \<Rightarrow> bool" where
  "cell_ok s p \<longleftrightarrow> word_ok s p \<and> word_ok s (p + 4) \<and> unat p + 8 \<le> 2 ^ 32"

definition cells_apart :: "addr \<Rightarrow> addr \<Rightarrow> bool" where
  "cells_apart p q \<longleftrightarrow> unat p + 8 \<le> unat q \<or> unat q + 8 \<le> unat p"

lemma cell_apart4:
  assumes "unat p + 8 \<le> 2 ^ 32"
  shows "apart4 p (p + 4)" "apart4 (p + 4) p"
proof -
  have "unat (p + of_nat 4) = unat p + 4" using assms by (intro unat_add_of_nat32) simp
  then show "apart4 p (p + 4)" using assms by (intro apart4I) simp_all
  then show "apart4 (p + 4) p" by (rule apart4_sym)
qed

lemma cells_apart4:
  assumes "cells_apart p q" "unat p + 8 \<le> 2 ^ 32" "unat q + 8 \<le> 2 ^ 32"
  shows "apart4 p q" "apart4 (p + 4) q" "apart4 p (q + 4)" "apart4 (p + 4) (q + 4)"
proof -
  have "unat (p + of_nat 4) = unat p + 4" "unat (q + of_nat 4) = unat q + 4"
    using assms by (intro unat_add_of_nat32; simp)+
  then show "apart4 p q" "apart4 (p + 4) q" "apart4 p (q + 4)" "apart4 (p + 4) (q + 4)"
    using assms unfolding cells_apart_def by (intro apart4I; simp; linarith)+
qed

lemma st32_self: "ld32 m p = v \<Longrightarrow> st32 m p v = m"
proof
  fix a
  assume v: "ld32 m p = v"
  show "st32 m p v a = m a"
  proof (cases "\<exists>k < 4. a = p + of_nat k")
    case True
    then obtain k where "k < 4" "a = p + of_nat k" by blast
    then show ?thesis using st32_byte [of k m p v] word_bytes_ld32 [of k m p] v by simp
  next
    case False
    then show ?thesis by (intro st32_byte_apart) blast
  qed
qed

lemma list_push_pop:
  assumes wf: "get_prev s l = Some p" "get_next s p = Some l"
    and c: "cell_ok s l" "cell_ok s p" "cell_ok s e"
    and a: "cells_apart e l" "cells_apart e p" "p = l \<or> cells_apart p l"
  shows "\<exists>s1 s2. list_push s l e = Some s1 \<and> list_pop s1 l = Some (e, s2)
    \<and> get_prev s1 l = Some e \<and> get_next s1 e = Some l \<and> get_prev s1 e = Some p \<and> get_next s1 p = Some e
    \<and> (\<exists>m. s2 = s\<lparr>bytes := m\<rparr> \<and> (\<forall>x. \<not> unat (x - e) < 8 \<longrightarrow> m x = bytes s x))"
proof -
  have ok: "word_ok s l" "word_ok s (l + 4)" "word_ok s p" "word_ok s (p + 4)" "word_ok s e" "word_ok s (e + 4)"
    and top: "unat l + 8 \<le> 2 ^ 32" "unat p + 8 \<le> 2 ^ 32" "unat e + 8 \<le> 2 ^ 32"
    using c by (simp_all add: cell_ok_def)
  note EL = cells_apart4 [OF a(1) top(3,1)] and EP = cells_apart4 [OF a(2) top(3,2)]
    and EE = cell_apart4 [OF top(3)]
  have PL: "apart4 (p + 4) l" "apart4 l (p + 4)"
    using a(3) cell_apart4(2) [OF top(1)] cells_apart4(2) [OF _ top(2,1)] apart4_sym by blast+
  note sym = EL [THEN apart4_sym] EP [THEN apart4_sym]
  have "e \<noteq> l" using a(1) by (auto simp: cells_apart_def)
  have w: "ld32 (bytes s) l = p" "ld32 (bytes s) (p + 4) = l"
    using wf ok by (simp_all add: get_prev_def get_next_def LD_ok)
  let ?m0 = "st32 (st32 (bytes s) e p) (e + 4) l"
  let ?m1 = "st32 (st32 ?m0 (p + 4) e) l e"
  let ?m2 = "st32 (st32 ?m1 (p + 4) l) l p"
  note exec = list_push_def list_pop_def list_remove_buddy_def get_prev_def get_next_def set_prev_def set_next_def
    LD_ok ST_ok ok
  have push: "list_push s l e = Some (s\<lparr>bytes := ?m1\<rparr>)" using w by (simp add: exec)
  have r: "ld32 ?m1 l = e" "ld32 ?m1 e = p" "ld32 ?m1 (e + 4) = l" "ld32 ?m1 (p + 4) = e"
    using EL EP EE PL sym by (simp_all add: ld32_st32_apart)
  then have pop: "list_pop (s\<lparr>bytes := ?m1\<rparr>) l = Some (e, s\<lparr>bytes := ?m2\<rparr>)"
    using \<open>e \<noteq> l\<close> by (simp add: exec)
  have "?m2 x = bytes s x" if x: "\<not> unat (x - e) < 8" for x
  proof -
    have in8: "unat (of_nat k :: addr) < 8" if "k < 8" for k using that by (simp add: unat_of_nat32)
    have "x \<noteq> e + of_nat k" if "k < 8" for k using in8 [OF that] x by auto
    from this [of "4 + _"] this have xe: "\<forall>k < 4. x \<noteq> e + of_nat k" "\<forall>k < 4. x \<noteq> e + 4 + of_nat k"
      by (auto simp: add.assoc)
    have l0: "ld32 ?m0 l = p" "ld32 ?m0 (p + 4) = l" using w EL EP by (simp_all add: ld32_st32_apart)
    consider (l) "\<exists>k < 4. x = l + of_nat k" | (p) "\<forall>k < 4. x \<noteq> l + of_nat k" "\<exists>k < 4. x = p + 4 + of_nat k"
      | (o) "\<forall>k < 4. x \<noteq> l + of_nat k" "\<forall>k < 4. x \<noteq> p + 4 + of_nat k" by blast
    then have "?m2 x = ?m0 x"
    proof cases
      case l
      then obtain k where "k < 4" "x = l + of_nat k" by blast
      then show ?thesis using st32_byte [of k] word_bytes_ld32 [of k ?m0 l] l0(1) by simp
    next
      case p
      then obtain k where k: "k < 4" "x = p + 4 + of_nat k" by blast
      have "?m2 x = st32 ?m1 (p + 4) l x" by (rule st32_byte_apart [OF p(1)])
      also have "\<dots> = word_bytes l ! k" unfolding k(2) by (rule st32_byte [OF k(1)])
      also have "\<dots> = ?m0 x" using word_bytes_ld32 [of k ?m0 "p + 4"] l0(2) k by simp
      finally show ?thesis .
    next
      case o
      then show ?thesis by (simp add: st32_byte_apart)
    qed
    also have "\<dots> = bytes s x" using xe by (simp add: st32_byte_apart)
    finally show ?thesis .
  qed
  then show ?thesis using push pop r
    by (intro exI [of _ "s\<lparr>bytes := ?m1\<rparr>"] exI [of _ "s\<lparr>bytes := ?m2\<rparr>"])
      (auto simp: get_prev_def get_next_def LD_ok ok)
qed

end
