(* ===== verification/Buddy_Lists.thy ===== *)
theory Buddy_Lists
  imports Buddy_Tree Buddy_Facts
begin

text \<open>
  How the tree of \<open>Buddy_Tree\<close> lies in the state of \<open>src/malloc/buddy.c\<close>: node numbers and addresses, the split bits, and the
  circular lists, whose cells are the list heads and the first eight bytes of the free nodes.
\<close>

section \<open>Node numbers\<close>

definition node :: "nat \<Rightarrow> nat \<Rightarrow> addr" where
  "node b k = of_nat (2 ^ b - 1 + k)"

definition nptr :: "buddy \<Rightarrow> nat \<Rightarrow> nat \<Rightarrow> addr" where
  "nptr s b k = base_ptr s + of_nat (off b k)"

lemma pow27: "b \<le> 27 \<Longrightarrow> (2 :: nat) ^ b \<le> 134217728"
  using power_increasing [of b 27 "2 :: nat"] by simp

lemma unat_node: "b \<le> 27 \<Longrightarrow> k < 2 ^ b \<Longrightarrow> unat (node b k) = 2 ^ b - 1 + k"
  unfolding node_def using pow27 [of b] by (intro unat_of_nat32) simp

lemma node_eq_iff:
  assumes "b \<le> 27" "k < 2 ^ b" "c \<le> 27" "j < 2 ^ c"
  shows "node b k = node c j \<longleftrightarrow> b = c \<and> k = j"
proof
  assume "node b k = node c j"
  then have e: "2 ^ b + k = 2 ^ c + j"
    using unat_node [OF assms(1,2)] unat_node [OF assms(3,4)] by (cases "(2 :: nat) ^ b"; cases "(2 :: nat) ^ c") simp_all
  have "b = c"
  proof (rule ccontr)
    assume "b \<noteq> c"
    then consider "Suc b \<le> c" | "Suc c \<le> b" by linarith
    then show False
    proof cases
      case 1
      then have "(2 :: nat) ^ Suc b \<le> 2 ^ c" by (intro power_increasing) simp_all
      with e assms(2) show False by simp
    next
      case 2
      then have "(2 :: nat) ^ Suc c \<le> 2 ^ b" by (intro power_increasing) simp_all
      with e assms(4) show False by simp
    qed
  qed
  with e show "b = c \<and> k = j" by simp
qed simp

lemma node_index:
  assumes "b \<le> 27" "k < 2 ^ b"
  shows "unat (of_nat b :: addr) = b" "2 ^ unat (of_nat b :: addr) \<le> unat (node b k) + 1"
    "unat (node b k) + 1 < 2 * 2 ^ unat (of_nat b :: addr)" "unat (node b k) + 1 - 2 ^ unat (of_nat b :: addr) = k"
proof -
  show u: "unat (of_nat b :: addr) = b" using assms(1) by (intro unat_of_nat32) simp
  show "2 ^ unat (of_nat b :: addr) \<le> unat (node b k) + 1" "unat (node b k) + 1 < 2 * 2 ^ unat (of_nat b :: addr)"
    "unat (node b k) + 1 - 2 ^ unat (of_nat b :: addr) = k"
    unfolding u unat_node [OF assms] using assms(2) by simp_all
qed

lemma ptr_for_node_eq:
  assumes "b \<le> 27" "k < 2 ^ b"
  shows "ptr_for_node s (node b k) (of_nat b) = nptr s b k"
proof -
  note I = node_index [OF assms]
  have b: "unat (of_nat b :: addr) \<le> 27" using I(1) assms(1) by simp
  note N = node_offset [OF b I(2,3)]
  have i: "node b k - push_bit b 1 + 1 = of_nat k" using N(1) [unfolded I(4)] unfolding I(1) .
  have "push_bit (31 - b) (of_nat k :: addr) = of_nat (k * 2 ^ (31 - b))" using N(5) [unfolded I(4)] unfolding I(1) .
  then show ?thesis unfolding ptr_for_node_def N(3) I(1) i nptr_def off_def by (simp only:)
qed

lemma node_for_ptr_eq:
  assumes "b \<le> 27" "k < 2 ^ b"
  shows "node_for_ptr s (nptr s b k) (of_nat b) = node b k"
  using node_ptr_node [OF _ node_index(2,3) [OF assms]] node_index(1) [OF assms] assms(1)
  by (simp add: ptr_for_node_eq [OF assms])

lemma node_arith:
  assumes "b < 27" "k < 2 ^ Suc b"
  shows "(node (Suc b) k - 1) div 2 = node b (k div 2)" "((node (Suc b) k - 1) XOR 1) + 1 = node (Suc b) (sib k)"
    and "node (Suc b) k \<noteq> 0"
proof -
  have p: "(2 :: nat) ^ Suc b \<le> 134217728" using pow27 [of "Suc b"] assms(1) by simp
  have u: "unat (node (Suc b) k) = 2 ^ Suc b - 1 + k" using assms by (intro unat_node) simp_all
  have two: "2 \<le> (2 :: nat) ^ Suc b" by simp
  then have "0 < unat (node (Suc b) k)" using u by linarith
  then show nz: "node (Suc b) k \<noteq> 0" by auto
  have u1: "unat (node (Suc b) k - 1) = 2 ^ Suc b - 2 + k"
    using u two by (simp only: unat_minus_one [OF nz])
  have "unat ((node (Suc b) k - 1) div 2) = (2 ^ Suc b - 2 + k) div 2" by (simp add: unat_div u1)
  also have "\<dots> = 2 ^ b - 1 + k div 2"
    by (metis (no_types, lifting) add.commute div_mult_self2 diff_mult_distrib2 mult_2 nat_mult_1_right power_Suc zero_neq_numeral)
  also have "\<dots> = unat (node b (k div 2))" using assms by (intro unat_node [symmetric]) simp_all
  finally show "(node (Suc b) k - 1) div 2 = node b (k div 2)" by (simp add: word_unat_eq_iff)
  have "unat ((node (Suc b) k - 1) XOR 1) = 2 ^ Suc b - 2 + sib k"
  proof -
    have "unat ((node (Suc b) k - 1) XOR 1) = (2 ^ Suc b - 2 + k) XOR 1"
      by (simp only: unsigned_xor_eq u1 unat_1)
    also have "\<dots> = (if even k then Suc (2 ^ Suc b - 2 + k) else 2 ^ Suc b - 2 + k - 1)"
      using two by (auto simp: xor_Suc_0_eq simp del: power_Suc)
    also have "\<dots> = 2 ^ Suc b - 2 + sib k"
      using two by (cases "even k") (auto simp: sib_def elim!: oddE simp del: power_Suc)
    finally show ?thesis .
  qed
  moreover have "sib k < 2 ^ Suc b" using assms(2) by (intro sib_less) simp_all
  ultimately have "unat (((node (Suc b) k - 1) XOR 1) + 1) = unat (node (Suc b) (sib k))"
    using p two assms(1) by (subst unat_node; simp add: unat_word_ariths del: power_Suc; linarith?)
  then show "((node (Suc b) k - 1) XOR 1) + 1 = node (Suc b) (sib k)" by (simp add: word_unat_eq_iff)
qed

lemma node_child: "node b k * 2 + 1 = node (Suc b) (2 * k)" "node b k + 1 = node b (Suc k)"
proof -
  have "2 * (2 ^ b - 1 + k) + 1 = 2 ^ Suc b - 1 + 2 * k" by (cases "(2 :: nat) ^ b") simp_all
  then have "of_nat (2 * (2 ^ b - 1 + k) + 1) = (of_nat (2 ^ Suc b - 1 + 2 * k) :: addr)" by (simp only:)
  then show "node b k * 2 + 1 = node (Suc b) (2 * k)"
    unfolding node_def by (simp only: of_nat_add of_nat_mult of_nat_numeral of_nat_1 mult.commute)
  have "2 ^ b - 1 + k + 1 = 2 ^ b - 1 + Suc k" by simp
  then have "of_nat (2 ^ b - 1 + k + 1) = (of_nat (2 ^ b - 1 + Suc k) :: addr)" by (simp only:)
  then show "node b k + 1 = node b (Suc k)" unfolding node_def by (simp only: of_nat_add of_nat_1)
qed

section \<open>The bits of the inner nodes\<close>

definition sbit :: "buddy \<Rightarrow> nat \<Rightarrow> nat \<Rightarrow> bool" where
  "sbit s b k \<longleftrightarrow> parent_is_split s (node (Suc b) (2 * k)) = Some True"

lemma parent_is_split_node:
  assumes "b < 27" "k < 2 ^ Suc b"
  shows "parent_is_split s (node (Suc b) k) = Some (sbit s b (k div 2))"
proof -
  have k: "k div 2 < 2 ^ b" "2 * (k div 2) < 2 ^ Suc b" using assms(2) by simp_all
  have "unat (node b (k div 2) div 8) < 2 ^ 24"
  proof -
    have "unat (node b (k div 2)) < 2 ^ 27"
      using unat_node [OF _ k(1)] pow27 [of "Suc b"] assms(1) k(1) by simp
    then show ?thesis by (simp add: unat_div)
  qed
  then have "split_byte (node b (k div 2)) \<noteq> None"
    by (simp add: split_byte_def word_less_nat_alt push_bit_eq_mult)
  then show ?thesis
    unfolding sbit_def parent_is_split_def node_arith(1) [OF assms] node_arith(1) [OF assms(1) k(2)] Let_def
    by auto
qed

lemma flip_node:
  assumes "b < 27" "k < 2 ^ Suc b"
  shows "\<exists>s'. flip_parent_is_split s (node (Suc b) k) = Some s' \<and> s'\<lparr>node_is_split := node_is_split s\<rparr> = s
    \<and> (\<forall>c < 27. \<forall>j < 2 ^ c. sbit s' c j \<longleftrightarrow> sbit s c j \<noteq> ((c, j) = (b, k div 2)))"
proof -
  have "flip_parent_is_split s (node (Suc b) k) \<noteq> None"
    using parent_is_split_node [OF assms, of s]
    by (auto simp: parent_is_split_def flip_parent_is_split_def Let_def split: Option.bind_splits)
  then obtain s' where s': "flip_parent_is_split s (node (Suc b) k) = Some s'" by blast
  note F = parent_after_flip [OF s']
  have "sbit s' c j \<longleftrightarrow> sbit s c j \<noteq> ((c, j) = (b, k div 2))" if c: "c < 27" "j < 2 ^ c" for c j
  proof (cases "(c, j) = (b, k div 2)")
    case True
    with F(1) parent_is_split_node [OF assms] show ?thesis by auto
  next
    case False
    have j: "2 * j < 2 ^ Suc c" and k: "k div 2 < 2 ^ b" using c(2) assms(2) by simp_all
    have "(node (Suc c) (2 * j) - 1) div 2 \<noteq> (node (Suc b) k - 1) div 2"
      using False node_arith(1) [OF c(1) j] node_arith(1) [OF assms] node_eq_iff [of c j b "k div 2"] c assms(1) k by auto
    with F(2) False show ?thesis by (simp add: sbit_def)
  qed
  with s' F(3) show ?thesis by blast
qed

section \<open>Cells\<close>

definition pv :: "buddy \<Rightarrow> addr \<Rightarrow> addr" where "pv s p = ld32 (bytes s) p"
definition nx :: "buddy \<Rightarrow> addr \<Rightarrow> addr" where "nx s p = ld32 (bytes s) (p + 4)"

definition cells :: "buddy \<Rightarrow> addr set \<Rightarrow> bool" where
  "cells s C \<longleftrightarrow> (\<forall>p \<in> C. cell_ok s p) \<and> (\<forall>p \<in> C. \<forall>q \<in> C. p \<noteq> q \<longrightarrow> cells_apart p q)"

text \<open>\<open>s'\<close> is \<open>s\<close> with other links in the cells \<open>C\<close>.\<close>

definition relinked :: "addr set \<Rightarrow> buddy \<Rightarrow> buddy \<Rightarrow> (addr \<Rightarrow> addr) \<Rightarrow> (addr \<Rightarrow> addr) \<Rightarrow> bool" where
  "relinked C s s' P N \<longleftrightarrow> s' = s\<lparr>bytes := bytes s'\<rparr> \<and> (\<forall>x \<in> C. pv s' x = P x \<and> nx s' x = N x)
     \<and> (\<forall>a. (\<forall>p \<in> C. \<not> unat (a - p) < 8) \<longrightarrow> bytes s' a = bytes s a)"

lemma relinked_refl: "relinked C s s (pv s) (nx s)"
  by (simp add: relinked_def)

lemma cell_okD:
  assumes "cells s C" "relinked C s s' P N" "e \<in> C"
  shows "word_ok s' e" "word_ok s' (e + 4)" "unat e + 8 \<le> 2 ^ 32"
proof -
  have "cell_ok s e" using assms by (simp add: cells_def)
  moreover have "word_ok s' = word_ok (s\<lparr>bytes := bytes s'\<rparr>)" using assms(2) unfolding relinked_def by metis
  ultimately show "word_ok s' e" "word_ok s' (e + 4)" "unat e + 8 \<le> 2 ^ 32"
    by (simp_all only: cell_ok_def word_ok_bytes)
qed

lemma not_in_cell: "\<not> unat (a - e :: addr) < 8 \<Longrightarrow> (\<forall>k < 4. a \<noteq> e + of_nat k) \<and> (\<forall>k < 4. a \<noteq> e + 4 + of_nat k)"
proof -
  assume a: "\<not> unat (a - e) < 8"
  have "a \<noteq> e + of_nat k" if "k < 8" for k
  proof -
    have "unat (of_nat k :: addr) < 8" using that by (simp add: unat_of_nat32)
    with a show ?thesis by auto
  qed
  from this this [of "4 + _"] show ?thesis by (auto simp: add.assoc)
qed

lemma relinked_get:
  assumes "cells s C" "relinked C s s' P N" "e \<in> C"
  shows "get_prev s' e = Some (P e)" "get_next s' e = Some (N e)"
  using cell_okD [OF assms] assms(2,3) by (auto simp: get_prev_def get_next_def LD_ok relinked_def pv_def nx_def)

lemma relinked_set_prev:
  assumes c: "cells s C" and r: "relinked C s s' P N" and e: "e \<in> C"
  shows "\<exists>s''. set_prev s' e v = Some s'' \<and> relinked C s s'' (P(e := v)) N"
proof -
  let ?s = "s'\<lparr>bytes := st32 (bytes s') e v\<rparr>"
  note K = cell_okD [OF c r]
  have "pv ?s x = (P(e := v)) x \<and> nx ?s x = N x" if x: "x \<in> C" for x
  proof (cases "x = e")
    case True
    then show ?thesis using r e cell_apart4(1) [OF K(3) [OF e]] by (simp add: relinked_def pv_def nx_def ld32_st32_apart)
  next
    case False
    then have "cells_apart e x" using c e x by (auto simp: cells_def)
    note A = cells_apart4 [OF this K(3) [OF e] K(3) [OF x]]
    show ?thesis using r x False A by (simp add: relinked_def pv_def nx_def ld32_st32_apart)
  qed
  moreover have "st32 (bytes s') e v a = bytes s a" if "\<forall>p \<in> C. \<not> unat (a - p) < 8" for a
    using not_in_cell [of a e] that e r by (simp add: st32_byte_apart relinked_def)
  moreover have "?s = s\<lparr>bytes := bytes ?s\<rparr>" using r unfolding relinked_def by (metis (no_types, lifting) mem.update_convs(4) mem.surjective mem.ext_inject buddy.surjective)
  ultimately have "relinked C s ?s (P(e := v)) N" by (simp add: relinked_def)
  with K(1) [OF e] show ?thesis by (simp add: set_prev_def ST_ok)
qed

lemma relinked_set_next:
  assumes c: "cells s C" and r: "relinked C s s' P N" and e: "e \<in> C"
  shows "\<exists>s''. set_next s' e v = Some s'' \<and> relinked C s s'' P (N(e := v))"
proof -
  let ?s = "s'\<lparr>bytes := st32 (bytes s') (e + 4) v\<rparr>"
  note K = cell_okD [OF c r]
  have "pv ?s x = P x \<and> nx ?s x = (N(e := v)) x" if x: "x \<in> C" for x
  proof (cases "x = e")
    case True
    then show ?thesis using r e cell_apart4(2) [OF K(3) [OF e]] by (simp add: relinked_def pv_def nx_def ld32_st32_apart)
  next
    case False
    then have "cells_apart e x" using c e x by (auto simp: cells_def)
    note A = cells_apart4 [OF this K(3) [OF e] K(3) [OF x]]
    show ?thesis using r x False A by (simp add: relinked_def pv_def nx_def ld32_st32_apart)
  qed
  moreover have "st32 (bytes s') (e + 4) v a = bytes s a" if "\<forall>p \<in> C. \<not> unat (a - p) < 8" for a
    using not_in_cell [of a e] that e r by (simp add: st32_byte_apart relinked_def)
  moreover have "?s = s\<lparr>bytes := bytes ?s\<rparr>" using r unfolding relinked_def by (metis (no_types, lifting) mem.update_convs(4) mem.surjective mem.ext_inject buddy.surjective)
  ultimately have "relinked C s ?s P (N(e := v))" by (simp add: relinked_def)
  with K(2) [OF e] show ?thesis by (simp add: set_next_def ST_ok)
qed

lemma list_init_ok:
  assumes c: "cells s C" and h: "h \<in> C"
  shows "\<exists>s'. list_init s h = Some s' \<and> relinked C s s' ((pv s)(h := h)) ((nx s)(h := h))"
proof -
  obtain s1 where "set_prev s h h = Some s1" and r: "relinked C s s1 ((pv s)(h := h)) (nx s)"
    using relinked_set_prev [OF c relinked_refl h] by blast
  with relinked_set_next [OF c r h, of h] show ?thesis by (auto simp: list_init_def)
qed

lemma list_push_ok:
  assumes c: "cells s C" and h: "h \<in> C" "e \<in> C" "pv s h \<in> C"
  shows "\<exists>s'. list_push s h e = Some s'
    \<and> relinked C s s' ((pv s)(e := pv s h, h := e)) ((nx s)(e := h, pv s h := e))"
proof -
  let ?p = "pv s h"
  obtain s1 where 1: "set_prev s e ?p = Some s1" "relinked C s s1 ((pv s)(e := ?p)) (nx s)"
    using relinked_set_prev [OF c relinked_refl h(2)] by blast
  obtain s2 where 2: "set_next s1 e h = Some s2" "relinked C s s2 ((pv s)(e := ?p)) ((nx s)(e := h))"
    using relinked_set_next [OF c 1(2) h(2)] by blast
  obtain s3 where 3: "set_next s2 ?p e = Some s3" "relinked C s s3 ((pv s)(e := ?p)) ((nx s)(e := h, ?p := e))"
    using relinked_set_next [OF c 2(2) h(3)] by blast
  obtain s4 where 4: "set_prev s3 h e = Some s4" "relinked C s s4 ((pv s)(e := ?p, h := e)) ((nx s)(e := h, ?p := e))"
    using relinked_set_prev [OF c 3(2) h(1)] by blast
  from relinked_get(1) [OF c relinked_refl h(1)] 1(1) 2(1) 3(1) 4 show ?thesis
    by (auto simp: list_push_def)
qed

lemma list_remove_buddy_ok:
  assumes c: "cells s C" and e: "e \<in> C" "pv s e \<in> C" "nx s e \<in> C"
  shows "\<exists>s'. list_remove_buddy s e = Some s'
    \<and> relinked C s s' ((pv s)(nx s e := pv s e)) ((nx s)(pv s e := nx s e))"
proof -
  obtain s1 where 1: "set_next s (pv s e) (nx s e) = Some s1" "relinked C s s1 (pv s) ((nx s)(pv s e := nx s e))"
    using relinked_set_next [OF c relinked_refl e(2)] by blast
  from relinked_set_prev [OF c this(2) e(3), of "pv s e"] relinked_get [OF c relinked_refl e(1)] 1(1)
  show ?thesis by (auto simp: list_remove_buddy_def)
qed

section \<open>Rings\<close>

text \<open>From \<open>a\<close> along \<open>prev\<close> through the cells \<open>xs\<close> to \<open>h\<close>, each \<open>next\<close> pointing back. A list runs from its head to its head.\<close>

primrec path :: "(addr \<Rightarrow> addr) \<Rightarrow> (addr \<Rightarrow> addr) \<Rightarrow> addr \<Rightarrow> addr list \<Rightarrow> addr \<Rightarrow> bool" where
  "path P N a [] h \<longleftrightarrow> P a = h \<and> N h = a"
| "path P N a (x # xs) h \<longleftrightarrow> P a = x \<and> N x = a \<and> path P N x xs h"

lemma path_cong:
  assumes "\<And>x. x \<in> set (a # xs) \<Longrightarrow> P' x = P x" "\<And>x. x \<in> insert h (set xs) \<Longrightarrow> N' x = N x"
  shows "path P' N' a xs h \<longleftrightarrow> path P N a xs h"
  using assms by (induction xs arbitrary: a) auto

lemma path_ends: "path P N a (us @ e # vs) h \<Longrightarrow> N e = last (a # us) \<and> P e = hd (vs @ [h])"
  by (induction us arbitrary: a) (cases vs; auto)+

lemma path_first: "path P N a xs h \<Longrightarrow> P a = hd (xs @ [h])"
  by (cases xs) auto

lemma ring_push:
  assumes r: "path P N h xs h" and d: "distinct (h # e # xs)"
  shows "path (P(e := P h, h := e)) (N(e := h, P h := e)) h (e # xs) h"
proof (cases xs)
  case Nil
  then show ?thesis using r d by auto
next
  case (Cons x ys)
  then have x: "P h = x" "N x = h" "path P N x ys h" using r by auto
  have "path (P(e := P h, h := e)) (N(e := h, P h := e)) x ys h"
    using x d Cons by (subst path_cong [of _ _ _ P _ _ N]) auto
  with x d Cons show ?thesis by auto
qed

lemma path_remove:
  assumes "path P N a (us @ e # vs) h" "distinct (us @ e # vs)" "a \<notin> set (us @ e # vs)" "h \<notin> set (us @ e # vs)"
  shows "path (P(N e := P e)) (N(P e := N e)) a (us @ vs) h"
  using assms
proof (induction us arbitrary: a)
  case Nil
  then have e: "P a = e" "N e = a" "path P N e vs h" by auto
  show ?case
  proof (cases vs)
    case (Cons v ws)
    then have v: "P e = v" "path P N v ws h" using e(3) by auto
    have "path (P(N e := P e)) (N(P e := N e)) v ws h"
      using e(2) v Cons Nil(2-4) by (subst path_cong [of _ _ _ P _ _ N]) auto
    moreover have "(P(N e := P e)) a = v" "(N(P e := N e)) v = a" using e v by simp_all
    ultimately show ?thesis unfolding Cons append_Nil path.simps by blast
  qed (use e in auto)
next
  case (Cons u us)
  then have u: "P a = u" "N u = a" "path P N u (us @ e # vs) h" by auto
  note E = path_ends [OF u(3)]
  have *: "path (P(N e := P e)) (N(P e := N e)) u (us @ vs) h"
    by (rule Cons.IH [OF u(3)]) (use Cons.prems in auto)
  have "N e \<noteq> a" using E Cons.prems(3) by (auto split: if_splits)
  moreover have "P e \<noteq> u" using E Cons.prems(2,4) by (cases vs) auto
  ultimately have "(P(N e := P e)) a = u" "(N(P e := N e)) u = a" using u(1,2) by simp_all
  with * show ?case unfolding append_Cons path.simps by blast
qed

end
