(* ===== verification/Buddy_Store.thy ===== *)
theory Buddy_Store
  imports Buddy_Lists Memlib_Facts
begin

text \<open>
  The free lists of \<open>src/malloc/buddy.c\<close> in memory: the cells of all lists are pairwise apart, and pushing, removing and popping
  act on the lists of positions; nothing else in memory changes.
\<close>

section \<open>Layout\<close>

definition head :: "buddy \<Rightarrow> nat \<Rightarrow> addr" where
  "head s b = bucket_head s (of_nat b)"

text \<open>
  The heap's storage starts at \<open>base_ptr\<close>, low enough for a tree of \<open>2 ^ 31\<close> bytes; the static array \<open>buckets\<close> of 28 list
  heads lies outside it.
\<close>

definition layout :: "buddy \<Rightarrow> bool" where
  "layout s \<longleftrightarrow> geom s \<and> base_ptr s = mem_start_brk s \<and> unat (mem_start_brk s) + 2 ^ 31 + 16 \<le> 2 ^ 32
     \<and> unat (buckets_addr s) + 224 \<le> 2 ^ 32
     \<and> (unat (buckets_addr s) + 224 \<le> unat (mem_start_brk s) \<or> unat (mem_start_brk s) + MAX_HEAP \<le> unat (buckets_addr s))"

lemma layoutD:
  assumes "layout s"
  shows "geom s" "base_ptr s = mem_start_brk s" "unat (mem_start_brk s) + 2 ^ 31 + 16 \<le> 2 ^ 32"
    "unat (buckets_addr s) + 224 \<le> 2 ^ 32"
    "unat (buckets_addr s) + 224 \<le> unat (mem_start_brk s) \<or> unat (mem_start_brk s) + MAX_HEAP \<le> unat (buckets_addr s)"
    "unat (mem_max_addr s) = unat (mem_start_brk s) + MAX_HEAP" "unat (mem_brk s) \<le> unat (mem_start_brk s) + MAX_HEAP"
  using assms geom_brk_le [of s] unat_max_addr [of s] by (auto simp: layout_def)

lemma off_bound:
  assumes "b \<le> 27" "k < 2 ^ b" shows "off b k + 2 ^ (31 - b) \<le> 2 ^ 31"
proof -
  have "(k + 1) * 2 ^ (31 - b) \<le> 2 ^ b * 2 ^ (31 - b)" using assms(2) by (intro mult_le_mono1) simp
  also have "\<dots> = 2 ^ 31" using assms(1) by (simp flip: power_add)
  finally show ?thesis by (simp only: off_mono)
qed

lemma unat_nptr: "layout s \<Longrightarrow> b \<le> 27 \<Longrightarrow> k < 2 ^ b \<Longrightarrow> unat (nptr s b k) = unat (mem_start_brk s) + off b k"
  using off_bound [of b k] layoutD(3) [of s] unfolding nptr_def layoutD(2) by (intro unat_add_of_nat32) simp

lemma unat_head: "layout s \<Longrightarrow> b \<le> 27 \<Longrightarrow> unat (head s b) = unat (buckets_addr s) + 8 * b"
proof -
  assume a: "layout s" "b \<le> 27"
  have "head s b = buckets_addr s + of_nat (8 * b)"
    by (simp add: head_def bucket_head_def SIZEOF_LIST_T_def mult.commute)
  moreover have "unat (buckets_addr s + of_nat (8 * b)) = unat (buckets_addr s) + 8 * b"
    using a layoutD(4) [OF a(1)] by (intro unat_add_of_nat32) simp
  ultimately show ?thesis by simp
qed

definition reach :: "buddy \<Rightarrow> nat \<Rightarrow> nat \<Rightarrow> bool" where
  "reach s b k \<longleftrightarrow> unat (mem_start_brk s) + off b k + 8 \<le> unat (mem_brk s)"

section \<open>The cells\<close>

datatype spot = Head nat | Node nat nat

fun paddr :: "buddy \<Rightarrow> spot \<Rightarrow> addr" where
  "paddr s (Head b) = head s b"
| "paddr s (Node b k) = nptr s b k"

fun valid :: "buddy \<Rightarrow> nat \<Rightarrow> (nat \<times> nat) set \<Rightarrow> spot \<Rightarrow> bool" where
  "valid s M U (Head b) \<longleftrightarrow> b \<le> 27"
| "valid s M U (Node b k) \<longleftrightarrow> k \<in> free_nodes M U b \<and> reach s b k"

abbreviation places :: "buddy \<Rightarrow> nat \<Rightarrow> (nat \<times> nat) set \<Rightarrow> addr set" where
  "places s M U \<equiv> paddr s ` Collect (valid s M U)"

lemma placesI: "valid s M U p \<Longrightarrow> paddr s p = a \<Longrightarrow> a \<in> places s M U"
  by blast

lemma free_bounds:
  assumes "k \<in> free_nodes M U b" shows "M \<le> b" "b \<le> 27" "k < 2 ^ b"
proof -
  have "k < 2 ^ (b - M)" using assms by (simp add: free_nodes_def)
  also have "\<dots> \<le> 2 ^ b" by (intro power_increasing) simp_all
  finally show "k < 2 ^ b" .
qed (use assms in \<open>simp_all add: free_nodes_def\<close>)

lemma size_16: "b \<le> 27 \<Longrightarrow> (16 :: nat) \<le> 2 ^ (31 - b)"
  using power_increasing [of 4 "31 - b" "2 :: nat"] by simp

lemma places_apart:
  assumes l: "layout s" and w: "wf_tree M U" and v: "valid s M U p" "valid s M U q" "p \<noteq> q"
  shows "cells_apart (paddr s p) (paddr s q)"
proof -
  note D = layoutD [OF l]
  have hn: "cells_apart (head s b) (nptr s c j)" if "b \<le> 27" "j \<in> free_nodes M U c" "reach s c j" for b c j
    using that(1,3) D(5,7) unat_head [OF l that(1)] unat_nptr [OF l free_bounds(2,3) [OF that(2)]]
    by (auto simp: cells_apart_def reach_def)
  have nn: "cells_apart (nptr s b k) (nptr s c j)"
    if "k \<in> free_nodes M U b" "j \<in> free_nodes M U c" "(b, k) \<noteq> (c, j)" for b k c j
  proof -
    note B = free_bounds [OF that(1)] and C = free_bounds [OF that(2)]
    show ?thesis
      using leaves_apart [OF w _ _ that(3)] that(1,2) size_16 [OF B(2)] size_16 [OF C(2)]
      by (simp add: cells_apart_def leaf_def unat_nptr [OF l B(2,3)] unat_nptr [OF l C(2,3)]) linarith
  qed
  have sym: "cells_apart x y \<Longrightarrow> cells_apart y x" for x y by (auto simp: cells_apart_def)
  show ?thesis
  proof (cases p)
    case p: (Head b)
    show ?thesis
    proof (cases q)
      case (Head c)
      with p v have "b \<le> 27" "c \<le> 27" "b \<noteq> c" by auto
      with unat_head [OF l, of b] unat_head [OF l, of c] p Head show ?thesis by (simp add: cells_apart_def) linarith
    qed (use p v hn in auto)
  next
    case p: (Node b k)
    show ?thesis
    proof (cases q)
      case (Head c)
      with p v hn sym show ?thesis by auto
    qed (use p v nn in auto)
  qed
qed

lemma cells_apart_neq: "cells_apart x y \<Longrightarrow> x \<noteq> y"
  by (auto simp: cells_apart_def)

lemma paddr_eq:
  "layout s \<Longrightarrow> wf_tree M U \<Longrightarrow> valid s M U p \<Longrightarrow> valid s M U q \<Longrightarrow> paddr s p = paddr s q \<longleftrightarrow> p = q"
  using places_apart cells_apart_neq by metis

lemma cells_places:
  assumes l: "layout s" and w: "wf_tree M U" shows "cells s (places s M U)"
proof -
  note D = layoutD [OF l]
  have "cell_ok s (paddr s p)" if v: "valid s M U p" for p
  proof (cases p)
    case (Head b)
    with v have b: "b \<le> 27" by simp
    have u: "unat (head s b) = unat (buckets_addr s) + 8 * b" by (rule unat_head [OF l b])
    have "unat (head s b + 4) = unat (head s b) + 4"
      using unat_add_of_nat32 [of "head s b" 4] u b D(4) by simp
    with u b D(4) have "in_buckets s (head s b)" "in_buckets s (head s b + 4)"
      by (simp_all add: in_buckets_def word_le_nat_alt BUCKET_COUNT_def MAX_ALLOC_LOG2_def MIN_ALLOC_LOG2_def SIZEOF_LIST_T_def)
    with u b D(4) Head show ?thesis by (simp add: cell_ok_def word_ok_def)
  next
    case (Node b k)
    with v have f: "k \<in> free_nodes M U b" "reach s b k" by auto
    have u: "unat (nptr s b k) = unat (mem_start_brk s) + off b k" by (rule unat_nptr [OF l free_bounds(2,3) [OF f(1)]])
    have top: "unat (nptr s b k) + 8 \<le> unat (mem_max_addr s)" using f(2) u D(6,7) by (simp add: reach_def)
    then have "unat (nptr s b k + 4) = unat (nptr s b k) + 4"
      using unat_add_of_nat32 [of "nptr s b k" 4] unat_lt32 [of "mem_max_addr s"] by simp
    with u top unat_lt32 [of "mem_max_addr s"] Node show ?thesis
      by (simp add: cell_ok_def word_ok_def in_storage_def word_le_nat_alt)
  qed
  then show ?thesis using places_apart [OF l w] unfolding cells_def by (auto simp: paddr_eq [OF l w])
qed

section \<open>The lists\<close>

text \<open>
  Each bucket from \<open>R\<close> on has a ring through the cells of the positions \<open>fl b\<close>, which are free nodes of a tree with root bucket
  \<open>M\<close> and used nodes \<open>U\<close>.
\<close>

definition lists :: "buddy \<Rightarrow> nat \<Rightarrow> nat \<Rightarrow> (nat \<times> nat) set \<Rightarrow> (nat \<Rightarrow> nat list) \<Rightarrow> bool" where
  "lists s R M U fl \<longleftrightarrow> (\<forall>b. R \<le> b \<and> b \<le> 27 \<longrightarrow> distinct (fl b) \<and> (\<forall>k \<in> set (fl b). k \<in> free_nodes M U b \<and> reach s b k)
     \<and> path (pv s) (nx s) (head s b) (map (nptr s b) (fl b)) (head s b))"

lemma listsD:
  assumes "lists s R M U fl" "R \<le> b" "b \<le> 27"
  shows "distinct (fl b)" "k \<in> set (fl b) \<Longrightarrow> k \<in> free_nodes M U b" "k \<in> set (fl b) \<Longrightarrow> reach s b k"
    "path (pv s) (nx s) (head s b) (map (nptr s b) (fl b)) (head s b)"
  using assms by (auto simp: lists_def)

text \<open>Only links of the cells differ.\<close>

definition links_only :: "nat \<Rightarrow> (nat \<times> nat) set \<Rightarrow> buddy \<Rightarrow> buddy \<Rightarrow> bool" where
  "links_only M U s s' \<longleftrightarrow> s' = s\<lparr>bytes := bytes s'\<rparr>
     \<and> (\<forall>a. (\<forall>p. valid s M U p \<longrightarrow> \<not> unat (a - paddr s p) < 8) \<longrightarrow> bytes s' a = bytes s a)"

lemma links_only_same:
  assumes "links_only M U s s'"
  shows "head s' = head s" "nptr s' = nptr s" "reach s' = reach s" "layout s' = layout s" "paddr s' = paddr s"
    "bucket_limit s' = bucket_limit s" "node_is_split s' = node_is_split s" "base_ptr s' = base_ptr s"
    "mem_start_brk s' = mem_start_brk s" "mem_max_addr s' = mem_max_addr s" "mem_brk s' = mem_brk s"
    "buckets_addr s' = buckets_addr s" "sbit s' = sbit s"
proof -
  obtain m where s': "s' = s\<lparr>bytes := m\<rparr>" using assms by (auto simp: links_only_def)
  show hd: "head s' = head s" by (rule ext) (simp add: s' head_def bucket_head_def)
  show np: "nptr s' = nptr s" by (intro ext) (simp add: s' nptr_def)
  show "reach s' = reach s" by (intro ext) (simp add: s' reach_def)
  show "layout s' = layout s" by (simp add: s' layout_def geom_def)
  have "paddr s' p = paddr s p" for p by (cases p) (simp_all add: hd np)
  then show "paddr s' = paddr s" by (rule ext)
  show "sbit s' = sbit s" by (intro ext) (simp add: s' sbit_def parent_is_split_def)
  show "bucket_limit s' = bucket_limit s" "node_is_split s' = node_is_split s" "base_ptr s' = base_ptr s"
    "mem_start_brk s' = mem_start_brk s" "mem_max_addr s' = mem_max_addr s" "mem_brk s' = mem_brk s"
    "buckets_addr s' = buckets_addr s" by (simp_all add: s')
qed

text \<open>One ring is relinked, the others are not touched.\<close>

lemma lists_relinked:
  assumes l: "layout s" and w: "wf_tree M U" and L: "lists s R M U fl" and c: "R \<le> c" "c \<le> 27"
    and r: "relinked (places s M U) s s' P N"
    and xs: "distinct xs" "\<forall>k \<in> set xs. k \<in> free_nodes M U c \<and> reach s c k"
    and ring: "path P N (head s c) (map (nptr s c) xs) (head s c)"
    and other: "\<And>p. valid s M U p \<Longrightarrow> p \<noteq> Head c \<Longrightarrow> (\<forall>k. p = Node c k \<longrightarrow> k \<notin> set (fl c) \<and> k \<notin> set xs)
      \<Longrightarrow> P (paddr s p) = pv s (paddr s p) \<and> N (paddr s p) = nx s (paddr s p)"
  shows "lists s' R M U (fl(c := xs)) \<and> links_only M U s s'"
proof
  have PN: "pv s' (paddr s p) = P (paddr s p) \<and> nx s' (paddr s p) = N (paddr s p)" if "valid s M U p" for p
    using r that by (auto simp: relinked_def)
  show lo: "links_only M U s s'"
    using r unfolding relinked_def links_only_def by blast
  note S = links_only_same [OF lo]
  show "lists s' R M U (fl(c := xs))"
    unfolding lists_def S
  proof (intro allI impI, elim conjE)
    fix b
    assume b: "R \<le> b" "b \<le> 27"
    show "distinct ((fl(c := xs)) b) \<and> (\<forall>k \<in> set ((fl(c := xs)) b). k \<in> free_nodes M U b \<and> reach s b k)
      \<and> path (pv s') (nx s') (head s b) (map (nptr s b) ((fl(c := xs)) b)) (head s b)"
    proof (cases "b = c")
      case True
      have "path (pv s') (nx s') (head s c) (map (nptr s c) xs) (head s c)"
        using ring PN [of "Head c"] PN [of "Node c _"] xs(2) c
        by (subst path_cong [of _ _ _ P _ _ N]) auto
      with True xs show ?thesis by simp
    next
      case False
      note B = listsD [OF L b]
      have "pv s' (paddr s p) = pv s (paddr s p) \<and> nx s' (paddr s p) = nx s (paddr s p)"
        if "p = Head b \<or> (\<exists>k \<in> set (fl b). p = Node b k)" for p
      proof -
        have "valid s M U p" using that b B by auto
        with PN other [of p] False that show ?thesis by auto
      qed
      from this [of "Head b"] this [of "Node b _"]
      have "path (pv s') (nx s') (head s b) (map (nptr s b) (fl b)) (head s b)"
        using B(4) by (subst path_cong [of _ _ _ "pv s" _ _ "nx s"]) auto
      with False B show ?thesis by auto
    qed
  qed
qed

lemma lists_push:
  assumes l: "layout s" and w: "wf_tree M U" and L: "lists s R M U fl" and c: "R \<le> c" "c \<le> 27"
    and x: "x \<in> free_nodes M U c" "x \<notin> set (fl c)" "reach s c x"
  shows "\<exists>s'. list_push s (head s c) (nptr s c x) = Some s' \<and> lists s' R M U (fl(c := x # fl c)) \<and> links_only M U s s'"
proof -
  note D = listsD [OF L c] and E = paddr_eq [OF l w]
  let ?h = "head s c" and ?e = "nptr s c x"
  have vh: "valid s M U (Head c)" and vx: "valid s M U (Node c x)" using c x by auto
  have vn: "valid s M U (Node c k)" if "k \<in> set (fl c)" for k using that D by auto
  have p: "pv s ?h = hd (map (nptr s c) (fl c) @ [?h])" using path_first [OF D(4)] .
  obtain q where q: "pv s ?h = paddr s q" "valid s M U q" "q = Head c \<or> (\<exists>k \<in> set (fl c). q = Node c k)"
  proof (cases "fl c")
    case Nil
    with p vh that [of "Head c"] show thesis by simp
  next
    case (Cons k ks)
    with p vn [of k] that [of "Node c k"] show thesis by simp
  qed
  have in_places: "?h \<in> places s M U" "?e \<in> places s M U" "pv s ?h \<in> places s M U"
    using placesI [OF vh] placesI [OF vx] placesI [OF q(2)] q(1) by simp_all
  let ?P = "(pv s)(?e := pv s ?h, ?h := ?e)" and ?N = "(nx s)(?e := ?h, pv s ?h := ?e)"
  obtain s' where s': "list_push s ?h ?e = Some s'" "relinked (places s M U) s s' ?P ?N"
    using list_push_ok [OF cells_places [OF l w] in_places] by blast
  have inj: "inj_on (nptr s c) (set (x # fl c))"
    using E [of "Node c _" "Node c _"] vn vx by (intro inj_onI) auto
  have "?h \<noteq> ?e" "?h \<notin> set (map (nptr s c) (fl c))"
    using E [OF vh vx] E [OF vh vn] by auto
  then have "distinct (?h # ?e # map (nptr s c) (fl c))"
    using D(1) x(2) inj by (auto simp: distinct_map)
  then have ring: "path ?P ?N ?h (map (nptr s c) (x # fl c)) ?h"
    using ring_push [OF D(4)] by simp
  have "lists s' R M U (fl(c := x # fl c)) \<and> links_only M U s s'"
  proof (rule lists_relinked [OF l w L c s'(2) _ _ ring])
    show "?P (paddr s p) = pv s (paddr s p) \<and> ?N (paddr s p) = nx s (paddr s p)"
      if "valid s M U p" "p \<noteq> Head c" "\<forall>k. p = Node c k \<longrightarrow> k \<notin> set (fl c) \<and> k \<notin> set (x # fl c)" for p
    proof -
      have "p \<noteq> Node c x" "p \<noteq> q" using that q(3) by auto
      with E [OF that(1) vh] E [OF that(1) vx] E [OF that(1) q(2)] that(2) q(1) show ?thesis by simp
    qed
  qed (use D x in auto)
  with s'(1) show ?thesis by blast
qed

lemma lists_remove:
  assumes l: "layout s" and w: "wf_tree M U" and L: "lists s R M U fl" and c: "R \<le> c" "c \<le> 27"
    and x: "fl c = us @ x # vs"
  shows "\<exists>s'. list_remove_buddy s (nptr s c x) = Some s' \<and> lists s' R M U (fl(c := us @ vs)) \<and> links_only M U s s'"
proof -
  note D = listsD [OF L c] and E = paddr_eq [OF l w]
  let ?h = "head s c" and ?e = "nptr s c x"
  have vh: "valid s M U (Head c)" using c by auto
  have vn: "valid s M U (Node c k)" if "k \<in> set (fl c)" for k using that D by auto
  have pth: "path (pv s) (nx s) ?h (map (nptr s c) us @ ?e # map (nptr s c) vs) ?h" using D(4) x by simp
  note ends = path_ends [OF pth]
  obtain q where q: "pv s ?e = paddr s q" "valid s M U q" "q = Head c \<or> (\<exists>k \<in> set (fl c). q = Node c k)"
  proof (cases vs)
    case Nil
    with ends vh that [of "Head c"] show thesis by simp
  next
    case (Cons k ks)
    with ends vn [of k] that [of "Node c k"] x show thesis by simp
  qed
  obtain r where r: "nx s ?e = paddr s r" "valid s M U r" "r = Head c \<or> (\<exists>k \<in> set (fl c). r = Node c k)"
  proof (cases us rule: rev_cases)
    case Nil
    with ends vh that [of "Head c"] show thesis by simp
  next
    case (snoc ks k)
    with ends vn [of k] that [of "Node c k"] x show thesis by simp
  qed
  have vx: "valid s M U (Node c x)" using vn x by simp
  have in_places: "?e \<in> places s M U" "pv s ?e \<in> places s M U" "nx s ?e \<in> places s M U"
    using placesI [OF vx] placesI [OF q(2)] placesI [OF r(2)] q(1) r(1) by simp_all
  let ?P = "(pv s)(nx s ?e := pv s ?e)" and ?N = "(nx s)(pv s ?e := nx s ?e)"
  obtain s' where s': "list_remove_buddy s ?e = Some s'" "relinked (places s M U) s s' ?P ?N"
    using list_remove_buddy_ok [OF cells_places [OF l w] in_places] by blast
  have inj: "inj_on (nptr s c) (set (fl c))"
    using E [of "Node c _" "Node c _"] vn by (intro inj_onI) auto
  have nh: "?h \<notin> set (map (nptr s c) us @ ?e # map (nptr s c) vs)"
    using E [OF vh vn] x by auto
  have "distinct (map (nptr s c) (fl c))" using D(1) inj by (simp add: distinct_map)
  then have ring: "path ?P ?N ?h (map (nptr s c) (us @ vs)) ?h"
    using path_remove [OF pth _ nh nh] x by simp
  have "lists s' R M U (fl(c := us @ vs)) \<and> links_only M U s s'"
  proof (rule lists_relinked [OF l w L c s'(2) _ _ ring])
    show "?P (paddr s p) = pv s (paddr s p) \<and> ?N (paddr s p) = nx s (paddr s p)"
      if "valid s M U p" "p \<noteq> Head c" "\<forall>k. p = Node c k \<longrightarrow> k \<notin> set (fl c) \<and> k \<notin> set (us @ vs)" for p
    proof -
      have "p \<noteq> r" "p \<noteq> q" using that q(3) r(3) by auto
      with E [OF that(1) r(2)] E [OF that(1) q(2)] q(1) r(1) show ?thesis by simp
    qed
  qed (use D x in auto)
  with s'(1) show ?thesis by blast
qed

text \<open>The head's \<open>prev\<close> names the entry pushed last.\<close>

lemma lists_prev:
  assumes l: "layout s" and w: "wf_tree M U" and L: "lists s R M U fl" and c: "R \<le> c" "c \<le> 27"
  shows "get_prev s (head s c) = Some (hd (map (nptr s c) (fl c) @ [head s c]))"
proof -
  note D = listsD [OF L c]
  have vh: "valid s M U (Head c)" using c by auto
  have "get_prev s (head s c) = Some (pv s (head s c))"
    by (rule relinked_get(1) [OF cells_places [OF l w] relinked_refl placesI [OF vh]]) simp
  then show ?thesis by (simp only: path_first [OF D(4)])
qed

lemma lists_pop:
  assumes l: "layout s" and w: "wf_tree M U" and L: "lists s R M U fl" and c: "R \<le> c" "c \<le> 27"
  shows "case fl c of [] \<Rightarrow> list_pop s (head s c) = Some (NULL, s)
    | x # xs \<Rightarrow> \<exists>s'. list_pop s (head s c) = Some (nptr s c x, s') \<and> nptr s c x \<noteq> NULL
        \<and> lists s' R M U (fl(c := xs)) \<and> links_only M U s s'"
proof -
  note D = listsD [OF L c]
  have vh: "valid s M U (Head c)" using c by auto
  note g = lists_prev [OF l w L c]
  show ?thesis
  proof (cases "fl c")
    case Nil
    with g show ?thesis by (simp add: list_pop_def)
  next
    case (Cons x xs)
    have vx: "valid s M U (Node c x)" using D Cons by auto
    then have ne: "nptr s c x \<noteq> head s c" using paddr_eq [OF l w vx vh] by simp
    have "unat (nptr s c x) = unat (mem_start_brk s) + off c x"
      using vx by (intro unat_nptr [OF l] free_bounds) auto
    moreover have "0 < unat (mem_start_brk s)"
      using layoutD(1) [OF l] by (simp add: geom_def word_neq_0_conv word_less_nat_alt)
    ultimately have "0 < unat (nptr s c x)" by simp
    then have nz: "nptr s c x \<noteq> NULL" by auto
    obtain s' where "list_remove_buddy s (nptr s c x) = Some s'" "lists s' R M U (fl(c := xs))" "links_only M U s s'"
      using lists_remove [OF l w L c, of "[]" x xs] Cons by auto
    with g Cons ne nz show ?thesis by (simp add: list_pop_def)
  qed
qed

text \<open>The head of the next larger bucket.\<close>

lemma lists_init:
  assumes l: "layout s" and w: "wf_tree M U" and L: "lists s (Suc R) M U fl" and R: "R \<le> 27"
  shows "\<exists>s'. list_init s (head s R) = Some s' \<and> lists s' R M U (fl(R := [])) \<and> links_only M U s s'"
proof -
  note E = paddr_eq [OF l w]
  have vh: "valid s M U (Head R)" using R by auto
  then have hp: "head s R \<in> places s M U" by (rule placesI) simp
  let ?P = "(pv s)(head s R := head s R)" and ?N = "(nx s)(head s R := head s R)"
  obtain s' where s': "list_init s (head s R) = Some s'" "relinked (places s M U) s s' ?P ?N"
    using list_init_ok [OF cells_places [OF l w] hp] by blast
  have lo: "links_only M U s s'"
    using s'(2) unfolding relinked_def links_only_def by blast
  note S = links_only_same [OF lo]
  have PN: "pv s' (paddr s p) = ?P (paddr s p) \<and> nx s' (paddr s p) = ?N (paddr s p)" if "valid s M U p" for p
    using s'(2) that by (auto simp: relinked_def)
  have "lists s' R M U (fl(R := []))"
    unfolding lists_def S
  proof (intro allI impI, elim conjE)
    fix b
    assume b: "R \<le> b" "b \<le> 27"
    show "distinct ((fl(R := [])) b) \<and> (\<forall>k \<in> set ((fl(R := [])) b). k \<in> free_nodes M U b \<and> reach s b k)
      \<and> path (pv s') (nx s') (head s b) (map (nptr s b) ((fl(R := [])) b)) (head s b)"
    proof (cases "b = R")
      case True
      then show ?thesis using PN [OF vh] by simp
    next
      case False
      then have b': "Suc R \<le> b" using b by simp
      note B = listsD [OF L b' b(2)]
      have "pv s' (paddr s p) = pv s (paddr s p) \<and> nx s' (paddr s p) = nx s (paddr s p)"
        if "p = Head b \<or> (\<exists>k \<in> set (fl b). p = Node b k)" for p
      proof -
        have v: "valid s M U p" and "p \<noteq> Head R" using that b B False by auto
        with PN [OF v] E [OF v vh] show ?thesis by simp
      qed
      from this [of "Head b"] this [of "Node b _"]
      have "path (pv s') (nx s') (head s b) (map (nptr s b) (fl b)) (head s b)"
        using B(4) by (subst path_cong [of _ _ _ "pv s" _ _ "nx s"]) auto
      with False B show ?thesis by auto
    qed
  qed
  with s'(1) lo show ?thesis by blast
qed

text \<open>The tree may change as long as the listed nodes stay free, the break may go up.\<close>

lemma lists_mono:
  assumes L: "lists s R M U fl" and sub: "\<And>b k. R \<le> b \<Longrightarrow> b \<le> 27 \<Longrightarrow> k \<in> set (fl b) \<Longrightarrow> k \<in> free_nodes M' U' b"
    and s': "bytes s' = bytes s" "base_ptr s' = base_ptr s" "buckets_addr s' = buckets_addr s"
      "mem_start_brk s' = mem_start_brk s" "mem_brk s \<le> mem_brk s'" and R: "R \<le> R'"
  shows "lists s' R' M' U' fl"
proof -
  have "head s' = head s" "nptr s' = nptr s" "pv s' = pv s" "nx s' = nx s"
    by (intro ext; simp add: s' head_def bucket_head_def nptr_def pv_def nx_def)+
  moreover have "reach s b k \<Longrightarrow> reach s' b k" for b k
    using s'(4,5) by (simp add: reach_def word_le_nat_alt)
  ultimately show ?thesis using L sub R unfolding lists_def by (metis order_trans)
qed

end
