(* ===== verification/Buddy_Core.thy ===== *)
theory Buddy_Core
  imports Buddy_Store
begin

text \<open>
  The invariant of \<open>src/malloc/buddy.c\<close>: the split bits and the free lists in memory are those of a tree with the used nodes
  \<open>U\<close>. What changes in memory stays clear of the blocks in use; \<open>update_max_ptr\<close> and writes into such blocks keep the invariant.
\<close>

section \<open>The invariant\<close>

lemma geom_max_ptr [simp]: "geom (s\<lparr>max_ptr := p\<rparr>) = geom s"
  by (simp add: geom_def)

lemma layout_upd [simp]:
  "layout (s\<lparr>bytes := m\<rparr>) = layout s" "layout (s\<lparr>max_ptr := p\<rparr>) = layout s"
  "layout (s\<lparr>bucket_limit := x\<rparr>) = layout s" "layout (s\<lparr>node_is_split := f\<rparr>) = layout s"
  by (simp_all add: layout_def geom_def)

definition core :: "buddy \<Rightarrow> nat \<Rightarrow> (nat \<times> nat) set \<Rightarrow> (nat \<Rightarrow> nat list) \<Rightarrow> bool" where
  "core s L U fl \<longleftrightarrow> layout s \<and> bucket_limit s = of_nat L \<and> L \<le> 27 \<and> wf_tree L U
     \<and> (\<forall>c < 27. \<forall>j < 2 ^ c. sbit s c j = split_bit L U c j)
     \<and> lists s L L U fl \<and> (\<forall>b. L \<le> b \<and> b \<le> 27 \<longrightarrow> set (fl b) = free_nodes L U b)"

lemma coreD:
  assumes "core s L U fl"
  shows "layout s" "bucket_limit s = of_nat L" "L \<le> 27" "wf_tree L U"
    "c < 27 \<Longrightarrow> j < 2 ^ c \<Longrightarrow> sbit s c j = split_bit L U c j"
    "lists s L L U fl" "L \<le> b \<Longrightarrow> b \<le> 27 \<Longrightarrow> set (fl b) = free_nodes L U b"
  using assms by (auto simp: core_def)

text \<open>A block that lies below the break.\<close>

definition full :: "buddy \<Rightarrow> nat \<Rightarrow> nat \<Rightarrow> bool" where
  "full s b k \<longleftrightarrow> unat (mem_start_brk s) + off b k + 2 ^ (31 - b) \<le> unat (mem_brk s)"

text \<open>What an operation keeps: the static data and the bytes of the blocks in use.\<close>

definition kept :: "(nat \<times> nat) set \<Rightarrow> buddy \<Rightarrow> buddy \<Rightarrow> bool" where
  "kept U s s' \<longleftrightarrow> same_storage s s' \<and> base_ptr s' = base_ptr s \<and> buckets_addr s' = buckets_addr s
     \<and> mem_brk s \<le> mem_brk s'
     \<and> (\<forall>b k i. (b, k) \<in> U \<and> full s b k \<and> i < 2 ^ (31 - b) \<longrightarrow> bytes s' (nptr s b k + of_nat i) = bytes s (nptr s b k + of_nat i))"

lemma keptD:
  assumes "kept U s s'"
  shows "nptr s' = nptr s" "full s b k \<Longrightarrow> full s' b k" "reach s b k \<Longrightarrow> reach s' b k" "same_storage s s'"
    "(b, k) \<in> U \<Longrightarrow> full s b k \<Longrightarrow> i < 2 ^ (31 - b) \<Longrightarrow> bytes s' (nptr s b k + of_nat i) = bytes s (nptr s b k + of_nat i)"
proof -
  show "nptr s' = nptr s" using assms by (intro ext) (simp add: kept_def nptr_def)
  show "full s b k \<Longrightarrow> full s' b k" "reach s b k \<Longrightarrow> reach s' b k"
    using assms by (auto simp: kept_def full_def reach_def same_storage_def word_le_nat_alt)
qed (use assms in \<open>auto simp: kept_def\<close>)

lemma kept_refl [simp]: "kept U s s"
  by (simp add: kept_def)

lemma kept_trans:
  assumes a: "kept U s s'" and b: "kept U s' s''" shows "kept U s s''"
proof -
  have "bytes s'' (nptr s b k + of_nat i) = bytes s (nptr s b k + of_nat i)"
    if "(b, k) \<in> U" "full s b k" "i < 2 ^ (31 - b)" for b k i
    using keptD(5) [OF b that(1) keptD(2) [OF a that(2)] that(3)] keptD(5) [OF a that] keptD(1) [OF a] by simp
  moreover have "mem_brk s \<le> mem_brk s''" using a b unfolding kept_def by (blast intro: order_trans)
  moreover have "same_storage s s''" using a b unfolding kept_def by (blast intro: same_storage_trans)
  ultimately show ?thesis using a b by (simp add: kept_def)
qed

lemma kept_mono: "kept U s s' \<Longrightarrow> V \<subseteq> U \<Longrightarrow> kept V s s'"
  by (auto simp: kept_def)

lemma kept_same_bytes:
  "bytes s' = bytes s \<Longrightarrow> same_storage s s' \<Longrightarrow> base_ptr s' = base_ptr s \<Longrightarrow> buckets_addr s' = buckets_addr s
    \<Longrightarrow> mem_brk s \<le> mem_brk s' \<Longrightarrow> kept U s s'"
  by (simp add: kept_def)

lemma outside_cell:
  assumes "unat p + 8 \<le> unat a \<or> unat a < unat p" "unat p + 8 \<le> 2 ^ 32"
  shows "\<not> unat (a - p :: addr) < 8"
proof (cases "unat p \<le> unat a")
  case True
  then have "unat (a - p) = unat a - unat p" by (simp add: unat_sub word_le_nat_alt)
  with True assms show ?thesis by linarith
next
  case False
  then have "unat (a - p) = unat a + 2 ^ 32 - unat p" by (simp add: unat_sub_if' not_le word_le_nat_alt)
  with assms show ?thesis by linarith
qed

text \<open>The bytes of a block in use are in no cell.\<close>

lemma block_outside_cells:
  assumes l: "layout s" and w: "wf_tree M U" and u: "(b, k) \<in> U" "full s b k" and i: "i < 2 ^ (31 - b)"
    and p: "valid s M U p"
  shows "\<not> unat (nptr s b k + of_nat i - paddr s p) < 8"
proof -
  note D = layoutD [OF l] and W = wf_treeD [OF w u(1)]
  have kb: "k < 2 ^ b" using W(3) by (rule less_le_trans) (intro power_increasing, simp_all)
  have un: "unat (nptr s b k) = unat (mem_start_brk s) + off b k" by (rule unat_nptr [OF l W(2) kb])
  have ua: "unat (nptr s b k + of_nat i) = unat (mem_start_brk s) + off b k + i"
    using unat_add_of_nat32 [of "nptr s b k" i] un i off_bound [OF W(2) kb] D(3) by simp
  show ?thesis
  proof (cases p)
    case (Head c)
    with p have c: "c \<le> 27" by simp
    have "unat (head s c) + 8 \<le> unat (mem_start_brk s) \<or> unat (mem_brk s) \<le> unat (head s c)"
      using unat_head [OF l c] c D(5,7) by auto
    with u(2) i have "unat (head s c) + 8 \<le> unat (nptr s b k + of_nat i) \<or> unat (nptr s b k + of_nat i) < unat (head s c)"
      unfolding ua full_def by linarith
    moreover have "unat (head s c) + 8 \<le> 2 ^ 32" using unat_head [OF l c] c D(4) by simp
    ultimately show ?thesis using Head outside_cell by simp
  next
    case (Node c j)
    with p have f: "j \<in> free_nodes M U c" by simp
    note F = free_bounds [OF f]
    have ne: "(b, k) \<noteq> (c, j)" using f busy_used [OF u(1)] by (auto simp: free_nodes_def)
    have A: "off b k + 2 ^ (31 - b) \<le> off c j \<or> off c j + 2 ^ (31 - c) \<le> off b k"
      by (rule leaves_apart [OF w _ _ ne]) (use u f in \<open>simp_all add: leaf_def\<close>)
    note N = unat_nptr [OF l F(2,3)]
    have "unat (nptr s c j) + 8 \<le> unat (nptr s b k + of_nat i) \<or> unat (nptr s b k + of_nat i) < unat (nptr s c j)"
      unfolding ua N using A i size_16 [OF F(2)] by linarith
    moreover have "unat (nptr s c j) + 8 \<le> 2 ^ 32" unfolding N using off_bound [OF F(2,3)] D(3) by linarith
    ultimately show ?thesis using Node outside_cell by simp
  qed
qed

lemma links_only_kept:
  assumes "layout s" "wf_tree M U" "links_only M U s s'"
  shows "kept U s s'"
proof -
  note S = links_only_same [OF assms(3)]
  have "bytes s' (nptr s b k + of_nat i) = bytes s (nptr s b k + of_nat i)"
    if "(b, k) \<in> U" "full s b k" "i < 2 ^ (31 - b)" for b k i
    using assms(3) block_outside_cells [OF assms(1,2) that] unfolding links_only_def by blast
  then show ?thesis using S by (simp add: kept_def same_storage_def)
qed

text \<open>Writes to a block in use keep the invariant.\<close>

lemma core_write:
  assumes c: "core s L U fl" and u: "(b, k) \<in> U" "full s b k"
    and m: "\<And>a. \<not> unat (a - nptr s b k) < 2 ^ (31 - b) \<Longrightarrow> m a = bytes s a"
  shows "core (s\<lparr>bytes := m\<rparr>) L U fl"
proof -
  let ?s = "s\<lparr>bytes := m\<rparr>"
  note D = coreD [OF c]
  have b31: "(2 :: nat) ^ (31 - b) \<le> 2 ^ 31" by (intro power_increasing) simp_all
  have same: "m (paddr s p + of_nat i) = bytes s (paddr s p + of_nat i)" if p: "valid s L U p" and i: "i < 8" for p i
  proof (rule m, rule)
    define e where "e = unat (paddr s p + of_nat i - nptr s b k)"
    assume "unat (paddr s p + of_nat i - nptr s b k) < 2 ^ (31 - b)"
    then have "e < 2 ^ (31 - b)" by (simp add: e_def)
    from block_outside_cells [OF D(1,4) u this p]
    have "\<not> unat (nptr s b k + of_nat e - paddr s p) < 8" .
    moreover have "nptr s b k + of_nat e - paddr s p = of_nat i" by (simp add: e_def)
    ultimately show False using i by (simp add: unat_of_nat32)
  qed
  have sames: "head ?s = head s" "nptr ?s = nptr s" "reach ?s = reach s"
    by (intro ext; simp add: head_def bucket_head_def nptr_def reach_def)+
  have cellp: "pv ?s (paddr s p) = pv s (paddr s p) \<and> nx ?s (paddr s p) = nx s (paddr s p)" if p: "valid s L U p" for p
  proof -
    have "ld32 m (paddr s p) = ld32 (bytes s) (paddr s p)" by (rule ld32_cong) (use same [OF p] in simp)
    moreover have "ld32 m (paddr s p + 4) = ld32 (bytes s) (paddr s p + 4)"
    proof (rule ld32_cong)
      fix k :: nat
      assume "k < 4"
      then show "m (paddr s p + 4 + of_nat k) = bytes s (paddr s p + 4 + of_nat k)"
        using same [OF p, of "4 + k"] by (simp add: add.assoc)
    qed
    ultimately show ?thesis by (simp add: pv_def nx_def)
  qed
  have "lists ?s L L U fl"
    unfolding lists_def sames
  proof (intro allI impI, elim conjE)
    fix c
    assume c: "L \<le> c" "c \<le> 27"
    note B = listsD [OF D(6) c]
    have v: "valid s L U (Head c)" "j \<in> set (fl c) \<Longrightarrow> valid s L U (Node c j)" for j using c B by auto
    have "path (pv ?s) (nx ?s) (head s c) (map (nptr s c) (fl c)) (head s c)"
      using B(4) cellp [OF v(1)] cellp [OF v(2)] by (subst path_cong [of _ _ _ "pv s" _ _ "nx s"]) auto
    with B show "distinct (fl c) \<and> (\<forall>k \<in> set (fl c). k \<in> free_nodes L U c \<and> reach s c k)
        \<and> path (pv ?s) (nx ?s) (head s c) (map (nptr s c) (fl c)) (head s c)" by blast
  qed
  moreover have "sbit ?s = sbit s" by (intro ext) (simp add: sbit_def parent_is_split_def)
  moreover have "layout ?s" using D(1) by simp
  ultimately show ?thesis using c by (simp add: core_def)
qed

section \<open>The break\<close>

lemma update_max_ptr_ok:
  assumes l: "layout s" and n: "unat nv + 1 < 2 ^ 32"
  shows "\<exists>ok s'. update_max_ptr s nv = (ok, s') \<and> layout s' \<and> bytes s' = bytes s \<and> same_storage s s'
    \<and> base_ptr s' = base_ptr s \<and> buckets_addr s' = buckets_addr s \<and> bucket_limit s' = bucket_limit s
    \<and> node_is_split s' = node_is_split s \<and> mem_brk s \<le> mem_brk s' \<and> (ok \<longrightarrow> unat nv < unat (mem_brk s'))
    \<and> (\<not> ok \<longrightarrow> unat (mem_start_brk s) + MAX_HEAP < unat nv + 1)"
proof -
  note D = layoutD [OF l]
  let ?s = "s\<lparr>max_ptr := mem_heap_hi s\<rparr>"
  have b0: "unat (mem_start_brk s) \<le> unat (mem_brk s)" "0 < unat (mem_start_brk s)"
    using D(1) by (auto simp: geom_def word_le_nat_alt unat_gt_0)
  then have hi: "unat (mem_heap_hi s) = unat (mem_brk s) - 1"
    by (simp add: mem_heap_hi_def unat_sub word_le_nat_alt)
  show ?thesis
  proof (cases "nv > mem_heap_hi s")
    case False
    then have "update_max_ptr s nv = (True, ?s)" by (simp add: update_max_ptr_def Let_def)
    moreover have "unat nv < unat (mem_brk s)" using False hi b0 by (simp add: word_less_nat_alt)
    ultimately show ?thesis using l by (intro exI [of _ True] exI [of _ ?s]) (simp add: same_storage_def)
  next
    case True
    let ?i = "nv - mem_heap_hi s"
    have i: "unat ?i = unat nv + 1 - unat (mem_brk s)"
      using True hi b0 by (simp add: unat_sub word_le_nat_alt word_less_nat_alt)
    have le: "unat (mem_brk s) \<le> unat nv + 1" using True hi by (simp add: word_less_nat_alt)
    have g: "geom ?s" using D(1) by simp
    have sum: "unat (mem_brk s) + unat ?i = unat nv + 1" using i le by linarith
    have "unat (mem_brk ?s) + unat ?i < 2 ^ 32" using sum n by simp
    note C = mem_sbrk_cases [OF g this]
    show ?thesis
    proof (cases "0 \<le> sint ?i \<and> unat nv + 1 \<le> unat (mem_start_brk s) + MAX_HEAP")
      case ok: True
      let ?t = "?s\<lparr>mem_brk := mem_brk s + ?i\<rparr>"
      have "mem_brk s \<noteq> - 1"
      proof
        assume "mem_brk s = - 1"
        then have "unat (mem_brk s) = 2 ^ 32 - 1" by (simp add: unsigned_minus_1_eq_mask mask_eq_exp_minus_1)
        with D(3,7) show False by (simp add: MAX_HEAP_def)
      qed
      then have "update_max_ptr s nv = (True, ?t)"
        using True C ok sum by (simp add: update_max_ptr_def Let_def)
      moreover have brk: "unat (mem_brk s + ?i) = unat nv + 1"
        using unat_add_of_nat32 [of "mem_brk s" "unat ?i"] sum n by simp
      moreover have "layout ?t"
        using l ok brk D(6) le b0 by (auto simp: layout_def geom_def word_le_nat_alt)
      ultimately show ?thesis using le
        by (intro exI [of _ True] exI [of _ ?t]) (simp add: same_storage_def word_le_nat_alt)
    next
      case fail: False
      then have "update_max_ptr s nv = (False, ?s)"
        using True C sum by (auto simp: update_max_ptr_def Let_def)
      moreover have "unat (mem_start_brk s) + MAX_HEAP < unat nv + 1"
      proof (cases "0 \<le> sint ?i")
        case False
        then have "\<not> unat ?i < 2 ^ 31" using sint_small [of ?i] by auto
        then have "unat (mem_start_brk s) + 2 ^ 31 \<le> unat nv + 1" using sum b0 by linarith
        then show ?thesis by (simp add: MAX_HEAP_def)
      qed (use fail in simp)
      ultimately show ?thesis using l by (intro exI [of _ False] exI [of _ ?s]) (simp add: same_storage_def)
    qed
  qed
qed

lemma update_max_ptr_core:
  assumes c: "core s L U fl" and n: "unat nv + 1 < 2 ^ 32"
  shows "\<exists>ok s'. update_max_ptr s nv = (ok, s') \<and> core s' L U fl \<and> kept U s s' \<and> (ok \<longrightarrow> unat nv < unat (mem_brk s'))"
proof -
  note D = coreD [OF c]
  obtain ok s' where s': "update_max_ptr s nv = (ok, s')" "layout s'" "bytes s' = bytes s" "same_storage s s'"
    "base_ptr s' = base_ptr s" "buckets_addr s' = buckets_addr s" "bucket_limit s' = bucket_limit s"
    "node_is_split s' = node_is_split s" "mem_brk s \<le> mem_brk s'" "ok \<longrightarrow> unat nv < unat (mem_brk s')"
    using update_max_ptr_ok [OF D(1) n] by blast
  have "sbit s' = sbit s" by (intro ext) (simp add: sbit_def parent_is_split_def s'(8))
  moreover have "lists s' L L U fl"
    using s' by (intro lists_mono [OF D(6)]) (auto simp: same_storage_def dest: listsD(2) [OF D(6)])
  ultimately have "core s' L U fl" using c s'(2,7) by (simp add: core_def)
  moreover have "kept U s s'" using s' by (intro kept_same_bytes)
  ultimately show ?thesis using s'(1,10) by blast
qed

end
