(* ===== verification/Buddy_Correct.thy ===== *)
theory Buddy_Correct
  imports Buddy_Core
begin

text \<open>
  The operations of \<open>src/malloc/buddy.c\<close> keep the invariant \<open>core\<close>; growing, splitting and merging are the steps of
  \<open>Buddy_Tree\<close>.
\<close>

section \<open>Growing the tree\<close>

lemma nptr_0: "nptr s b 0 = base_ptr s"
  by (simp add: nptr_def off_def)

lemma of_nat_Suc_minus [simp]: "of_nat (Suc b) - 1 = (of_nat b :: addr)"
  by simp

lemma of_nat_less_iff32: "a < 2 ^ 32 \<Longrightarrow> b < 2 ^ 32 \<Longrightarrow> (of_nat a :: addr) < of_nat b \<longleftrightarrow> a < b"
  by (simp add: word_less_nat_alt unat_of_nat32)

lemma core_links:
  assumes c: "core s L U fl" and lo: "links_only M V s s'" and n: "node_is_split t = node_is_split s'"
  shows "layout s'" "bucket_limit s' = of_nat L" "sbit t = sbit s"
proof -
  note S = links_only_same [OF lo]
  show "layout s'" "bucket_limit s' = of_nat L" using coreD(1,2) [OF c] S by simp_all
  show "sbit t = sbit s" unfolding S(13) [symmetric] by (intro ext) (simp add: sbit_def parent_is_split_def n)
qed

lemma distinct_single: "distinct xs \<Longrightarrow> set xs = {a} \<Longrightarrow> xs = [a]"
  by (cases xs) (auto simp: subset_singleton_iff)

text \<open>The whole tree is free: its root moves up.\<close>

lemma root_split:
  assumes c: "core s (Suc K) U fl" and b: "b \<le> K"
  shows "of_nat b < bucket_limit s" "bucket_limit s - 1 = of_nat K"
    "node_for_ptr s (base_ptr s) (bucket_limit s) = node (Suc K) 0"
    "parent_is_split s (node (Suc K) 0) = Some (U \<noteq> {})"
proof -
  note D = coreD [OF c]
  show "of_nat b < bucket_limit s" using D(2,3) b by (simp only:) (subst of_nat_less_iff32; simp)
  show "bucket_limit s - 1 = of_nat K" using D(2) by simp
  show "node_for_ptr s (base_ptr s) (bucket_limit s) = node (Suc K) 0"
    using node_for_ptr_eq [of "Suc K" 0 s] D(2,3) by (simp add: nptr_0)
  have "sbit s K 0 = split_bit (Suc K) U K 0" using D(3,5) by simp
  also have "\<dots> = (U \<noteq> {})"
    using higher_root(5) [OF D(4) _ D(3)] by (cases "U = {}") (simp_all add: split_bit_def)
  finally show "parent_is_split s (node (Suc K) 0) = Some (U \<noteq> {})"
    using parent_is_split_node [of K 0 s] D(3) by simp
qed

lemma raise_free:
  assumes c: "core s (Suc K) {} fl" and b: "b \<le> K"
  shows "\<exists>s' fl'. lower_bucket_limit s (of_nat b) = lower_bucket_limit s' (of_nat b)
    \<and> core s' K {} fl' \<and> kept {} s s'"
proof -
  note R = root_split [OF c b]
  note D = coreD [OF c]
  have w: "wf_tree M {}" for M by (simp add: wf_tree_def)
  have fn: "M \<le> 27 \<Longrightarrow> free_nodes M {} b = (if b = M then {0} else {})" for M b by (rule free_nodes_empty)
  have "set (fl (Suc K)) = {0}" using D(7) [of "Suc K"] D(3) by (simp add: fn)
  then have f0: "fl (Suc K) = [] @ 0 # []"
    using listsD(1) [OF D(6) order_refl D(3)] by (simp add: distinct_single)
  have r0: "reach s (Suc K) 0" using listsD(3) [OF D(6) order_refl D(3)] f0 by simp
  have e: "fl b = []" if "Suc K < b" "b \<le> 27" for b using D(7) [of b] that D(3) by (simp add: fn)
  obtain s1 where 1: "list_remove_buddy s (base_ptr s) = Some s1" "lists s1 (Suc K) (Suc K) {} (fl(Suc K := []))"
    "links_only (Suc K) {} s s1"
    using lists_remove [OF D(1,4,6) order_refl D(3) f0] by (auto simp: nptr_0)
  note C1 = core_links [OF c 1(3) refl] and S1 = links_only_same [OF 1(3)]
  let ?s1 = "s1\<lparr>bucket_limit := bucket_limit s1 - 1\<rparr>"
  have bl: "bucket_limit s1 - 1 = of_nat K" using C1(2) by simp
  have K: "K \<le> 27" using D(3) by simp
  have l1: "layout ?s1" using C1(1) by simp
  have "lists ?s1 (Suc K) K {} (fl(Suc K := []))"
    by (rule lists_mono [OF 1(2)]) (use e in \<open>auto simp: nat_less_le split: if_splits\<close>)
  from lists_init [OF l1 w this K] obtain s2 where 2: "list_init ?s1 (head ?s1 K) = Some s2"
    "lists s2 K K {} (fl(Suc K := [], K := []))" "links_only K {} ?s1 s2" by blast
  note S2 = links_only_same [OF 2(3)]
  have l2: "layout s2" using S2(4) l1 by simp
  have r2: "reach s2 K 0" using r0 S1(3) unfolding S2(3) by (simp add: reach_def off_def S1)
  have f2: "0 \<in> free_nodes K {} K" by (simp add: fn K)
  obtain s3 where 3: "list_push s2 (head s2 K) (nptr s2 K 0) = Some s3"
    "lists s3 K K {} (fl(Suc K := [], K := [0]))" "links_only K {} s2 s3"
    using lists_push [OF l2 w 2(2) order_refl K f2 _ r2] by auto
  note S3 = links_only_same [OF 3(3)]
  have "sbit s3 c j = split_bit K {} c j" if "c < 27" "j < 2 ^ c" for c j
  proof -
    have "sbit ?s1 = sbit s1" by (intro ext) (simp add: sbit_def parent_is_split_def)
    then have "sbit s3 = sbit s" using S1 S2 S3 by simp
    then show ?thesis using D(5) [OF that] by (simp add: split_bit_def)
  qed
  moreover have "bucket_limit s3 = of_nat K" using bl S2 S3 by simp
  moreover have "layout s3" using l2 S3 by simp
  ultimately have "core s3 K {} (fl(Suc K := [], K := [0]))"
    using 3(2) e K w by (auto simp: core_def fn)
  moreover have "kept {} s s3"
    by (simp add: kept_def same_storage_def S1 S2 S3)
  moreover have "bucket_head s2 (bucket_limit s2) = head s2 K" "bucket_head ?s1 (bucket_limit ?s1) = head ?s1 K"
    using bl S2(6) by (simp_all add: head_def)
  moreover have "nptr s2 K 0 = base_ptr s2" by (rule nptr_0)
  ultimately have "lower_bucket_limit s (of_nat b) = lower_bucket_limit s3 (of_nat b)"
    using 1(1) 2(1) 3(1) R(1,3,4) by (subst lower_bucket_limit.simps) (simp add: Let_def)
  with \<open>core s3 K {} _\<close> \<open>kept {} s s3\<close> show ?thesis by blast
qed

text \<open>The tree is in use: it becomes the left half of a larger one, whose right half is free.\<close>

lemma raise_used:
  assumes c: "core s (Suc K) U fl" and u: "U \<noteq> {}" and b: "b \<le> K"
  shows "\<exists>s'. kept U s s' \<and> (lower_bucket_limit s (of_nat b) = Some (False, s') \<and> core s' (Suc K) U fl
    \<or> (\<exists>fl'. lower_bucket_limit s (of_nat b) = lower_bucket_limit s' (of_nat b) \<and> core s' K U fl'))"
proof -
  note R = root_split [OF c b] and D = coreD [OF c]
  note H = higher_root [OF D(4) u D(3)]
  have K: "K \<le> 27" "Suc K \<le> 27" "K < 27" using D(3) by simp_all
  have one: "1 < (2 :: nat) ^ Suc K" by (rule one_less_power) simp_all
  have rc: "ptr_for_node s (node (Suc K) 0 + 1) (bucket_limit s) = nptr s (Suc K) 1"
    using ptr_for_node_eq [OF K(2) one, of s] by (simp add: node_child D(2))
  have un: "unat (nptr s (Suc K) 1) = unat (mem_start_brk s) + off (Suc K) 1" by (rule unat_nptr [OF D(1) K(2) one])
  have ob: "off (Suc K) 1 + 2 ^ (31 - Suc K) \<le> 2 ^ 31" by (rule off_bound [OF K(2) one])
  have u8: "unat (nptr s (Suc K) 1 + SIZEOF_LIST_T) = unat (nptr s (Suc K) 1) + 8"
    using unat_add_of_nat32 [of "nptr s (Suc K) 1" 8] un ob layoutD(3) [OF D(1)] by (simp add: SIZEOF_LIST_T_def)
  have "unat (nptr s (Suc K) 1 + SIZEOF_LIST_T) + 1 < 2 ^ 32"
    unfolding u8 un using ob size_16 [OF K(2)] layoutD(3) [OF D(1)] by linarith
  from update_max_ptr_core [OF c this] obtain ok s1 where
    1: "update_max_ptr s (nptr s (Suc K) 1 + SIZEOF_LIST_T) = (ok, s1)" "core s1 (Suc K) U fl" "kept U s s1"
      "ok \<longrightarrow> unat (nptr s (Suc K) 1 + SIZEOF_LIST_T) < unat (mem_brk s1)" by blast
  note D1 = coreD [OF 1(2)]
  show ?thesis
  proof (cases ok)
    case False
    then have "lower_bucket_limit s (of_nat b) = Some (False, s1)"
      using 1(1) R(1,3,4) u rc by (subst lower_bucket_limit.simps) (simp add: Let_def)
    with 1 show ?thesis by blast
  next
    case True
    have st: "mem_start_brk s1 = mem_start_brk s" "nptr s1 = nptr s"
      using 1(3) keptD(1,4) [OF 1(3)] by (simp_all add: same_storage_def)
    have r1: "reach s1 (Suc K) 1" using 1(4) True u8 un st by (simp add: reach_def)
    have w: "wf_tree K U" using wf_tree_higher [OF D(4)] by simp
    have f1: "1 \<in> free_nodes K U (Suc K)" by (simp add: H(3))
    have fe: "fl (Suc K) = []" using D(7) [OF order_refl D(3)] H(1) by simp
    have sub: "k \<in> free_nodes K U d" if "Suc K \<le> d" "d \<le> 27" "k \<in> set (fl d)" for d k
      using that D(7) [OF that(1,2)] fe H(3) [OF that(1)] by (cases "d = Suc K") auto
    have L1: "lists s1 (Suc K) K U fl" by (rule lists_mono [OF D1(6) sub]) simp_all
    obtain s2 where 2: "list_push s1 (head s1 (Suc K)) (nptr s1 (Suc K) 1) = Some s2"
      "lists s2 (Suc K) K U (fl(Suc K := [1]))" "links_only K U s1 s2"
      using lists_push [OF D1(1) w L1 order_refl K(2) f1 _ r1] fe by auto
    note S2 = links_only_same [OF 2(3)]
    let ?s2 = "s2\<lparr>bucket_limit := bucket_limit s2 - 1\<rparr>"
    have bl: "bucket_limit s2 - 1 = of_nat K" using S2(6) D1(2) by simp
    have l2: "layout ?s2" using S2(4) D1(1) by simp
    have "lists ?s2 (Suc K) K U (fl(Suc K := [1]))"
      by (rule lists_mono [OF 2(2)]) (use listsD(2) [OF 2(2)] in \<open>auto split: if_splits\<close>)
    from lists_init [OF l2 w this K(1)] obtain s3 where 3: "list_init ?s2 (head ?s2 K) = Some s3"
      "lists s3 K K U (fl(Suc K := [1], K := []))" "links_only K U ?s2 s3" by blast
    note S3 = links_only_same [OF 3(3)]
    let ?fl = "fl(Suc K := [1], K := [])"
    have sb3: "sbit s3 = sbit s1"
    proof -
      have "sbit ?s2 = sbit s2" by (intro ext) (simp add: sbit_def parent_is_split_def)
      then show ?thesis using S2 S3 by simp
    qed
    have k3: "kept U s s3"
    proof -
      have "kept U s2 ?s2" by (intro kept_same_bytes) (simp_all add: same_storage_def)
      with links_only_kept [OF D1(1) w 2(3)] links_only_kept [OF l2 w 3(3)] 1(3) show ?thesis
        by (blast intro: kept_trans)
    qed
    have root: "(node (Suc K) 0 - 1) div 2 = node K 0" using node_arith(1) [of K 0] K by simp
    obtain s4 where 4: "(if node K 0 \<noteq> 0 then flip_parent_is_split s3 (node K 0) else Some s3) = Some s4"
      "s4\<lparr>node_is_split := node_is_split s3\<rparr> = s3"
      "\<forall>c < 27. \<forall>j < 2 ^ c. sbit s4 c j \<longleftrightarrow> sbit s3 c j \<noteq> (0 < K \<and> (c, j) = (K - 1, 0))"
    proof (cases K)
      case 0
      have "node 0 0 = 0" by (simp add: node_def)
      with 0 that [of s3] show thesis by simp
    next
      case (Suc J)
      then have "node K 0 \<noteq> 0" using node_arith(3) [of J 0] K by simp
      with flip_node [of J 0 s3] Suc K that show thesis by auto
    qed
    have s4: "s4 = s3\<lparr>node_is_split := node_is_split s4\<rparr>" using 4(2) by (cases s3, cases s4) auto
    then obtain ns where s4': "s4 = s3\<lparr>node_is_split := ns\<rparr>" by blast
    have "sbit s4 c j = split_bit K U c j" if "c < 27" "j < 2 ^ c" for c j
      using 4(3) that D1(5) [OF that] H(4) [of c j] sb3 by simp
    moreover have "lists s4 K K U ?fl"
      by (rule lists_mono [OF 3(2)]) (use listsD(2) [OF 3(2)] s4' in \<open>auto split: if_splits\<close>)
    moreover have "set (?fl d) = free_nodes K U d" if "K \<le> d" "d \<le> 27" for d
      using that D(7) [of d] H(2) H(3) [of d] by auto
    moreover have "layout s4" "bucket_limit s4 = of_nat K" using l2 S3 bl s4' by simp_all
    ultimately have "core s4 K U ?fl" using w K(1) by (simp add: core_def)
    moreover have "kept U s3 s4" using s4' by (intro kept_same_bytes) (simp_all add: same_storage_def)
    moreover have "lower_bucket_limit s (of_nat b) = lower_bucket_limit s4 (of_nat b)"
    proof -
      have "bucket_head s1 (bucket_limit s1) = head s1 (Suc K)" "bucket_head ?s2 (bucket_limit ?s2) = head ?s2 K"
        using bl D1(2) by (simp_all add: head_def)
      then show ?thesis
        using 1(1) True 2(1) 3(1) 4(1) R(1,3,4) u rc root st
        by (subst lower_bucket_limit.simps) (simp add: Let_def)
    qed
    ultimately show ?thesis using k3 by (blast intro: kept_trans)
  qed
qed

lemma lower_ok:
  assumes "core s L U fl" "b \<le> 27"
  shows "\<exists>ok s' L' fl'. lower_bucket_limit s (of_nat b) = Some (ok, s') \<and> core s' L' U fl' \<and> kept U s s'
    \<and> (ok \<longrightarrow> L' = min b L)"
  using assms(1)
proof (induction L arbitrary: s fl)
  case 0
  then have "lower_bucket_limit s (of_nat b) = Some (True, s)"
    using coreD(2) [OF 0] by (subst lower_bucket_limit.simps) simp
  with 0 show ?case by (intro exI [of _ True] exI [of _ s] exI [of _ 0] exI [of _ fl]) simp
next
  case (Suc K)
  show ?case
  proof (cases "b \<le> K")
    case False
    then have "\<not> of_nat b < bucket_limit s"
      using coreD(2,3) [OF Suc.prems] assms(2) by (simp only:) (subst of_nat_less_iff32; simp)
    then have "lower_bucket_limit s (of_nat b) = Some (True, s)"
      by (subst lower_bucket_limit.simps) simp
    with Suc.prems False show ?thesis
      by (intro exI [of _ True] exI [of _ s] exI [of _ "Suc K"] exI [of _ fl]) simp
  next
    case True
    have rest: ?thesis if s1: "lower_bucket_limit s (of_nat b) = lower_bucket_limit s1 (of_nat b)" "core s1 K U fl1" "kept U s s1"
      for s1 fl1
    proof -
      obtain ok s' L' fl' where "lower_bucket_limit s1 (of_nat b) = Some (ok, s')" "core s' L' U fl'" "kept U s1 s'"
        "ok \<longrightarrow> L' = min b K" using Suc.IH [OF s1(2)] by blast
      with s1 True kept_trans [OF s1(3)] show ?thesis
        by (intro exI [of _ ok] exI [of _ s'] exI [of _ L'] exI [of _ fl']) simp
    qed
    show ?thesis
    proof (cases "U = {}")
      case U: True
      from raise_free [OF Suc.prems [unfolded U] True] rest show ?thesis unfolding U by blast
    next
      case U: False
      from raise_used [OF Suc.prems U True] rest show ?thesis by blast
    qed
  qed
qed

end
