(* ===== verification/Buddy_Ops.thy ===== *)
theory Buddy_Ops
  imports Buddy_Correct Live_View
begin

text \<open>
  The loops of \<open>mm_malloc\<close> and \<open>mm_free\<close> of \<open>src/malloc/buddy.c\<close>: splitting a block down, taking a block out of a list, merging
  a block with its free buddies. Between the steps one free node is in no list.
\<close>

section \<open>One free node outside the lists\<close>

definition core_but :: "(nat \<times> nat) set \<Rightarrow> buddy \<Rightarrow> nat \<Rightarrow> (nat \<times> nat) set \<Rightarrow> (nat \<Rightarrow> nat list) \<Rightarrow> bool" where
  "core_but X s L U fl \<longleftrightarrow> layout s \<and> bucket_limit s = of_nat L \<and> L \<le> 27 \<and> wf_tree L U
     \<and> (\<forall>c < 27. \<forall>j < 2 ^ c. sbit s c j = split_bit L U c j)
     \<and> lists s L L U fl \<and> (\<forall>b. L \<le> b \<and> b \<le> 27 \<longrightarrow> set (fl b) = {k \<in> free_nodes L U b. (b, k) \<notin> X})"

lemma core_but_empty: "core_but {} s L U fl = core s L U fl"
  by (simp add: core_but_def core_def)

lemma core_butD:
  assumes "core_but X s L U fl"
  shows "layout s" "bucket_limit s = of_nat L" "L \<le> 27" "wf_tree L U"
    "c < 27 \<Longrightarrow> j < 2 ^ c \<Longrightarrow> sbit s c j = split_bit L U c j"
    "lists s L L U fl" "L \<le> b \<Longrightarrow> b \<le> 27 \<Longrightarrow> set (fl b) = {k \<in> free_nodes L U b. (b, k) \<notin> X}"
  using assms by (auto simp: core_but_def)

lemma core_but_links:
  assumes l: "layout s" and lo: "links_only M V s s'" and bl: "bucket_limit s = of_nat L" "L \<le> 27" and w: "wf_tree L U"
    and sb: "\<And>c j. c < 27 \<Longrightarrow> j < 2 ^ c \<Longrightarrow> sbit s c j = split_bit L U c j" and li: "lists s' L L U fl"
    and f: "\<And>b. L \<le> b \<Longrightarrow> b \<le> 27 \<Longrightarrow> set (fl b) = {k \<in> free_nodes L U b. (b, k) \<notin> X}"
  shows "core_but X s' L U fl"
  using links_only_same [OF lo] assms by (simp add: core_but_def)

lemma push_back:
  assumes c: "core_but {(b, x)} s L U fl" and x: "x \<in> free_nodes L U b" "reach s b x"
  shows "\<exists>s'. list_push s (head s b) (nptr s b x) = Some s' \<and> core s' L U (fl(b := x # fl b)) \<and> kept U s s'"
proof -
  note D = core_butD [OF c] and B = free_bounds [OF x(1)]
  have nx: "x \<notin> set (fl b)" using D(7) [OF B(1,2)] by simp
  obtain s' where s': "list_push s (head s b) (nptr s b x) = Some s'" "lists s' L L U (fl(b := x # fl b))" "links_only L U s s'"
    using lists_push [OF D(1,4,6) B(1,2) x(1) nx x(2)] by blast
  have "core_but {} s' L U (fl(b := x # fl b))"
    by (rule core_but_links [OF D(1) s'(3) D(2,3,4,5) s'(2)]) (use D(7) x(1) in auto)
  with s' links_only_kept [OF D(1,4) s'(3)] show ?thesis by (simp add: core_but_empty)
qed

lemma take_out:
  assumes c: "core s L U fl" and x: "fl b = us @ x # vs" and b: "L \<le> b" "b \<le> 27"
  shows "\<exists>s'. list_remove_buddy s (nptr s b x) = Some s' \<and> core_but {(b, x)} s' L U (fl(b := us @ vs)) \<and> kept U s s'"
proof -
  note D = coreD [OF c]
  obtain s' where s': "list_remove_buddy s (nptr s b x) = Some s'" "lists s' L L U (fl(b := us @ vs))" "links_only L U s s'"
    using lists_remove [OF D(1,4,6) b x] by blast
  have "distinct (fl b)" using listsD(1) [OF D(6) b] .
  then have "set (us @ vs) = {k \<in> free_nodes L U b. k \<noteq> x}" using D(7) [OF b] x by auto
  then have "core_but {(b, x)} s' L U (fl(b := us @ vs))"
    by (intro core_but_links [OF D(1) s'(3) D(2,3,4,5) s'(2)]) (use D(7) in auto)
  with s' links_only_kept [OF D(1,4) s'(3)] show ?thesis by blast
qed

lemma pop_ok:
  assumes c: "core s L U fl" and b: "L \<le> b" "b \<le> 27"
  shows "case fl b of [] \<Rightarrow> list_pop s (head s b) = Some (NULL, s) \<and> free_nodes L U b = {}
    | x # xs \<Rightarrow> \<exists>s'. list_pop s (head s b) = Some (nptr s b x, s') \<and> nptr s b x \<noteq> NULL
        \<and> core_but {(b, x)} s' L U (fl(b := xs)) \<and> kept U s s' \<and> x \<in> free_nodes L U b \<and> reach s' b x"
proof (cases "fl b")
  case Nil
  note D = coreD [OF c]
  from Nil lists_pop [OF D(1,4,6) b] D(7) [OF b] show ?thesis by simp
next
  case (Cons x xs)
  note D = coreD [OF c]
  from lists_pop [OF D(1,4,6) b] Cons obtain s' where
    s': "list_pop s (head s b) = Some (nptr s b x, s')" "nptr s b x \<noteq> NULL" "lists s' L L U (fl(b := xs))" "links_only L U s s'"
    by auto
  have "distinct (fl b)" using listsD(1) [OF D(6) b] .
  then have "set xs = {k \<in> free_nodes L U b. k \<noteq> x}" using D(7) [OF b] Cons by auto
  then have "core_but {(b, x)} s' L U (fl(b := xs))"
    by (intro core_but_links [OF D(1) s'(4) D(2,3,4,5) s'(3)]) (use D(7) in auto)
  moreover have "x \<in> free_nodes L U b" "reach s b x" using listsD(2,3) [OF D(6) b] Cons by simp_all
  ultimately show ?thesis using s' links_only_kept [OF D(1,4) s'(4)] links_only_same(3) [OF s'(4)] Cons by auto
qed

lemma update_max_ptr_but:
  assumes c: "core_but X s L U fl" and n: "unat nv + 1 < 2 ^ 32"
  shows "\<exists>ok s'. update_max_ptr s nv = (ok, s') \<and> core_but X s' L U fl \<and> kept U s s' \<and> (ok \<longrightarrow> unat nv < unat (mem_brk s'))"
proof -
  note D = core_butD [OF c]
  obtain ok s' where s': "update_max_ptr s nv = (ok, s')" "layout s'" "bytes s' = bytes s" "same_storage s s'"
    "base_ptr s' = base_ptr s" "buckets_addr s' = buckets_addr s" "bucket_limit s' = bucket_limit s"
    "node_is_split s' = node_is_split s" "mem_brk s \<le> mem_brk s'" "ok \<longrightarrow> unat nv < unat (mem_brk s')"
    using update_max_ptr_ok [OF D(1) n] by blast
  have "sbit s' = sbit s" by (intro ext) (simp add: sbit_def parent_is_split_def s'(8))
  moreover have "lists s' L L U fl"
    using s' by (intro lists_mono [OF D(6)]) (auto simp: same_storage_def dest: listsD(2) [OF D(6)])
  ultimately have "core_but X s' L U fl" using c s'(2,7) by (simp add: core_but_def)
  moreover have "kept U s s'" using s' by (intro kept_same_bytes)
  ultimately show ?thesis using s'(1,10) by blast
qed

text \<open>Flipping the bit above a node that is taken or given back.\<close>

lemma flip_kept:
  assumes "s'\<lparr>node_is_split := node_is_split s\<rparr> = s"
  obtains ns where "s' = s\<lparr>node_is_split := ns\<rparr>" "kept U s s'"
proof -
  have "s' = s\<lparr>node_is_split := node_is_split s'\<rparr>" using assms by (cases s, cases s') auto
  then obtain ns where ns: "s' = s\<lparr>node_is_split := ns\<rparr>" by blast
  then have "kept U s s'" by (intro kept_same_bytes) (simp_all add: same_storage_def)
  with ns that show thesis by blast
qed

lemma lists_split_bits:
  assumes "lists s R M U fl" and "\<And>b k. R \<le> b \<Longrightarrow> b \<le> 27 \<Longrightarrow> k \<in> set (fl b) \<Longrightarrow> k \<in> free_nodes M U' b"
  shows "lists (s\<lparr>node_is_split := ns\<rparr>) R M U' fl"
  by (rule lists_mono [OF assms]) simp_all

lemma flip_above:
  assumes c: "core_but X s L U fl" and b: "b \<le> 27" "k < 2 ^ b" and w: "wf_tree L U'"
    and fn: "\<And>c. L \<le> c \<Longrightarrow> c \<le> 27 \<Longrightarrow> {j \<in> free_nodes L U' c. (c, j) \<notin> X'} = {j \<in> free_nodes L U c. (c, j) \<notin> X}"
    and sb: "\<And>c j. split_bit L U' c j \<longleftrightarrow> split_bit L U c j \<noteq> (0 < b \<and> (c, j) = (b - 1, k div 2))"
  shows "\<exists>s'. (if node b k \<noteq> 0 then flip_parent_is_split s (node b k) else Some s) = Some s'
    \<and> core_but X' s' L U' fl \<and> kept V s s' \<and> mem_brk s' = mem_brk s"
proof -
  note D = core_butD [OF c]
  obtain s' where s': "(if node b k \<noteq> 0 then flip_parent_is_split s (node b k) else Some s) = Some s'"
    "s'\<lparr>node_is_split := node_is_split s\<rparr> = s"
    "\<forall>c < 27. \<forall>j < 2 ^ c. sbit s' c j \<longleftrightarrow> sbit s c j \<noteq> (0 < b \<and> (c, j) = (b - 1, k div 2))"
  proof (cases b)
    case 0
    then have "node b k = 0" using b by (simp add: node_def)
    with 0 that [of s] show thesis by simp
  next
    case (Suc a)
    then have "node b k \<noteq> 0" using node_arith(3) [of a k] b by simp
    with flip_node [of a k s] Suc b that show thesis by auto
  qed
  obtain ns where ns: "s' = s\<lparr>node_is_split := ns\<rparr>" "kept V s s'" using flip_kept [OF s'(2)] by blast
  have "lists s' L L U' fl"
    unfolding ns(1) by (rule lists_split_bits [OF D(6)]) (use D(7) fn in blast)
  moreover have "sbit s' c j = split_bit L U' c j" if "c < 27" "j < 2 ^ c" for c j
    using s'(3) that D(5) [OF that] sb [of c j] by simp
  moreover have "layout s'" "bucket_limit s' = of_nat L" using D(1,2) ns(1) by simp_all
  ultimately have "core_but X' s' L U' fl" using D(3,7) fn w by (simp add: core_but_def)
  with s'(1) ns show ?thesis by auto
qed

section \<open>Splitting down\<close>

lemma split_down_ok:
  assumes "core s L (insert (b, k) V) fl" "(b, k) \<notin> V" "b \<le> ob" "ob \<le> 27" "b < ob \<Longrightarrow> reach s (Suc b) (Suc (2 * k))"
  shows "\<exists>s' fl'. split_down s (node b k) (of_nat b) (of_nat ob) = Some s'
    \<and> core s' L (insert (ob, k * 2 ^ (ob - b)) V) fl' \<and> (ob, k * 2 ^ (ob - b)) \<notin> V \<and> kept V s s'"
  using assms
proof (induction "ob - b" arbitrary: b k s fl)
  case 0
  then have "b = ob" by simp
  moreover have "split_down s (node b k) (of_nat b) (of_nat ob) = Some s"
    using calculation by (subst split_down.simps) simp
  ultimately show ?case using 0 by (intro exI [of _ s] exI [of _ fl]) simp
next
  case (Suc d)
  note c = Suc.prems(1) and D = coreD [OF Suc.prems(1)]
  have b: "b < ob" "b < 27" using Suc.hyps(2) Suc.prems(4) by simp_all
  let ?U = "insert (Suc b, 2 * k) V"
  note S = split_node [OF D(4) Suc.prems(2) b(2)]
  have Lb: "L \<le> b" "k < 2 ^ (b - L)" using wf_treeD(1,3) [OF D(4) insertI1] .
  note M = merge_node [OF S(1,2) _ Lb(1), simplified, OF S(3)]
  have kb: "k < 2 ^ b" using Lb(2) by (rule less_le_trans) (intro power_increasing, simp_all)
  then have k2: "2 * k < 2 ^ Suc b" "Suc (2 * k) < 2 ^ Suc b" by simp_all
  have fn: "{j \<in> free_nodes L ?U c. (c, j) \<notin> {(Suc b, Suc (2 * k))}} = {j \<in> free_nodes L (insert (b, k) V) c. (c, j) \<notin> {}}" for c
    using M(3) [of c] M(4) by auto
  have sb: "split_bit L ?U c j \<longleftrightarrow> split_bit L (insert (b, k) V) c j \<noteq> (0 < Suc b \<and> (c, j) = (Suc b - 1, 2 * k div 2))" for c j
    using M(5) [of c j] by auto
  have "Suc b \<le> 27" using b by simp
  from flip_above [OF c [folded core_but_empty] this k2(1) S(1) fn sb, of V] obtain s1 where
    1: "flip_parent_is_split s (node (Suc b) (2 * k)) = Some s1" "core_but {(Suc b, Suc (2 * k))} s1 L ?U fl" "kept V s s1"
      "mem_brk s1 = mem_brk s"
    using node_arith(3) [OF b(2) k2(1)] by auto
  have f: "Suc (2 * k) \<in> free_nodes L ?U (Suc b)" by (simp add: M(3))
  have r: "reach s1 (Suc b) (Suc (2 * k))" using keptD(3) [OF 1(3)] Suc.prems(5) b by simp
  obtain s2 fl2 where 2: "list_push s1 (head s1 (Suc b)) (nptr s1 (Suc b) (Suc (2 * k))) = Some s2"
    "core s2 L ?U fl2" "kept ?U s1 s2"
    using push_back [OF 1(2) f r] by blast
  have k12: "kept V s s2" using kept_trans [OF 1(3) kept_mono [OF 2(3)]] by blast
  have r2: "reach s2 (Suc (Suc b)) (Suc (2 * (2 * k)))" if "Suc b < ob"
  proof -
    have "off (Suc (Suc b)) (Suc (2 * (2 * k))) \<le> off (Suc b) (Suc (2 * k))"
    proof -
      have "31 - Suc b = Suc (31 - Suc (Suc b))" using b by simp
      then show ?thesis by (simp add: off_def)
    qed
    moreover have "reach s2 (Suc b) (Suc (2 * k))" using keptD(3) [OF k12] Suc.prems(5) b by simp
    ultimately show ?thesis by (simp add: reach_def)
  qed
  have d: "d = ob - Suc b" and sb_le: "Suc b \<le> ob" using Suc.hyps(2) b by simp_all
  obtain s' fl' where 3: "split_down s2 (node (Suc b) (2 * k)) (of_nat (Suc b)) (of_nat ob) = Some s'"
    "core s' L (insert (ob, 2 * k * 2 ^ (ob - Suc b)) V) fl'" "(ob, 2 * k * 2 ^ (ob - Suc b)) \<notin> V" "kept V s2 s'"
    using Suc.hyps(1) [OF d 2(2) S(2) sb_le Suc.prems(4) r2] by blast
  have e: "2 * k * 2 ^ (ob - Suc b) = k * 2 ^ (ob - b)" using b by (simp add: Suc_diff_Suc flip: power_Suc)
  have suc: "of_nat b + 1 = (of_nat (Suc b) :: addr)" by simp
  have bs: "(of_nat b :: addr) < of_nat ob" using b Suc.prems(4) by (subst of_nat_less_iff32) simp_all
  have "ptr_for_node s1 (node (Suc b) (Suc (2 * k))) (of_nat (Suc b)) = nptr s1 (Suc b) (Suc (2 * k))"
    using b k2 by (intro ptr_for_node_eq) simp_all
  with bs have "split_down s (node b k) (of_nat b) (of_nat ob) = split_down s2 (node (Suc b) (2 * k)) (of_nat (Suc b)) (of_nat ob)"
    using 1(1) 2(1) suc by (subst split_down.simps) (simp only: Let_def node_child head_def if_True bind.bind_lunit)
  with 3 k12 show ?case unfolding e by (metis kept_trans)
qed

section \<open>Blocks in use\<close>

lemma wf_bounds: "wf_tree L U \<Longrightarrow> (b, k) \<in> U \<Longrightarrow> b \<le> 27 \<and> k < 2 ^ b"
proof -
  assume w: "wf_tree L U" and u: "(b, k) \<in> U"
  note W = wf_treeD(2,3) [OF w u]
  have "(2 :: nat) ^ (b - L) \<le> 2 ^ b" by (intro power_increasing) simp_all
  with W show "b \<le> 27 \<and> k < 2 ^ b" by linarith
qed

lemma used_bounds: "core s L U fl \<Longrightarrow> (b, k) \<in> U \<Longrightarrow> b \<le> 27 \<and> k < 2 ^ b"
  by (rule wf_bounds [OF coreD(4)])

lemma block_addr:
  assumes l: "layout s" and b: "b \<le> 27" "k < 2 ^ b" and i: "i \<le> 2 ^ (31 - b)"
  shows "unat (nptr s b k + of_nat i) = unat (mem_start_brk s) + off b k + i"
  using unat_add_of_nat32 [of "nptr s b k" i] unat_nptr [OF l b] off_bound [OF b] i layoutD(3) [OF l] by simp

lemma blocks_apart:
  assumes l: "layout s" and w: "wf_tree L U" and u: "(b, k) \<in> U" "(c, j) \<in> U" "(b, k) \<noteq> (c, j)" and i: "i < 2 ^ (31 - c)"
  shows "\<not> unat (nptr s c j + of_nat i - nptr s b k) < 2 ^ (31 - b)"
proof -
  note b = wf_bounds [OF w u(1)] and c = wf_bounds [OF w u(2)]
  have ub: "unat (nptr s b k) = unat (mem_start_brk s) + off b k" using unat_nptr [OF l] b by blast
  have "unat (nptr s c j + of_nat i) = unat (mem_start_brk s) + off c j + i" using block_addr [OF l] c i by simp
  moreover have "off b k + 2 ^ (31 - b) \<le> off c j \<or> off c j + 2 ^ (31 - c) \<le> off b k"
    by (rule leaves_apart [OF w _ _ u(3)]) (use u in \<open>simp_all add: leaf_def\<close>)
  moreover have "unat (nptr s b k) + 2 ^ (31 - b) \<le> 2 ^ 32"
    using ub off_bound [of b k] b layoutD(3) [OF l] by linarith
  ultimately show ?thesis using i by (subst unat_diff_less_iff) (auto simp: ub)
qed

lemma write_kept:
  assumes c: "core s L U fl" and u: "(b, k) \<in> U"
    and m: "\<And>a. \<not> unat (a - nptr s b k) < 2 ^ (31 - b) \<Longrightarrow> m a = bytes s a"
  shows "kept (U - {(b, k)}) s (s\<lparr>bytes := m\<rparr>)"
  using m blocks_apart [OF coreD(1) [OF c] coreD(4) [OF c] u] by (auto simp: kept_def)

text \<open>The header word of a block.\<close>

lemma header_ok:
  assumes c: "core s L U fl" and u: "(b, k) \<in> U" "full s b k"
  shows "LD s (nptr s b k) = Some (ld32 (bytes s) (nptr s b k))"
    "\<exists>s'. ST s (nptr s b k) v = Some s' \<and> core s' L U fl \<and> kept (U - {(b, k)}) s s' \<and> mem_brk s' = mem_brk s
      \<and> ld32 (bytes s') (nptr s b k) = v"
proof -
  note D = coreD [OF c] and B = used_bounds [OF c u(1)]
  have un: "unat (nptr s b k) = unat (mem_start_brk s) + off b k" using unat_nptr [OF D(1)] B by blast
  have s16: "16 \<le> (2 :: nat) ^ (31 - b)" using size_16 B by blast
  then have "in_storage s (nptr s b k) 4"
    using u(2) layoutD(6,7) [OF D(1)] un by (simp add: in_storage_def full_def word_le_nat_alt)
  then have ok: "word_ok s (nptr s b k)" by (simp add: word_ok_def)
  then show "LD s (nptr s b k) = Some (ld32 (bytes s) (nptr s b k))" by (rule LD_ok)
  let ?m = "st32 (bytes s) (nptr s b k) v"
  have m: "?m a = bytes s a" if "\<not> unat (a - nptr s b k) < 2 ^ (31 - b)" for a
    using not_in_cell [of a "nptr s b k"] that s16 by (simp add: st32_byte_apart)
  from core_write [OF c u m] write_kept [OF c u(1) m] ok
  show "\<exists>s'. ST s (nptr s b k) v = Some s' \<and> core s' L U fl \<and> kept (U - {(b, k)}) s s' \<and> mem_brk s' = mem_brk s
      \<and> ld32 (bytes s') (nptr s b k) = v"
    by (simp add: ST_ok)
qed

section \<open>Taking a block\<close>

lemma take_flip:
  assumes c: "core_but {(b, x)} s L U fl" and x: "x \<in> free_nodes L U b"
  shows "\<exists>s'. (if node b x \<noteq> 0 then flip_parent_is_split s (node b x) else Some s) = Some s'
    \<and> core s' L (insert (b, x) U) fl \<and> kept U s s' \<and> mem_brk s' = mem_brk s \<and> (b, x) \<notin> U"
proof -
  note D = core_butD [OF c] and B = free_bounds [OF x] and T = take_node [OF core_butD(4) [OF c] x]
  have "{j \<in> free_nodes L (insert (b, x) U) c. (c, j) \<notin> {}} = {j \<in> free_nodes L U c. (c, j) \<notin> {(b, x)}}" for c
    using T(2) [of c] by auto
  moreover have "split_bit L (insert (b, x) U) c j \<longleftrightarrow> split_bit L U c j \<noteq> (0 < b \<and> (c, j) = (b - 1, x div 2))" for c j
    using T(3) by (cases "b = 0") (auto simp: split_bit_def busy_insert)
  moreover have "(b, x) \<notin> U" using x busy_used by (auto simp: free_nodes_def)
  ultimately show ?thesis using flip_above [OF c B(2,3) T(1), of "{}" U] unfolding core_but_empty by blast
qed

lemma bytes_needed_nat:
  assumes "b \<le> 27" "ob \<le> 27"
  defines "n \<equiv> (if b < ob then 2 ^ (31 - b) div 2 + 8 else 2 ^ (31 - b))"
  shows "(let sz = push_bit (unat (MAX_ALLOC_LOG2 - of_nat b)) 1 in if of_nat b < (of_nat ob :: addr) then sz div 2 + SIZEOF_LIST_T else sz) = (of_nat n :: addr)"
    "n \<le> 2 ^ (31 - b)" "b \<le> ob \<Longrightarrow> 2 ^ (31 - ob) \<le> n" "b < ob \<Longrightarrow> off (Suc b) (Suc (2 * k)) + 8 = off b k + n"
    "b \<le> ob \<Longrightarrow> off ob (k * 2 ^ (ob - b)) = off b k"
proof -
  have u: "unat (MAX_ALLOC_LOG2 - of_nat b) = 31 - b"
  proof -
    have "unat (of_nat b :: addr) = b" using assms(1) by (intro unat_of_nat32) simp
    moreover from this have "of_nat b \<le> MAX_ALLOC_LOG2" using assms(1) by (simp add: word_le_nat_alt MAX_ALLOC_LOG2_def)
    ultimately show ?thesis by (simp add: unat_sub MAX_ALLOC_LOG2_def)
  qed
  define h where "h = (2 :: nat) ^ (30 - b)"
  have h: "(2 :: nat) ^ (31 - b) = 2 * h"
  proof -
    have "31 - b = Suc (30 - b)" using assms(1) by simp
    then show ?thesis by (simp only: h_def power_Suc)
  qed
  have h8: "8 \<le> h" using power_increasing [of 3 "30 - b" "2 :: nat"] assms(1) by (simp add: h_def)
  have hb: "h \<le> 2 ^ 30" unfolding h_def by (intro power_increasing) simp_all
  have sz: "push_bit (31 - b) 1 = (of_nat (2 * h) :: addr)" by (simp add: push_bit_eq_mult flip: h)
  have "of_nat (2 * h) div 2 = (of_nat h :: addr)"
  proof -
    have "unat (of_nat (2 * h) :: addr) = 2 * h" "unat (of_nat h :: addr) = h" using hb by (intro unat_of_nat32; simp)+
    then show ?thesis by (simp add: word_unat_eq_iff unat_div)
  qed
  then show "(let sz = push_bit (unat (MAX_ALLOC_LOG2 - of_nat b)) 1 in if of_nat b < (of_nat ob :: addr) then sz div 2 + SIZEOF_LIST_T else sz) = (of_nat n :: addr)"
    using of_nat_less_iff32 [of b ob] assms(1,2) unfolding u sz n_def h by (simp add: SIZEOF_LIST_T_def)
  show "n \<le> 2 ^ (31 - b)" using h8 by (simp add: n_def h)
  show "2 ^ (31 - ob) \<le> n" if "b \<le> ob"
  proof (cases "b < ob")
    case True
    then have "(2 :: nat) ^ (31 - ob) \<le> 2 ^ (30 - b)" by (intro power_increasing) simp_all
    with True show ?thesis by (simp add: n_def h flip: h_def)
  qed (use that in \<open>simp add: n_def\<close>)
  show "off (Suc b) (Suc (2 * k)) + 8 = off b k + n" if "b < ob"
    using that by (simp add: n_def off_def h flip: h_def)
  show "off ob (k * 2 ^ (ob - b)) = off b k" if "b \<le> ob"
    using that assms(2) by (simp add: off_def flip: power_add)
qed

text \<open>A result of \<open>mm_malloc\<close>: refused, or a block of bucket \<open>ob\<close> with the request in its header.\<close>

definition taken :: "buddy \<Rightarrow> (nat \<times> nat) set \<Rightarrow> addr \<Rightarrow> nat \<Rightarrow> addr \<Rightarrow> buddy \<Rightarrow> bool" where
  "taken s U request ob p s' \<longleftrightarrow> kept U s s' \<and> (p = NULL \<and> (\<exists>L fl. core s' L U fl)
     \<or> (\<exists>k L fl. (ob, k) \<notin> U \<and> p = nptr s ob k + 8 \<and> core s' L (insert (ob, k) U) fl \<and> full s' ob k
         \<and> ld32 (bytes s') (nptr s ob k) = request))"

lemma takenI:
  "kept U s s' \<Longrightarrow> (ob, k) \<notin> U \<Longrightarrow> core s' L (insert (ob, k) U) fl \<Longrightarrow> full s' ob k \<Longrightarrow> ld32 (bytes s') (nptr s ob k) = request
    \<Longrightarrow> taken s U request ob (nptr s ob k + 8) s'"
  unfolding taken_def by blast

lemma take_block_ok:
  assumes c: "core_but {(b, x)} s L U fl" and x: "x \<in> free_nodes L U b" "reach s b x" and b: "b \<le> ob" "ob \<le> 27"
  shows "\<exists>p s'. take_block s request (of_nat ob) (of_nat b) (nptr s b x) = Some (p, s') \<and> taken s U request ob p s'"
proof -
  note D = core_butD [OF c] and B = free_bounds [OF x(1)]
  define n :: nat where "n = (if b < ob then 2 ^ (31 - b) div 2 + 8 else 2 ^ (31 - b))"
  note N = bytes_needed_nat [OF B(2) b(2), folded n_def]
  define nv where "nv = nptr s b x + of_nat n"
  have unv: "unat nv = unat (mem_start_brk s) + off b x + n"
    unfolding nv_def by (rule block_addr [OF D(1) B(2,3) N(2)])
  then have "unat nv + 1 < 2 ^ 32" using N(2) off_bound [OF B(2,3)] layoutD(3) [OF D(1)] by linarith
  from update_max_ptr_but [OF c this] obtain ok s1 where
    1: "update_max_ptr s nv = (ok, s1)" "core_but {(b, x)} s1 L U fl" "kept U s s1" "ok \<longrightarrow> unat nv < unat (mem_brk s1)" by blast
  have np: "nptr s1 = nptr s" by (rule keptD(1) [OF 1(3)])
  show ?thesis
  proof (cases ok)
    case False
    obtain s2 where 2: "list_push s1 (head s1 b) (nptr s1 b x) = Some s2" "core s2 L U (fl(b := x # fl b))" "kept U s1 s2"
      using push_back [OF 1(2) x(1) keptD(3) [OF 1(3) x(2)]] by blast
    have "take_block s request (of_nat ob) (of_nat b) (nptr s b x) = Some (NULL, s2)"
      using 1(1) 2(1) False N(1) unfolding take_block_def nv_def np by (simp add: Let_def head_def)
    with 2 kept_trans [OF 1(3) 2(3)] show ?thesis by (auto simp: taken_def)
  next
    case True
    then have brk: "unat (mem_start_brk s) + off b x + n < unat (mem_brk s1)" using 1(4) unv by simp
    have st: "mem_start_brk s1 = mem_start_brk s" using keptD(4) [OF 1(3)] by (simp add: same_storage_def)
    obtain s2 where 2: "(if node b x \<noteq> 0 then flip_parent_is_split s1 (node b x) else Some s1) = Some s2"
      "core s2 L (insert (b, x) U) fl" "kept U s1 s2" "mem_brk s2 = mem_brk s1" "(b, x) \<notin> U"
      using take_flip [OF 1(2) x(1)] by blast
    have st2: "mem_start_brk s2 = mem_start_brk s" using keptD(4) [OF 2(3)] st by (simp add: same_storage_def)
    have r: "reach s2 (Suc b) (Suc (2 * x))" if "b < ob" using brk N(4) [OF that, of x] st2 2(4) by (simp add: reach_def)
    define k where "k = x * 2 ^ (ob - b)"
    obtain s3 fl3 where 3: "split_down s2 (node b x) (of_nat b) (of_nat ob) = Some s3"
      "core s3 L (insert (ob, k) U) fl3" "(ob, k) \<notin> U" "kept U s2 s3"
      using split_down_ok [OF 2(2,5) b r] unfolding k_def by blast
    have k13: "kept U s s3" by (rule kept_trans [OF 1(3) kept_trans [OF 2(3) 3(4)]])
    have nk: "nptr s3 ob k = nptr s b x"
      using keptD(1) [OF k13] keptD(4) [OF k13] N(5) [OF b(1), of x] by (simp add: nptr_def k_def same_storage_def)
    have st3: "mem_start_brk s3 = mem_start_brk s" "mem_brk s1 \<le> mem_brk s3"
      using keptD(4) [OF k13] 3(4) 2(4) by (simp_all add: same_storage_def kept_def)
    have fu: "full s3 ob k"
      using brk N(3,5) [OF b(1)] st3 by (simp add: full_def k_def word_le_nat_alt)
    obtain s4 where 4: "ST s3 (nptr s3 ob k) request = Some s4" "core s4 L (insert (ob, k) U) fl3"
      "kept (insert (ob, k) U - {(ob, k)}) s3 s4" "mem_brk s4 = mem_brk s3" "ld32 (bytes s4) (nptr s3 ob k) = request"
      using header_ok(2) [OF 3(2) insertI1 fu] by blast
    have k34: "kept U s3 s4" using kept_mono [OF 4(3)] 3(3) by blast
    have nfp: "node_for_ptr s1 (nptr s b x) (of_nat b) = node b x"
      using node_for_ptr_eq [OF B(2,3), of s1] np by simp
    have "take_block s request (of_nat ob) (of_nat b) (nptr s b x) = Some (nptr s b x + 8, s4)"
      using 1(1) True 2(1) 3(1) 4(1) N(1) nfp unfolding take_block_def nv_def nk
      by (cases "node b x = NULL") (simp_all add: Let_def HEADER_SIZE_def)
    moreover have "full s4 ob k" using keptD(2) [OF k34] fu by simp
    moreover have "nptr s ob k = nptr s b x" using keptD(1) [OF k13] nk by simp
    ultimately show ?thesis using takenI [OF kept_trans [OF k13 k34] 3(3) 4(2)] 4(5) nk by metis
  qed
qed

section \<open>Merging\<close>

lemma merge_up_ok:
  assumes "core s L (insert (b, k) V) fl" "(b, k) \<notin> V" "reach s b k"
  shows "\<exists>s' c j fl'. merge_up s (node b k) (of_nat b) = Some (node c j, of_nat c, s')
    \<and> core_but {(c, j)} s' L V fl' \<and> j \<in> free_nodes L V c \<and> reach s' c j \<and> kept V s s'"
  using assms
proof (induction b arbitrary: k s fl)
  case 0
  note D = coreD [OF 0(1)]
  have k: "L = 0" "k = 0" using wf_treeD(1,3) [OF D(4) insertI1] by simp_all
  note G = given_back_free [OF D(4) 0(2)] and T = take_node(2) [OF given_back_free [OF D(4) 0(2)]]
  have "split_bit 0 (insert (0, 0) V) c j = split_bit 0 V c j" for c j by (simp add: split_bit_def busy_insert)
  then have "core_but {(0, 0)} s 0 V fl"
    using 0(1) G T k by (auto simp: core_but_def core_def intro: lists_mono)
  moreover have "merge_up s (node 0 k) (of_nat 0) = Some (node 0 0, of_nat 0, s)"
    using k by (subst merge_up.simps) (simp add: node_def)
  ultimately show ?case using G(2) 0(3) k by (metis kept_refl)
next
  case (Suc a)
  let ?b = "Suc a"
  note c = Suc.prems(1) and D = coreD [OF Suc.prems(1)]
  note W = wf_treeD(1,2,3) [OF D(4) insertI1]
  have a: "a < 27" "k < 2 ^ Suc a" using used_bounds [OF c insertI1] by simp_all
  show ?case
  proof (cases "?b = L \<or> busy V ?b (sib k)")
    case True
    note G = given_back_free [OF D(4) Suc.prems(2) True] and T = take_node [OF given_back_free [OF D(4) Suc.prems(2) True]]
    have fn: "{j \<in> free_nodes L V c. (c, j) \<notin> {(?b, k)}} = {j \<in> free_nodes L (insert (?b, k) V) c. (c, j) \<notin> {}}" for c
      using T(2) [of c] by auto
    have sb: "split_bit L V c j \<longleftrightarrow> split_bit L (insert (?b, k) V) c j \<noteq> (0 < ?b \<and> (c, j) = (?b - 1, k div 2))" for c j
      using T(3) [of c j] by auto
    obtain s1 where 1: "flip_parent_is_split s (node ?b k) = Some s1" "core_but {(?b, k)} s1 L V fl" "kept V s s1"
      using flip_above [OF c [folded core_but_empty] W(2) a(2) G(1) fn sb, of V] node_arith(3) [OF a] by auto
    have "parent_is_split s1 (node ?b k) = Some (split_bit L V a (k div 2))"
      using parent_is_split_node [OF a] core_butD(5) [OF 1(2), of a "k div 2"] a by simp
    moreover have "split_bit L V a (k div 2) \<or> ?b = L"
    proof -
      have "split_bit L V a (k div 2) \<longleftrightarrow> busy V ?b k \<noteq> busy V ?b (sib k)"
        using split_bit_parent [of ?b L V k] W(1) by simp
      moreover have "\<not> busy V ?b k" using G(2) by (simp add: free_nodes_def)
      ultimately show ?thesis using True by blast
    qed
    ultimately have "merge_up s (node ?b k) (of_nat ?b) = Some (node ?b k, of_nat ?b, s1)"
      using 1(1) core_butD(2) [OF 1(2)] node_arith(3) [OF a] by (subst merge_up.simps) auto
    with 1 G(2) keptD(3) [OF 1(3) Suc.prems(3)] show ?thesis by blast
  next
    case False
    then have La: "L \<le> a" using W(1) by simp
    have nb: "\<not> busy V ?b (sib k)" using False by blast
    note M = merge_node [OF D(4) Suc.prems(2) nb La]
    let ?U = "insert (a, k div 2) V"
    have sk: "sib k < 2 ^ Suc a" using a(2) by (intro sib_less) simp_all
    obtain s1 where 1: "flip_parent_is_split s (node ?b k) = Some s1" "s1\<lparr>node_is_split := node_is_split s\<rparr> = s"
      "\<forall>c < 27. \<forall>j < 2 ^ c. sbit s1 c j \<longleftrightarrow> sbit s c j \<noteq> ((c, j) = (a, k div 2))"
      using flip_node [OF a] by blast
    obtain ns where ns: "s1 = s\<lparr>node_is_split := ns\<rparr>" "kept V s s1" using flip_kept [OF 1(2)] by blast
    have sb: "sbit s1 c j = split_bit L ?U c j" if "c < 27" "j < 2 ^ c" for c j
      using 1(3) that D(5) [OF that] M(5) [of c j] by simp
    have "split_bit L (insert (?b, k) V) a (k div 2)"
      using split_bit_parent [of ?b L "insert (?b, k) V" k] W(1) nb by (simp add: busy_insert)
    then have nosplit: "parent_is_split s1 (node ?b k) = Some False"
      using parent_is_split_node [OF a] sb [of a "k div 2"] M(5) [of a "k div 2"] a by simp
    have li1: "lists s1 L L (insert (?b, k) V) fl"
      unfolding ns(1) by (rule lists_split_bits [OF D(6)]) (rule listsD(2) [OF D(6)])
    have "sib k \<in> set (fl ?b)" using D(7) [OF W(1,2)] M(3) [of ?b] by simp
    then obtain us vs where fl: "fl ?b = us @ sib k # vs" by (auto dest: split_list)
    have l1: "layout s1" using D(1) ns(1) by simp
    obtain s2 where 2: "list_remove_buddy s1 (nptr s1 ?b (sib k)) = Some s2"
      "lists s2 L L (insert (?b, k) V) (fl(?b := us @ vs))" "links_only L (insert (?b, k) V) s1 s2"
      using lists_remove [OF l1 D(4) li1 W(1,2) fl] by blast
    have "sib k \<notin> set (us @ vs)" using listsD(1) [OF D(6) W(1,2)] fl by simp
    moreover have "insert (sib k) (set (us @ vs)) = insert (sib k) (free_nodes L ?U ?b)"
      using D(7) [OF W(1,2)] M(3) [of ?b] fl by simp
    ultimately have "set (us @ vs) = free_nodes L ?U ?b" using insert_ident M(4) by metis
    then have fr: "set ((fl(?b := us @ vs)) c) = free_nodes L ?U c" if "L \<le> c" "c \<le> 27" for c
      using D(7) [OF that] M(3) [of c] by simp
    have "lists s2 L L ?U (fl(?b := us @ vs))" by (rule lists_mono [OF 2(2)]) (use fr in simp_all)
    then have c2: "core s2 L ?U (fl(?b := us @ vs))"
      using core_but_links [OF l1 2(3) _ D(3) M(1) sb, of "fl(?b := us @ vs)" "{}"] fr D(2) ns(1)
      by (simp add: core_but_empty)
    have k12: "kept V s s2" using kept_trans [OF ns(2) kept_mono [OF links_only_kept [OF l1 D(4) 2(3)]]] by blast
    have "off a (k div 2) \<le> off ?b k"
    proof -
      have "31 - a = Suc (31 - ?b)" using a by simp
      moreover have "k div 2 * 2 \<le> k" by simp
      ultimately show ?thesis unfolding off_def by (simp add: mult.assoc [symmetric])
    qed
    then have r2: "reach s2 a (k div 2)" using keptD(3) [OF k12 Suc.prems(3)] by (simp add: reach_def)
    obtain s' c j fl' where 3: "merge_up s2 (node a (k div 2)) (of_nat a) = Some (node c j, of_nat c, s')"
      "core_but {(c, j)} s' L V fl'" "j \<in> free_nodes L V c" "reach s' c j" "kept V s2 s'"
      using Suc.IH [OF c2 M(2) r2] by blast
    have ne: "of_nat ?b \<noteq> bucket_limit s1"
    proof -
      have "L < ?b" using La by simp
      then have "(of_nat L :: addr) < of_nat ?b" using W(2) by (subst of_nat_less_iff32) simp_all
      then show ?thesis using D(2) ns(1) by auto
    qed
    have pn: "ptr_for_node s1 (((node ?b k - 1) XOR 1) + 1) (of_nat ?b) = nptr s1 ?b (sib k)"
      unfolding node_arith(2) [OF a] by (rule ptr_for_node_eq [OF W(2) sk])
    have "merge_up s (node ?b k) (of_nat ?b) = merge_up s2 ((node ?b k - 1) div 2) (of_nat ?b - 1)"
      using 1(1) nosplit ne pn 2(1) node_arith(3) [OF a] by (subst merge_up.simps) simp
    also have "\<dots> = merge_up s2 (node a (k div 2)) (of_nat a)" by (simp only: node_arith(1) [OF a] of_nat_Suc_minus)
    finally show ?thesis using 3 kept_trans [OF k12 3(5)] by metis
  qed
qed

end
