(* ===== verification/Buddy_Package.thy ===== *)
theory Buddy_Package
  imports Buddy_Ops Malloc_Interface
begin

text \<open>
  \<open>mm_init\<close>, \<open>mm_malloc\<close> and \<open>mm_free\<close> of \<open>src/malloc/buddy.c\<close> on the invariant, and what a client sees: the map of live
  payloads, a \<open>live_heap\<close>.
\<close>

section \<open>\<open>mm_malloc\<close>\<close>

lemma taken_trans: "kept U s s1 \<Longrightarrow> taken s1 U r ob p s' \<Longrightarrow> taken s U r ob p s'"
  using keptD(1) [of U s s1] kept_trans [of U s s1 s'] unfolding taken_def by auto

lemma taken_null: "kept U s s' \<Longrightarrow> core s' L U fl \<Longrightarrow> taken s U r ob NULL s'"
  unfolding taken_def by blast

lemma of_nat_plus1_ne: "b \<le> 27 \<Longrightarrow> (of_nat b :: addr) + 1 \<noteq> 0"
proof -
  assume b: "b \<le> 27"
  then have "unat (of_nat (Suc b) :: addr) = Suc b" by (intro unat_of_nat32) simp
  then have "(of_nat (Suc b) :: addr) \<noteq> 0" by (metis unat_0 nat.distinct(1))
  then show ?thesis by (simp only: of_nat_Suc add.commute not_False_eq_True)
qed

lemma malloc_loop_ok:
  assumes "core s L U fl" "b \<le> ob" "ob \<le> 27"
  shows "\<exists>p s'. malloc_loop s request (of_nat ob) (of_nat b) = Some (p, s') \<and> taken s U request ob p s'"
  using assms
proof (induction b arbitrary: s L fl)
  case 0
  obtain ok s1 L1 fl1 where 1: "lower_bucket_limit s (of_nat 0) = Some (ok, s1)" "core s1 L1 U fl1" "kept U s s1" "ok \<longrightarrow> L1 = min 0 L"
    using lower_ok [OF 0(1), of 0] by auto
  note step = malloc_loop.simps [of s request "of_nat ob" 0]
  show ?case
  proof (cases ok)
    case False
    with 1 show ?thesis by (auto simp: step intro: taken_null)
  next
    case True
    then have L1: "L1 \<le> 0" using 1(4) by simp
    show ?thesis
    proof (cases "fl1 0")
      case Nil
      have "malloc_loop s1 request (of_nat ob) (0 - 1) = Some (NULL, s1)" by (subst malloc_loop.simps) simp
      then have "malloc_loop s request (of_nat ob) (of_nat 0) = Some (NULL, s1)"
        using 1(1) True pop_ok [OF 1(2) L1] Nil by (simp add: step head_def)
      with taken_null [OF 1(3,2)] show ?thesis by blast
    next
      case (Cons x xs)
      obtain s2 where 2: "list_pop s1 (head s1 0) = Some (nptr s1 0 x, s2)" "nptr s1 0 x \<noteq> NULL"
        "core_but {(0, x)} s2 L1 U (fl1(0 := xs))" "kept U s1 s2" "x \<in> free_nodes L1 U 0" "reach s2 0 x"
        using pop_ok [OF 1(2) L1] Cons by auto
      have n: "nptr s1 0 x = nptr s2 0 x" using keptD(1) [OF 2(4)] by simp
      have "malloc_loop s request (of_nat ob) (of_nat 0) = take_block s2 request (of_nat ob) (of_nat 0) (nptr s1 0 x)"
        using 1(1) True 2(1,2) by (simp add: step head_def)
      with take_block_ok [OF 2(3,5,6) 0(2,3)] kept_trans [OF 1(3) 2(4)] n show ?thesis by (metis taken_trans)
    qed
  qed
next
  case (Suc a)
  let ?b = "Suc a"
  have b27: "?b \<le> 27" "a \<le> 27" "a \<le> ob" using Suc.prems by simp_all
  obtain ok s1 L1 fl1 where 1: "lower_bucket_limit s (of_nat ?b) = Some (ok, s1)" "core s1 L1 U fl1" "kept U s s1" "ok \<longrightarrow> L1 = min ?b L"
    using lower_ok [OF Suc.prems(1) b27(1)] by blast
  note step = malloc_loop.simps [of s request "of_nat ob" "of_nat ?b"]
  note ne = of_nat_plus1_ne [OF b27(1)]
  have nz: "(of_nat ?b :: addr) \<noteq> 0"
  proof -
    have "unat (of_nat ?b :: addr) = ?b" using b27 by (intro unat_of_nat32) simp
    then show ?thesis by (metis unat_0 nat.distinct(1))
  qed
  have taken: ?case if "malloc_loop s request (of_nat ob) (of_nat ?b) = take_block s3 request (of_nat ob) (of_nat ?b) (nptr s2 ?b x)"
    "kept U s s3" "nptr s2 = nptr s3" "core_but {(?b, x)} s3 L3 U fl3" "x \<in> free_nodes L3 U ?b" "reach s3 ?b x" for s2 s3 x L3 fl3
    using take_block_ok [OF that(4-6) Suc.prems(2,3)] that(1-3) by (metis taken_trans)
  show ?case
  proof (cases ok)
    case False
    with 1 ne show ?thesis by (simp only: step simp_thms if_True if_False bind.bind_lunit prod.case) (auto intro: taken_null)
  next
    case True
    then have L1: "L1 \<le> ?b" using 1(4) by simp
    show ?thesis
    proof (cases "fl1 ?b")
      case (Cons x xs)
      obtain s2 where 2: "list_pop s1 (head s1 ?b) = Some (nptr s1 ?b x, s2)" "nptr s1 ?b x \<noteq> NULL"
        "core_but {(?b, x)} s2 L1 U (fl1(?b := xs))" "kept U s1 s2" "x \<in> free_nodes L1 U ?b" "reach s2 ?b x"
        using pop_ok [OF 1(2) L1 b27(1)] Cons by auto
      show ?thesis
      proof (rule taken [OF _ kept_trans [OF 1(3) 2(4)] _ 2(3,5,6)])
        show "malloc_loop s request (of_nat ob) (of_nat ?b) = take_block s2 request (of_nat ob) (of_nat ?b) (nptr s1 ?b x)"
          using 1(1) True 2(1,2) ne by (simp only: step simp_thms if_True if_False bind.bind_lunit prod.case head_def not_True_eq_False not_False_eq_True)
        show "nptr s1 = nptr s2" using keptD(1) [OF 2(4)] by simp
      qed
    next
      case Nil
      then have pop: "list_pop s1 (head s1 ?b) = Some (NULL, s1)" "free_nodes L1 U ?b = {}"
        using pop_ok [OF 1(2) L1 b27(1)] by auto
      note bl = coreD(2,3) [OF 1(2)]
      show ?thesis
      proof (cases "L1 = ?b")
        case False
        have "(of_nat ?b :: addr) \<noteq> of_nat L1"
        proof
          assume "(of_nat ?b :: addr) = of_nat L1"
          moreover have "unat (of_nat ?b :: addr) = ?b" "unat (of_nat L1 :: addr) = L1"
            using b27 bl(2) by (intro unat_of_nat32; simp)+
          ultimately show False using False by metis
        qed
        then have "malloc_loop s request (of_nat ob) (of_nat ?b) = malloc_loop s1 request (of_nat ob) (of_nat a)"
          using 1(1) True pop(1) ne bl(1)
          by (simp only: step simp_thms if_True if_False bind.bind_lunit prod.case head_def not_True_eq_False not_False_eq_True of_nat_Suc_minus)
        with Suc.IH [OF 1(2) b27(3) Suc.prems(3)] show ?thesis using taken_trans [OF 1(3)] by metis
      next
        case L: True
        have U: "U \<noteq> {}" using pop(2) L free_nodes_empty [of ?b ?b] b27 by auto
        obtain ok2 s2 L2 fl2 where 2: "lower_bucket_limit s1 (of_nat a) = Some (ok2, s2)" "core s2 L2 U fl2" "kept U s1 s2"
          "ok2 \<longrightarrow> L2 = min a L1" using lower_ok [OF 1(2) b27(2)] by blast
        note k2 = kept_trans [OF 1(3) 2(3)]
        have pre: "malloc_loop s request (of_nat ob) (of_nat ?b) = (if \<not> ok2 then Some (NULL, s2) else do {
            (p, s) \<leftarrow> list_pop s2 (bucket_head s2 (of_nat ?b)); take_block s request (of_nat ob) (of_nat ?b) p })"
          using 1(1) True pop(1) ne bl(1) L nz 2(1)
          by (simp only: step simp_thms if_True if_False bind.bind_lunit prod.case head_def not_True_eq_False not_False_eq_True of_nat_Suc_minus simp_thms)
        show ?thesis
        proof (cases ok2)
          case False
          with pre taken_null [OF k2 2(2)] show ?thesis by auto
        next
          case ok2: True
          then have L2: "L2 = a" using 2(4) L by simp
          have w: "wf_tree (Suc a) U" using coreD(4) [OF 1(2)] L by simp
          have "set (fl2 ?b) = {1}"
            using coreD(7) [OF 2(2), of ?b] higher_root(3) [OF w U b27(1), of ?b] L2 b27 by simp
          then have fl2: "fl2 ?b = [1]"
            using listsD(1) [OF coreD(6) [OF 2(2)], of ?b] L2 b27 distinct_single by simp
          have "L2 \<le> ?b" using L2 by simp
          from pop_ok [OF 2(2) this b27(1)] fl2 obtain s3 where 3: "list_pop s2 (head s2 ?b) = Some (nptr s2 ?b 1, s3)"
            "core_but {(?b, 1)} s3 L2 U (fl2(?b := []))" "kept U s2 s3" "1 \<in> free_nodes L2 U ?b" "reach s3 ?b 1" by auto
          show ?thesis
          proof (rule taken [OF _ kept_trans [OF k2 3(3)] _ 3(2,4,5)])
            show "malloc_loop s request (of_nat ob) (of_nat ?b) = take_block s3 request (of_nat ob) (of_nat ?b) (nptr s2 ?b 1)"
              using pre ok2 3(1) by (simp only: if_False head_def bind.bind_lunit prod.case not_True_eq_False not_False_eq_True)
            show "nptr s2 = nptr s3" using keptD(1) [OF 3(3)] by simp
          qed
        qed
      qed
    qed
  qed
qed

text \<open>The header words of the blocks in use hold their requests, which \<open>mm_free\<close> computes the bucket from.\<close>

definition headed :: "buddy \<Rightarrow> (nat \<times> nat) set \<Rightarrow> bool" where
  "headed s U \<longleftrightarrow> (\<forall>(b, k) \<in> U. full s b k \<and> unat (ld32 (bytes s) (nptr s b k)) + 8 \<le> 2 ^ (31 - b)
     \<and> bucket_for_request (ld32 (bytes s) (nptr s b k) + 8) = Some (of_nat b))"

lemma headedD:
  assumes "headed s U" "(b, k) \<in> U"
  shows "full s b k" "unat (ld32 (bytes s) (nptr s b k)) + 8 \<le> 2 ^ (31 - b)"
    "bucket_for_request (ld32 (bytes s) (nptr s b k) + 8) = Some (of_nat b)"
  using assms by (auto simp: headed_def)

lemma kept_header:
  assumes k: "kept U s s'" and u: "(b, k) \<in> U" "full s b k" "b \<le> 27"
  shows "ld32 (bytes s') (nptr s' b k) = ld32 (bytes s) (nptr s b k)"
  unfolding keptD(1) [OF k]
  by (rule ld32_cong) (use keptD(5) [OF k u(1,2)] size_16 [OF u(3)] in simp)

lemma headed_kept:
  assumes k: "kept U s s'" and h: "headed s U" and w: "wf_tree L U"
  shows "headed s' U"
proof -
  have "full s' b j \<and> unat (ld32 (bytes s') (nptr s' b j)) + 8 \<le> 2 ^ (31 - b)
     \<and> bucket_for_request (ld32 (bytes s') (nptr s' b j) + 8) = Some (of_nat b)" if u: "(b, j) \<in> U" for b j
    using headedD [OF h u] kept_header [OF k u _ wf_treeD(2) [OF w u]] keptD(2) [OF k] by metis
  then show ?thesis unfolding headed_def by blast
qed

lemma core_base: "core s L U fl \<Longrightarrow> base_ptr s \<noteq> NULL"
  using layoutD(1,2) [OF coreD(1)] by (auto simp: geom_def)

lemma mm_malloc_buddy_ok:
  assumes c: "core s L U fl" and h: "headed s U" and r: "unat request + 8 < 2 ^ 32"
  shows "\<exists>p s'. mm_malloc_buddy s request = Some (p, s') \<and> same_storage s s'
    \<and> (p = NULL \<and> (\<exists>L fl. core s' L U fl) \<and> kept U s s'
      \<or> (\<exists>b k L fl. (b, k) \<notin> U \<and> p = nptr s b k + 8 \<and> core s' L (insert (b, k) U) fl \<and> kept U s s'
          \<and> headed s' (insert (b, k) U) \<and> ld32 (bytes s') (nptr s b k) = request))"
proof -
  have u: "unat (request + HEADER_SIZE) = unat request + 8"
    using unat_add_of_nat32 [of request 8] r by (simp add: HEADER_SIZE_def)
  have m: "request + HEADER_SIZE > MAX_ALLOC \<longleftrightarrow> 2 ^ 31 < unat request + 8"
    unfolding word_less_nat_alt u by (simp add: MAX_ALLOC_def MAX_ALLOC_LOG2_def push_bit_eq_mult)
  show ?thesis
  proof (cases "2 ^ 31 < unat request + 8")
    case True
    then have "mm_malloc_buddy s request = Some (NULL, s)" using m by (simp add: mm_malloc_buddy_def)
    with c show ?thesis by (intro exI [of _ NULL] exI [of _ s]) auto
  next
    case False
    then obtain e where e: "bucket_for_request (request + HEADER_SIZE) = Some (of_nat (31 - e))" "4 \<le> e" "e \<le> 31"
      "unat (request + HEADER_SIZE) \<le> 2 ^ e" using bucket_for_request_ok [of "request + HEADER_SIZE"] u by (metis linorder_not_less)
    define b where "b = 31 - e"
    have b: "b \<le> 27" "e = 31 - b" using e(2,3) by (simp_all add: b_def)
    obtain p s' where s': "malloc_loop s request (of_nat b) (of_nat b) = Some (p, s')" "taken s U request b p s'"
      using malloc_loop_ok [OF c order_refl b(1)] by blast
    have "mm_malloc_buddy s request = Some (p, s')"
      using m False e(1) s'(1) core_base [OF c] unfolding b_def [symmetric]
      by (simp add: mm_malloc_buddy_def)
    moreover have k: "kept U s s'" using s'(2) by (simp add: taken_def)
    moreover have "headed s' (insert (b, k) U)" if "full s' b k" "ld32 (bytes s') (nptr s b k) = request" for k
    proof -
      have "headed s' U" by (rule headed_kept [OF k h coreD(4) [OF c]])
      moreover have "unat request + 8 \<le> 2 ^ (31 - b)" using e(4) u b(2) by simp
      moreover have "request + 8 = request + HEADER_SIZE" by (simp add: HEADER_SIZE_def)
      ultimately show ?thesis
        using that e(1) keptD(1) [OF k] unfolding headed_def b_def [symmetric] by auto
    qed
    ultimately show ?thesis using s'(2) keptD(4) [OF k] unfolding taken_def by blast
  qed
qed

section \<open>\<open>mm_free\<close>\<close>

lemma nptr_8_ne: "core s L U fl \<Longrightarrow> (b, k) \<in> U \<Longrightarrow> full s b k \<Longrightarrow> unat (nptr s b k + 8) = unat (nptr s b k) + 8"
proof -
  assume a: "core s L U fl" "(b, k) \<in> U" "full s b k"
  note B = used_bounds [OF a(1,2)]
  have "unat (nptr s b k + of_nat 8) = unat (mem_start_brk s) + off b k + 8"
    using block_addr [OF coreD(1) [OF a(1)], of b k 8] size_16 [of b] B by linarith
  with unat_nptr [OF coreD(1) [OF a(1)]] B show ?thesis by simp
qed

lemma mm_free_buddy_ok:
  assumes c: "core s L U fl" and h: "headed s U" and u: "(b, k) \<in> U"
  shows "\<exists>s' L' fl'. mm_free_buddy s (nptr s b k + 8) = Some s' \<and> core s' L' (U - {(b, k)}) fl' \<and> kept (U - {(b, k)}) s s'"
proof -
  let ?V = "U - {(b, k)}"
  note H = headedD [OF h u] and B = used_bounds [OF c u] and D = coreD [OF c]
  have UV: "core s L (insert (b, k) ?V) fl" using c u by (simp add: insert_absorb)
  have r: "reach s b k" using H(1) size_16 [of b] B by (auto simp: reach_def full_def)
  obtain s1 c1 j fl1 where 1: "merge_up s (node b k) (of_nat b) = Some (node c1 j, of_nat c1, s1)"
    "core_but {(c1, j)} s1 L ?V fl1" "j \<in> free_nodes L ?V c1" "reach s1 c1 j" "kept ?V s s1"
    using merge_up_ok [OF UV _ r] by blast
  note B1 = free_bounds [OF 1(3)]
  obtain s2 where 2: "list_push s1 (head s1 c1) (nptr s1 c1 j) = Some s2" "core s2 L ?V (fl1(c1 := j # fl1 c1))" "kept ?V s1 s2"
    using push_back [OF 1(2-4)] by blast
  have "unat (nptr s b k + 8) \<noteq> 0" using nptr_8_ne [OF c u H(1)] by simp
  then have nz: "nptr s b k + 8 \<noteq> NULL" by auto
  have "mm_free_buddy s (nptr s b k + 8) = Some s2"
    using nz header_ok(1) [OF c u H(1)] H(3) node_for_ptr_eq [of b k s] B 1(1) 2(1) ptr_for_node_eq [OF B1(2,3), of s1]
    by (simp add: mm_free_buddy_def HEADER_SIZE_def head_def)
  with 2 kept_trans [OF 1(5) 2(3)] show ?thesis by blast
qed

section \<open>\<open>mm_init\<close>\<close>

text \<open>An empty heap for \<open>mm_init\<close>: its tree is one free node of the smallest size. The bit array is left as it is.\<close>

definition empty_heap :: "buddy \<Rightarrow> bool" where
  "empty_heap s \<longleftrightarrow> layout (s\<lparr>base_ptr := mem_start_brk s\<rparr>) \<and> mem_brk s = mem_start_brk s"

definition one_free :: "buddy \<Rightarrow> bool" where
  "one_free s \<longleftrightarrow> layout s \<and> bucket_limit s = of_nat 27 \<and> lists s 27 27 {} ((\<lambda>_. [])(27 := [0]))"

lemma mm_init_lists:
  assumes f: "empty_heap s"
  shows "\<exists>s'. mm_init_buddy s = Some (0, s') \<and> one_free s' \<and> same_storage s s' \<and> node_is_split s' = node_is_split s
    \<and> buckets_addr s' = buckets_addr s"
proof -
  let ?p = "mem_start_brk s"
  let ?s = "s\<lparr>base_ptr := ?p, max_ptr := ?p, bucket_limit := BUCKET_COUNT - 1\<rparr>"
  have "layout ?s = layout (s\<lparr>base_ptr := ?p\<rparr>)" by (simp add: layout_def geom_def)
  with f have l: "layout ?s" and brk: "mem_brk s = ?p" by (simp_all add: empty_heap_def)
  note D = layoutD [OF l, simplified]
  have "geom ?s = geom s" by (simp add: geom_def)
  with layoutD(1) [OF l] have g: "geom s" by blast
  have sbrk: "mem_sbrk s 0 = (?p, s)"
    using mem_sbrk_cases [OF g, of 0] brk g unat_max_addr [OF g] unat_lt32 [of "mem_brk s"] by (auto simp: MAX_HEAP_def)
  have u8: "unat (?p + SIZEOF_LIST_T) = unat ?p + 8"
    using unat_add_of_nat32 [of ?p 8] D(3) by (simp add: SIZEOF_LIST_T_def)
  have "unat (?p + SIZEOF_LIST_T) + 1 < 2 ^ 32" using u8 D(3) by simp
  from update_max_ptr_ok [OF l this] obtain ok s1 where
    1: "update_max_ptr ?s (?p + SIZEOF_LIST_T) = (ok, s1)" "layout s1" "same_storage ?s s1" "base_ptr s1 = ?p"
      "bucket_limit s1 = BUCKET_COUNT - 1" "node_is_split s1 = node_is_split s" "buckets_addr s1 = buckets_addr s"
      "ok \<longrightarrow> unat (?p + SIZEOF_LIST_T) < unat (mem_brk s1)"
      "\<not> ok \<longrightarrow> unat ?p + MAX_HEAP < unat (?p + SIZEOF_LIST_T) + 1"
    by auto
  have ok: "unat ?p + 8 < unat (mem_brk s1)" using 1(8,9) u8 D(3) by (auto simp: MAX_HEAP_def)
  have bc: "BUCKET_COUNT - 1 = (of_nat 27 :: addr)" by (simp add: BUCKET_COUNT_def MAX_ALLOC_LOG2_def MIN_ALLOC_LOG2_def)
  have w: "wf_tree 27 {}" by (simp add: wf_tree_def)
  have "lists s1 (Suc 27) 27 {} (\<lambda>_. [])" unfolding lists_def by simp linarith
  from lists_init [OF 1(2) w this] obtain s2 where 2: "list_init s1 (head s1 27) = Some s2"
    "lists s2 27 27 {} ((\<lambda>_. [])(27 := []))" "links_only 27 {} s1 s2" by auto
  note S2 = links_only_same [OF 2(3)]
  have l2: "layout s2" using 1(2) S2 by simp
  have r: "reach s2 27 0" unfolding S2(3) using ok 1(3) by (simp add: reach_def off_def same_storage_def)
  have fn: "free_nodes 27 {} b = (if b = 27 then {0} else {})" for b by (rule free_nodes_empty) simp
  from lists_push [OF l2 w 2(2) _ _ _ _ r] obtain s3 where 3: "list_push s2 (head s2 27) (nptr s2 27 0) = Some s3"
    "lists s3 27 27 {} ((\<lambda>_. [])(27 := [0]))" "links_only 27 {} s2 s3" by (auto simp: fn)
  note S3 = links_only_same [OF 3(3)]
  have "one_free s3" using S3(4,6) S2(6) l2 1(5) bc 3(2) by (simp add: one_free_def)
  moreover have "same_storage s s3" using 1(3) S2 S3 by (simp add: same_storage_def)
  moreover have "mm_init_buddy s = Some (0, s3)"
    using sbrk 1(1,4) 2(1) 3(1) S2(8) unfolding mm_init_buddy_def bc
    by (simp add: Let_def head_def nptr_0 BUCKET_COUNT_def MAX_ALLOC_LOG2_def MIN_ALLOC_LOG2_def)
  ultimately show ?thesis using 1(6,7) S2 S3 by auto
qed

text \<open>
  When no bit of an inner node is set, that is a tree without used nodes: after the loader has cleared the bit array, and after
  every block has been freed.
\<close>

definition clear_heap :: "buddy \<Rightarrow> bool" where
  "clear_heap s \<longleftrightarrow> empty_heap s \<and> (\<forall>c < 27. \<forall>j < 2 ^ c. \<not> sbit s c j)"

definition fresh_heap :: "buddy \<Rightarrow> bool" where
  "fresh_heap s \<longleftrightarrow> empty_heap s \<and> (\<forall>i. node_is_split s i = 0)"

lemma sbit_same: "node_is_split s' = node_is_split s \<Longrightarrow> sbit s' c j = sbit s c j"
  by (simp add: sbit_def parent_is_split_def)

lemma fresh_clear: "fresh_heap s \<Longrightarrow> clear_heap s"
  by (simp add: fresh_heap_def clear_heap_def sbit_def parent_is_split_def Let_def split: Option.bind_splits)

lemma mm_init_buddy_ok:
  assumes f: "clear_heap s"
  shows "\<exists>s' fl. mm_init_buddy s = Some (0, s') \<and> core s' 27 {} fl \<and> same_storage s s'"
proof -
  obtain s' where s': "mm_init_buddy s = Some (0, s')" "one_free s'" "same_storage s s'" "node_is_split s' = node_is_split s"
    using mm_init_lists [of s] f by (auto simp: clear_heap_def)
  have "sbit s' c j = split_bit 27 {} c j" if "c < 27" "j < 2 ^ c" for c j
    using f that sbit_same [OF s'(4)] by (simp add: clear_heap_def split_bit_def)
  then have "core s' 27 {} ((\<lambda>_. [])(27 := [0]))"
    using s'(2) free_nodes_empty [of 27] by (simp add: core_def one_free_def wf_tree_def)
  with s'(1,3) show ?thesis by blast
qed

lemma core_empty_clear:
  assumes c: "core s L {} fl"
  shows "clear_heap (mem_reset_brk s)"
proof -
  have "layout ((mem_reset_brk s)\<lparr>base_ptr := mem_start_brk s\<rparr>)"
    using coreD(1) [OF c] by (auto simp: layout_def geom_def mem_reset_brk_def)
  moreover have "\<not> sbit (mem_reset_brk s) b j" if "b < 27" "j < 2 ^ b" for b j
    using coreD(5) [OF c that] sbit_same [of "mem_reset_brk s" s] by (simp add: split_bit_def mem_reset_brk_def)
  ultimately show ?thesis by (simp add: clear_heap_def empty_heap_def mem_reset_brk_def)
qed

section \<open>The client's view\<close>

definition payload :: "buddy \<Rightarrow> nat \<Rightarrow> addr \<Rightarrow> byte list" where
  "payload s b p = map (\<lambda>i. bytes s (p + of_nat i)) [0..<2 ^ (31 - b) - 8]"

definition view :: "buddy \<Rightarrow> (nat \<times> nat) set \<Rightarrow> (addr \<rightharpoonup> byte list) \<Rightarrow> bool" where
  "view s U Lm \<longleftrightarrow> (\<forall>p cs. Lm p = Some cs \<longleftrightarrow> (\<exists>b k. (b, k) \<in> U \<and> p = nptr s b k + 8 \<and> cs = payload s b p))"

definition repr_buddy :: "buddy \<Rightarrow> (addr \<rightharpoonup> byte list) \<Rightarrow> bool" where
  "repr_buddy s Lm \<longleftrightarrow> (\<exists>L U fl. core s L U fl \<and> headed s U \<and> view s U Lm)"

lemma viewE:
  assumes "view s U Lm" "Lm p = Some cs"
  obtains b k where "(b, k) \<in> U" "p = nptr s b k + 8" "cs = payload s b p"
  using assms unfolding view_def by blast

lemma view_none: "view s U Lm \<Longrightarrow> \<nexists>b k. (b, k) \<in> U \<and> p = nptr s b k + 8 \<Longrightarrow> Lm p = None"
  by (metis not_None_eq viewE)

lemma viewD: "view s U Lm \<Longrightarrow> (b, k) \<in> U \<Longrightarrow> Lm (nptr s b k + 8) = Some (payload s b (nptr s b k + 8))"
  unfolding view_def by blast

lemma payload_kept:
  assumes k: "kept U s s'" and u: "(b, j) \<in> U" "full s b j"
  shows "payload s' b (nptr s b j + 8) = payload s b (nptr s b j + 8)"
proof -
  have "bytes s' (nptr s b j + 8 + of_nat i) = bytes s (nptr s b j + 8 + of_nat i)" if "i < 2 ^ (31 - b) - 8" for i
    using keptD(5) [OF k u, of "8 + i"] that by (simp add: add.assoc)
  then show ?thesis by (simp add: payload_def)
qed

lemma nptr_inj:
  assumes c: "core s L U fl" and u: "(b, k) \<in> U" "(c, j) \<in> U" and e: "nptr s b k + 8 = nptr s c j + (8 :: addr)"
  shows "(b, k) = (c, j)"
proof (rule ccontr)
  assume ne: "(b, k) \<noteq> (c, j)"
  note B = used_bounds [OF c u(1)] and C = used_bounds [OF c u(2)]
  have "off b k = off c j"
    using e unat_nptr [OF coreD(1) [OF c]] B C by (metis add_right_cancel add_left_cancel)
  moreover have "off b k + 2 ^ (31 - b) \<le> off c j \<or> off c j + 2 ^ (31 - c) \<le> off b k"
    by (rule leaves_apart [OF coreD(4) [OF c] _ _ ne]) (use u in \<open>simp_all add: leaf_def\<close>)
  ultimately show False by simp
qed

lemma payload_place:
  assumes c: "core s L U fl" and h: "headed s U" and u: "(b, k) \<in> U" and p: "p = nptr s b k + 8"
  shows "unat p = unat (mem_start_brk s) + off b k + 8" "8 \<le> length (payload s b p)" "8 dvd unat p"
    "unat p + length (payload s b p) = unat (mem_start_brk s) + off b k + 2 ^ (31 - b)"
    "unat p + length (payload s b p) \<le> unat (mem_brk s)"
proof -
  note B = used_bounds [OF c u] and F = headedD(1) [OF h u]
  show up: "unat p = unat (mem_start_brk s) + off b k + 8"
    unfolding p using nptr_8_ne [OF c u F] unat_nptr [OF coreD(1) [OF c]] B by simp
  have s16: "16 \<le> (2 :: nat) ^ (31 - b)" using size_16 B by blast
  then show "8 \<le> length (payload s b p)" by (simp add: payload_def)
  show e: "unat p + length (payload s b p) = unat (mem_start_brk s) + off b k + 2 ^ (31 - b)"
    using s16 by (simp add: up payload_def)
  show "unat p + length (payload s b p) \<le> unat (mem_brk s)" unfolding e using F by (simp add: full_def)
  have "3 \<le> 31 - b" using B by linarith
  then have "8 dvd (2 :: nat) ^ (31 - b)" using le_imp_power_dvd [of 3 "31 - b" "2 :: nat"] by simp
  then have "8 dvd off b k" by (simp add: off_def)
  moreover have "8 dvd unat (mem_start_brk s)" using layoutD(1) [OF coreD(1) [OF c]] by (simp add: geom_def)
  ultimately show "8 dvd unat p" unfolding up by simp
qed

text \<open>Two states with the same blocks in use, the client's payloads kept.\<close>

lemma repr_kept:
  assumes c: "core s L U fl" "headed s U" and v: "view s U Lm"
    and c': "core s' L' V fl'" "headed s' V" and k: "kept V s s'" and VU: "V \<subseteq> U"
  shows "repr_buddy s' (\<lambda>p. if \<exists>b k. (b, k) \<in> V \<and> p = nptr s b k + 8 then Lm p else None)" (is "repr_buddy s' ?L")
proof -
  have pk: "payload s' b (nptr s b j + 8) = payload s b (nptr s b j + 8)" if "(b, j) \<in> V" for b j
    using payload_kept [OF k that] headedD(1) [OF c(2)] that VU by blast
  have "?L p = Some cs \<longleftrightarrow> (\<exists>b k. (b, k) \<in> V \<and> p = nptr s' b k + 8 \<and> cs = payload s' b p)" for p cs
    unfolding keptD(1) [OF k]
  proof
    assume "?L p = Some cs"
    then obtain b k where b: "(b, k) \<in> V" "p = nptr s b k + 8" "Lm p = Some cs" by (auto split: if_splits)
    moreover have "cs = payload s b p" using viewD [OF v] b VU by auto
    ultimately show "\<exists>b k. (b, k) \<in> V \<and> p = nptr s b k + 8 \<and> cs = payload s' b p" using pk [OF b(1)] b(1,2) by metis
  next
    assume "\<exists>b k. (b, k) \<in> V \<and> p = nptr s b k + 8 \<and> cs = payload s' b p"
    then obtain b k where b: "(b, k) \<in> V" "p = nptr s b k + 8" "cs = payload s' b p" by blast
    then have "Lm p = Some cs" using viewD [OF v] pk [OF b(1)] VU by auto
    with b(1,2) show "?L p = Some cs" by auto
  qed
  with c' show ?thesis unfolding repr_buddy_def view_def by blast
qed

lemma buddy_block:
  assumes "repr_buddy s Lm" "Lm p = Some cs"
  obtains L U fl b k where "core s L U fl" "headed s U" "view s U Lm" "(b, k) \<in> U" "p = nptr s b k + 8" "cs = payload s b p"
  using assms unfolding repr_buddy_def by (meson viewE)

lemma buddy_geom: "repr_buddy s Lm \<Longrightarrow> geom s"
  unfolding repr_buddy_def using coreD(1) layoutD(1) by blast

lemma buddy_disjoint:
  assumes r: "repr_buddy s Lm" and p: "Lm p = Some cs" "Lm q = Some ds" "p \<noteq> q"
  shows "unat p + length cs \<le> unat q \<or> unat q + length ds \<le> unat p"
proof -
  obtain L U fl b k where c: "core s L U fl" "headed s U" "view s U Lm" "(b, k) \<in> U" "p = nptr s b k + 8" "cs = payload s b p"
    using r p(1) by (rule buddy_block)
  obtain d j where d: "(d, j) \<in> U" "q = nptr s d j + 8" "ds = payload s d q" using c(3) p(2) by (rule viewE)
  have ne: "(b, k) \<noteq> (d, j)" using p(3) c(5) d(2) by auto
  have "off b k + 2 ^ (31 - b) \<le> off d j \<or> off d j + 2 ^ (31 - d) \<le> off b k"
    by (rule leaves_apart [OF coreD(4) [OF c(1)] _ _ ne]) (use c(4) d(1) in \<open>simp_all add: leaf_def\<close>)
  with payload_place(1,4) [OF c(1,2,4,5), folded c(6)] payload_place(1,4) [OF c(1,2) d(1,2), folded d(3)]
  show ?thesis by linarith
qed

lemma buddy_write:
  assumes r: "repr_buddy s Lm" and p: "Lm p = Some cs"
    and m: "\<And>a. \<not> unat (a - p) < length cs \<Longrightarrow> m a = bytes s a"
  shows "repr_buddy (s\<lparr>bytes := m\<rparr>) (Lm(p \<mapsto> map (\<lambda>k. m (p + of_nat k)) [0..<length cs]))"
proof -
  let ?s = "s\<lparr>bytes := m\<rparr>"
  obtain L U fl b k where c: "core s L U fl" "headed s U" and v: "view s U Lm"
    and u: "(b, k) \<in> U" "p = nptr s b k + 8" "cs = payload s b p" using r p by (rule buddy_block)
  note P = payload_place [OF c u(1,2), folded u(3)] and B = used_bounds [OF c(1) u(1)] and F = headedD(1) [OF c(2) u(1)]
  have un: "unat (nptr s b k) + 8 = unat p" using nptr_8_ne [OF c(1) u(1) F] u(2) by simp
  have top: "unat p + length cs \<le> 2 ^ 32" using P(5) unat_lt32 [of "mem_brk s"] by linarith
  have bl: "unat (nptr s b k) + 2 ^ (31 - b) = unat p + length cs" using P(1,4) un by linarith
  have m': "m a = bytes s a" if "\<not> unat (a - nptr s b k) < 2 ^ (31 - b)" for a
  proof (rule m)
    have "unat (nptr s b k) + 2 ^ (31 - b) \<le> 2 ^ 32" using top bl by linarith
    from that [unfolded unat_diff_less_iff [OF this]] show "\<not> unat (a - p) < length cs"
      unfolding unat_diff_less_iff [OF top] using bl un by linarith
  qed
  have c': "core ?s L U fl" by (rule core_write [OF c(1) u(1) F m'])
  have k: "kept (U - {(b, k)}) s ?s" by (rule write_kept [OF c(1) u(1) m'])
  have hd: "ld32 m (nptr s b k) = ld32 (bytes s) (nptr s b k)"
  proof (rule ld32_cong, rule m)
    fix i :: nat
    assume "i < 4"
    then have "unat (nptr s b k + of_nat i) < unat p" using unat_add_of_nat32 [of "nptr s b k" i] un top by simp
    then show "\<not> unat (nptr s b k + of_nat i - p) < length cs" unfolding unat_diff_less_iff [OF top] by linarith
  qed
  have np: "nptr ?s = nptr s" by (intro ext) (simp add: nptr_def)
  have other: "full ?s d j \<and> ld32 (bytes ?s) (nptr ?s d j) = ld32 (bytes s) (nptr s d j)" if d: "(d, j) \<in> U" for d j
  proof (cases "(d, j) = (b, k)")
    case False
    then have "(d, j) \<in> U - {(b, k)}" using d by blast
    from kept_header [OF k this headedD(1) [OF c(2) d]] used_bounds [OF c(1) d] headedD(1) [OF c(2) d]
    show ?thesis by (simp add: full_def)
  qed (use hd F np in \<open>simp add: full_def\<close>)
  have "full ?s d j \<and> unat (ld32 (bytes ?s) (nptr ?s d j)) + 8 \<le> 2 ^ (31 - d)
      \<and> bucket_for_request (ld32 (bytes ?s) (nptr ?s d j) + 8) = Some (of_nat d)" if "(d, j) \<in> U" for d j
    using other [OF that] headedD(2,3) [OF c(2) that] by (simp only: simp_thms)
  then have h': "headed ?s U" unfolding headed_def by blast
  have own: "payload ?s b p = map (\<lambda>k. m (p + of_nat k)) [0..<length cs]" by (simp add: payload_def u(3))
  have pl: "payload ?s d (nptr s d j + 8) = payload s d (nptr s d j + 8)" if "(d, j) \<in> U" "(d, j) \<noteq> (b, k)" for d j
    using payload_kept [OF k _ headedD(1) [OF c(2) that(1)]] that by blast
  have "(Lm(p \<mapsto> payload ?s b p)) q = Some ds \<longleftrightarrow> (\<exists>d j. (d, j) \<in> U \<and> q = nptr s d j + 8 \<and> ds = payload ?s d q)" for q ds
  proof (cases "q = p")
    case True
    have "d = b" if d: "(d, j) \<in> U" "p = nptr s d j + 8" for d j
    proof -
      have "nptr s b k + 8 = nptr s d j + 8" by (rule trans [OF u(2) [symmetric] d(2)])
      from nptr_inj [OF c(1) u(1) d(1) this] show ?thesis by simp
    qed
    with True u(1,2) show ?thesis by (metis fun_upd_same option.inject)
  next
    case False
    then have "(Lm(p \<mapsto> payload ?s b p)) q = Some ds \<longleftrightarrow> (\<exists>d j. (d, j) \<in> U \<and> q = nptr s d j + 8 \<and> ds = payload s d q)"
      using v by (simp add: view_def)
    also have "\<dots> \<longleftrightarrow> (\<exists>d j. (d, j) \<in> U \<and> q = nptr s d j + 8 \<and> ds = payload ?s d q)"
    proof -
      have "payload ?s d q = payload s d q" if d: "(d, j) \<in> U" "q = nptr s d j + 8" for d j
      proof -
        have "(d, j) \<noteq> (b, k)" using d(2) u(2) False by auto
        from pl [OF d(1) this] d(2) show ?thesis by simp
      qed
      then show ?thesis by metis
    qed
    finally show ?thesis .
  qed
  then have "view ?s U (Lm(p \<mapsto> payload ?s b p))" unfolding view_def np by blast
  with c' h' show ?thesis unfolding own repr_buddy_def by blast
qed

interpretation buddy: live_heap repr_buddy
proof unfold_locales
  fix s :: buddy and Lm p cs
  assume r: "repr_buddy s Lm" and p: "Lm p = Some cs"
  obtain L U fl b k where c: "core s L U fl" "headed s U" "view s U Lm" "(b, k) \<in> U" "p = nptr s b k + 8" "cs = payload s b p"
    using r p by (rule buddy_block)
  note P = payload_place [OF c(1,2,4,5), folded c(6)]
  from P show "0 < length cs \<and> 8 dvd unat p \<and> unat (mem_start_brk s) \<le> unat p \<and> unat p + length cs \<le> unat (mem_brk s)"
    by linarith
  show "bytes s (p + of_nat k) = cs ! k" if "k < length cs" for k
    using that c(6) by (simp add: payload_def)
qed (fact buddy_geom buddy_disjoint buddy_write)+

text \<open>The three operations on the live map.\<close>

lemma buddy_init_ok: "clear_heap s \<Longrightarrow> \<exists>s'. mm_init_buddy s = Some (0, s') \<and> repr_buddy s' Map.empty \<and> same_storage s s'"
  using mm_init_buddy_ok [of s] unfolding repr_buddy_def view_def headed_def by (metis empty_iff option.simps(3))

lemma buddy_malloc_ok:
  assumes r: "repr_buddy s Lm" and sz: "unat sz + 8 < 2 ^ 32"
  shows "\<exists>p s'. mm_malloc_buddy s sz = Some (p, s') \<and> same_storage s s'
    \<and> (if p = NULL then repr_buddy s' Lm else Lm p = None \<and> (\<exists>cs. unat sz \<le> length cs \<and> repr_buddy s' (Lm(p \<mapsto> cs))))"
proof -
  obtain L U fl where c: "core s L U fl" "headed s U" "view s U Lm" using r unfolding repr_buddy_def by blast
  obtain p s' where m: "mm_malloc_buddy s sz = Some (p, s')" "same_storage s s'"
    and p: "p = NULL \<and> (\<exists>L fl. core s' L U fl) \<and> kept U s s'
      \<or> (\<exists>b k L fl. (b, k) \<notin> U \<and> p = nptr s b k + 8 \<and> core s' L (insert (b, k) U) fl \<and> kept U s s'
          \<and> headed s' (insert (b, k) U) \<and> ld32 (bytes s') (nptr s b k) = sz)"
    using mm_malloc_buddy_ok [OF c(1,2) sz] by blast
  have all: "(\<lambda>p. if \<exists>b k. (b, k) \<in> U \<and> p = nptr s b k + 8 then Lm p else None) = Lm"
    using view_none [OF c(3)] by (auto simp: fun_eq_iff)
  from p show ?thesis
  proof (elim disjE conjE exE)
    fix L1 fl1
    assume a: "p = NULL" "core s' L1 U fl1" "kept U s s'"
    have "repr_buddy s' Lm"
      using repr_kept [OF c a(2) headed_kept [OF a(3) c(2) coreD(4) [OF c(1)]] a(3) order_refl] unfolding all .
    with m a(1) show ?thesis by auto
  next
    fix b k L1 fl1
    assume a: "(b, k) \<notin> U" "p = nptr s b k + 8" "core s' L1 (insert (b, k) U) fl1" "kept U s s'"
      "headed s' (insert (b, k) U)" "ld32 (bytes s') (nptr s b k) = sz"
    note np = keptD(1) [OF a(4)] and h = headedD [OF a(5) insertI1]
    have p': "p = nptr s' b k + 8" using a(2) np by simp
    note P = payload_place [OF a(3,5) insertI1 p']
    have "p \<noteq> NULL" using P(1) by auto
    have "nptr s b k + 8 \<noteq> nptr s d j + (8 :: addr)" if "(d, j) \<in> U" for d j
      using nptr_inj [OF a(3) insertI1, of d j] that a(1) np by (metis insertI2)
    then have fresh: "Lm p = None" using c(3) a(2) by (metis not_None_eq viewE)
    have len: "unat sz \<le> length (payload s' b p)" using h(2) a(6) np by (simp add: payload_def)
    have pk: "payload s' d (nptr s d j + 8) = payload s d (nptr s d j + 8)" if "(d, j) \<in> U" for d j
      by (rule payload_kept [OF a(4) that headedD(1) [OF c(2) that]])
    have "(Lm(p \<mapsto> payload s' b p)) q = Some cs
        \<longleftrightarrow> (\<exists>d j. (d, j) \<in> insert (b, k) U \<and> q = nptr s d j + 8 \<and> cs = payload s' d q)" for q cs
    proof (cases "q = p")
      case True
      have "(d, j) = (b, k)" if "(d, j) \<in> insert (b, k) U" "p = nptr s d j + 8" for d j
        using nptr_inj [OF a(3) that(1) insertI1] that(2) a(2) np by metis
      with True a(2) show ?thesis by (metis Pair_inject fun_upd_same insertI1 option.inject)
    next
      case False
      then have "(Lm(p \<mapsto> payload s' b p)) q = Some cs \<longleftrightarrow> (\<exists>d j. (d, j) \<in> U \<and> q = nptr s d j + 8 \<and> cs = payload s d q)"
        using c(3) by (simp add: view_def)
      with False a(2) pk show ?thesis by (metis insertE insertI2 Pair_inject)
    qed
    then have "view s' (insert (b, k) U) (Lm(p \<mapsto> payload s' b p))" unfolding view_def np by blast
    with a(3,5) have "repr_buddy s' (Lm(p \<mapsto> payload s' b p))" unfolding repr_buddy_def by blast
    with m \<open>p \<noteq> NULL\<close> fresh len show ?thesis by auto
  qed
qed

lemma buddy_free_ok:
  assumes r: "repr_buddy s Lm" and p: "Lm p = Some cs"
  shows "\<exists>s'. mm_free_buddy s p = Some s' \<and> same_storage s s' \<and> repr_buddy s' (Lm(p := None))"
proof -
  obtain L U fl b k where c: "core s L U fl" "headed s U" "view s U Lm" "(b, k) \<in> U" "p = nptr s b k + 8" "cs = payload s b p"
    using r p by (rule buddy_block)
  let ?V = "U - {(b, k)}"
  obtain s' L' fl' where s': "mm_free_buddy s p = Some s'" "core s' L' ?V fl'" "kept ?V s s'"
    using mm_free_buddy_ok [OF c(1,2,4)] unfolding c(5) by blast
  have "headed s ?V" using c(2) by (auto simp: headed_def)
  then have h: "headed s' ?V" by (rule headed_kept [OF s'(3) _ coreD(4) [OF s'(2)]])
  have "(if \<exists>d j. (d, j) \<in> ?V \<and> q = nptr s d j + 8 then Lm q else None) = (Lm(p := None)) q" for q
  proof (cases "q = p")
    case True
    have "(d, j) = (b, k)" if "(d, j) \<in> U" "p = nptr s d j + 8" for d j
      using nptr_inj [OF c(1) that(1) c(4)] that(2) c(5) by metis
    with True show ?thesis by auto
  next
    case False
    then have "(\<exists>d j. (d, j) \<in> ?V \<and> q = nptr s d j + 8) \<longleftrightarrow> (\<exists>d j. (d, j) \<in> U \<and> q = nptr s d j + 8)"
      using c(5) by blast
    with view_none [OF c(3), of q] False show ?thesis by (simp only: fun_upd_apply if_False) metis
  qed
  then have "repr_buddy s' (Lm(p := None))" using repr_kept [OF c(1,2,3) s'(2) h s'(3)] by (simp only:) blast
  with s'(1) keptD(4) [OF s'(3)] show ?thesis by blast
qed

lemma buddy_drained:
  assumes "repr_buddy s Map.empty"
  shows "clear_heap (mem_reset_brk s)"
proof -
  obtain L U fl where c: "core s L U fl" "view s U Map.empty" using assms unfolding repr_buddy_def by blast
  have "U = {}" using c(2) unfolding view_def by force
  with c(1) core_empty_clear show ?thesis by blast
qed

interpretation buddy_alloc: alloc_package repr_buddy clear_heap mm_init_buddy mm_malloc_buddy mm_free_buddy
proof unfold_locales
  show "\<exists>p s'. mm_malloc_buddy s sz = Some (p, s') \<and> same_storage s s'
      \<and> (if p = NULL then repr_buddy s' L else L p = None \<and> (\<exists>cs. unat sz \<le> length cs \<and> repr_buddy s' (L(p \<mapsto> cs))))"
    if "repr_buddy s L" "request_fits s sz" for s L sz
    using that(2) by (intro buddy_malloc_ok [OF that(1)]) (simp add: request_fits_def)
qed (rule buddy_init_ok buddy_free_ok buddy_drained; assumption)+

end
