(* ===== verification/Buddy_Cases.thy ===== *)
theory Buddy_Cases
  imports Buddy_Package
begin

text \<open>
  Particular behaviours of \<open>src/malloc/buddy.c\<close>: a request takes the block its bucket's list offers, a tree whose blocks are all
  freed is one block again, and what goes wrong: \<open>mm_init\<close> on a bit array that is not clear, and the size \<open>mm_realloc\<close> copies.
\<close>

section \<open>A block of the right size\<close>

lemma bucket_of: "b \<le> 27 \<Longrightarrow> unat (of_nat b :: addr) = b"
  by (intro unat_of_nat32) simp

lemma lower_done: "core s L U fl \<Longrightarrow> L \<le> b \<Longrightarrow> b \<le> 27 \<Longrightarrow> lower_bucket_limit s (of_nat b) = Some (True, s)"
  using coreD(2,3) [of s L U fl] by (subst lower_bucket_limit.simps) (simp add: word_less_nat_alt bucket_of)

lemma pop_some:
  assumes c: "core s L U fl" and b: "L \<le> b" "b \<le> 27" and p: "list_pop s (head s b) = Some (q, t)" "q \<noteq> NULL"
  shows "\<exists>x. q = nptr s b x \<and> core_but {(b, x)} t L U (fl(b := tl (fl b))) \<and> kept U s t \<and> x \<in> free_nodes L U b \<and> reach t b x"
  using pop_ok [OF c b] p by (cases "fl b") auto

lemma take_block_fits:
  assumes c: "core_but {(b, x)} s L U fl" and x: "x \<in> free_nodes L U b" "reach s b x"
    and fit: "off b x + 2 ^ (31 - b) < MAX_HEAP"
    and t: "take_block s request (of_nat b) (of_nat b) (nptr s b x) = Some (p, s')"
  shows "p = nptr s b x + 8"
proof -
  note D = core_butD [OF c] and B = free_bounds [OF x(1)] and N = bytes_needed_nat(1) [OF free_bounds(2) [OF x(1)] free_bounds(2) [OF x(1)]]
  have unv: "unat (nptr s b x + of_nat (2 ^ (31 - b))) = unat (mem_start_brk s) + off b x + 2 ^ (31 - b)"
    by (rule block_addr [OF D(1) B(2,3) order_refl])
  then have "unat (nptr s b x + of_nat (2 ^ (31 - b))) + 1 < 2 ^ 32"
    using off_bound [OF B(2,3)] layoutD(3) [OF D(1)] by linarith
  from update_max_ptr_ok [OF D(1) this] obtain ok s1 where
    1: "update_max_ptr s (nptr s b x + of_nat (2 ^ (31 - b))) = (ok, s1)"
    "\<not> ok \<longrightarrow> unat (mem_start_brk s) + MAX_HEAP < unat (nptr s b x + of_nat (2 ^ (31 - b))) + 1" by blast
  have ok using 1(2) unv fit by linarith
  with 1(1) t N show ?thesis
    unfolding take_block_def by (auto simp: Let_def HEADER_SIZE_def split: Option.bind_splits if_splits)
qed

text \<open>The entry \<open>list_pop\<close> takes is the last one, the one the head's \<open>prev\<close> names.\<close>

lemma last_entry_pops:
  assumes c: "core s L U fl" and b: "L \<le> b" "b \<le> 27"
    and q: "get_prev s (head s b) = Some q" "q \<noteq> head s b"
  shows "\<exists>t. list_pop s (head s b) = Some (q, t) \<and> q \<noteq> NULL"
proof (cases "fl b")
  note D = coreD [OF c]
  case Nil
  with lists_prev [OF D(1,4,6) b] q show ?thesis by simp
next
  note D = coreD [OF c]
  case (Cons x xs)
  with lists_prev [OF D(1,4,6) b] q have "q = nptr s b x" by simp
  with pop_ok [OF c b] Cons show ?thesis by auto
qed

text \<open>
  A request whose bucket's list is not empty gets that list's last entry, the one the head's \<open>prev\<close> names, if it lies within the
  storage. \<open>list_push\<close> appends at the same end, so that the block freed last is handed out first.
\<close>

lemma buddy_exact_fit:
  assumes r: "repr_buddy s Lm" and b: "bucket_for_request (sz + HEADER_SIZE) = Some bucket" "unat sz + 8 \<le> 2 ^ 31"
    and l: "bucket_limit s \<le> bucket" and q: "get_prev s (bucket_head s bucket) = Some q" "q \<noteq> bucket_head s bucket"
    and fit: "unat q + 2 ^ (31 - unat bucket) < unat (mem_max_addr s)"
  shows "\<exists>s'. mm_malloc_buddy s sz = Some (q + HEADER_SIZE, s')"
proof -
  obtain L U fl where c: "core s L U fl" "headed s U" "view s U Lm" using r unfolding repr_buddy_def by blast
  note D = coreD [OF c(1)]
  have u: "unat (sz + HEADER_SIZE) = unat sz + 8"
    using unat_add_of_nat32 [of sz 8] b(2) by (simp add: HEADER_SIZE_def)
  obtain e where e: "bucket_for_request (sz + HEADER_SIZE) = Some (of_nat (31 - e))" "4 \<le> e"
    using bucket_for_request_ok [of "sz + HEADER_SIZE"] u b(2) by auto
  define k where "k = 31 - e"
  have k: "bucket = of_nat k" "k \<le> 27" "unat bucket = k" using e b(1) bucket_of by (simp_all add: k_def)
  have Lk: "L \<le> k" using l D(2,3) k by (simp add: word_le_nat_alt bucket_of)
  have hk: "bucket_head s bucket = head s k" using k(1) by (simp add: head_def)
  obtain t where p': "list_pop s (head s k) = Some (q, t)" and nz: "q \<noteq> NULL"
    using last_entry_pops [OF c(1) Lk k(2) q [unfolded hk]] by blast
  obtain x where x: "q = nptr s k x" "core_but {(k, x)} t L U (fl(k := tl (fl k)))" "kept U s t" "x \<in> free_nodes L U k" "reach t k x"
    using pop_some [OF c(1) Lk k(2) p' nz] by blast
  note B = free_bounds [OF x(4)] and np = keptD(1) [OF x(3)]
  have fit': "off k x + 2 ^ (31 - k) < MAX_HEAP"
    using fit unat_nptr [OF D(1) B(2,3)] layoutD(6) [OF D(1)] unfolding x(1) k(3) by linarith
  obtain p1 s1 where t: "take_block t sz (of_nat k) (of_nat k) (nptr t k x) = Some (p1, s1)"
    using take_block_ok [OF x(2,4,5) order_refl k(2)] by blast
  then have p1: "p1 = nptr t k x + 8" by (rule take_block_fits [OF x(2,4,5) fit'])
  have "malloc_loop s sz (of_nat k) (of_nat k) = take_block t sz (of_nat k) (of_nat k) q"
    using lower_done [OF c(1) Lk k(2)] p' nz of_nat_plus1_ne [OF k(2)]
    by (simp only: malloc_loop.simps [of s sz] simp_thms if_True if_False bind.bind_lunit prod.case head_def not_True_eq_False)
  moreover have "\<not> sz + HEADER_SIZE > MAX_ALLOC"
    using u b(2) by (simp add: word_less_nat_alt MAX_ALLOC_def MAX_ALLOC_LOG2_def push_bit_eq_mult)
  ultimately have "mm_malloc_buddy s sz = Some (p1, s1)"
    using t e(1) core_base [OF c(1)] x(1) np unfolding k_def [symmetric] by (simp add: mm_malloc_buddy_def)
  then show ?thesis using p1 x(1) np by (simp add: HEADER_SIZE_def)
qed

section \<open>The last block freed\<close>

text \<open>Every block is freed: one list has an entry, the whole tree.\<close>

lemma all_free:
  assumes c: "core s L {} fl"
  shows "\<forall>b \<le> 27. L \<le> b \<longrightarrow> get_prev s (bucket_head s (of_nat b)) = Some (if b = L then base_ptr s else bucket_head s (of_nat b))"
proof (intro allI impI)
  fix b
  assume b: "b \<le> 27" "L \<le> b"
  note D = coreD [OF c]
  have "set (fl b) = (if b = L then {0} else {})" using D(7) [OF b(2,1)] free_nodes_empty [OF D(3)] by simp
  then have fl: "fl b = (if b = L then [0] else [])"
    using listsD(1) [OF D(6) b(2,1)] distinct_single by (auto split: if_splits)
  have v: "valid s L {} (Head b)" using b by simp
  have "get_prev s (head s b) = Some (pv s (head s b))"
    by (rule relinked_get(1) [OF cells_places [OF D(1,4)] relinked_refl placesI [OF v]]) simp
  moreover have "pv s (head s b) = hd (map (nptr s b) (fl b) @ [head s b])" by (rule path_first [OF listsD(4) [OF D(6) b(2,1)]])
  ultimately show "get_prev s (bucket_head s (of_nat b)) = Some (if b = L then base_ptr s else bucket_head s (of_nat b))"
    using fl by (auto simp: nptr_0 head_def)
qed

lemma view_single: "view s U [p \<mapsto> cs] \<Longrightarrow> core s L U fl \<Longrightarrow> \<exists>b k. U = {(b, k)} \<and> p = nptr s b k + 8"
proof -
  assume v: "view s U [p \<mapsto> cs]" and c: "core s L U fl"
  have "[p \<mapsto> cs] p = Some cs" by simp
  with v obtain b k where b: "(b, k) \<in> U" "p = nptr s b k + 8" by (rule viewE)
  have "(d, j) = (b, k)" if "(d, j) \<in> U" for d j
  proof -
    have "nptr s d j + 8 = p" using viewD [OF v that] by (simp split: if_splits)
    with nptr_inj [OF c that b(1)] b(2) show ?thesis by metis
  qed
  then have "x = (b, k)" if "x \<in> U" for x using that by (cases x) blast
  with b(1) have "U = {(b, k)}" by blast
  with b(2) show ?thesis by blast
qed

lemma buddy_free_last:
  assumes r: "repr_buddy s [p \<mapsto> cs]"
  shows "\<exists>s' L. mm_free_buddy s p = Some s' \<and> bucket_limit s' = of_nat L \<and> L \<le> 27
    \<and> (\<forall>b \<le> 27. L \<le> b \<longrightarrow> get_prev s' (bucket_head s' (of_nat b)) = Some (if b = L then base_ptr s' else bucket_head s' (of_nat b)))"
proof -
  obtain L U fl where c: "core s L U fl" "headed s U" "view s U [p \<mapsto> cs]" using r unfolding repr_buddy_def by blast
  obtain b k where u: "U = {(b, k)}" "p = nptr s b k + 8" using view_single [OF c(3,1)] by blast
  obtain s' L' fl' where f: "mm_free_buddy s p = Some s'" "core s' L' {} fl'"
    using mm_free_buddy_ok [OF c(1,2), of b k] u by auto
  show ?thesis
    by (intro exI [of _ s'] exI [of _ L'] conjI f(1) coreD(2,3) [OF f(2)] all_free [OF f(2)])
qed

section \<open>A bit array that is not clear\<close>

text \<open>The first request of a smallest block after \<open>mm_init\<close>, whatever the bits: it flips the bit above its node.\<close>

lemma bucket_16: "bucket_for_request (8 + HEADER_SIZE) = Some (of_nat 27)"
proof -
  have "unat (8 + HEADER_SIZE) = 16" by (simp add: HEADER_SIZE_def)
  then obtain e where e: "bucket_for_request (8 + HEADER_SIZE) = Some (of_nat (31 - e))" "e = 4 \<or> 2 ^ (e - 1) < (16 :: nat)" "4 \<le> e"
    using bucket_for_request_ok [of "8 + HEADER_SIZE"] by auto
  have "e = 4"
  proof (rule ccontr)
    assume "e \<noteq> 4"
    then have "2 ^ 4 \<le> (2 :: nat) ^ (e - 1)" using e(3) by (intro power_increasing) simp_all
    with e(2) \<open>e \<noteq> 4\<close> show False by simp
  qed
  with e(1) show ?thesis by simp
qed

lemma malloc_8:
  assumes l: "layout s" and bl: "bucket_limit s = of_nat 27"
    and p: "list_pop s (head s 27) = Some (p, s1)" and that: "p = NULL \<longrightarrow> s1 = s"
  shows "mm_malloc_buddy s 8 = (if p = NULL then (do {
      (ok, s) \<leftarrow> lower_bucket_limit s1 (of_nat 26);
      if \<not> ok then Some (NULL, s) else do {
        (p, s) \<leftarrow> list_pop s (bucket_head s (of_nat 27));
        take_block s 8 (of_nat 27) (of_nat 27) p } })
    else take_block s1 8 (of_nat 27) (of_nat 27) p)"
proof -
  have b: "base_ptr s \<noteq> NULL" using layoutD(1,2) [OF l] by (auto simp: geom_def)
  have "\<not> 8 + HEADER_SIZE > MAX_ALLOC"
    by (simp add: HEADER_SIZE_def MAX_ALLOC_def MAX_ALLOC_LOG2_def word_less_nat_alt push_bit_eq_mult)
  then have "mm_malloc_buddy s 8 = malloc_loop s 8 (of_nat 27) (of_nat 27)"
    using b bucket_16 by (simp add: mm_malloc_buddy_def)
  moreover have "lower_bucket_limit s (of_nat 27) = Some (True, s)"
    using bl by (subst lower_bucket_limit.simps) simp
  ultimately show ?thesis
    using p bl that by (subst (asm) malloc_loop.simps) (simp add: head_def)
qed

lemma first_block:
  assumes f: "one_free s"
  shows "\<exists>s'. mm_malloc_buddy s 8 = Some (base_ptr s + 8, s') \<and> layout s' \<and> bucket_limit s' = of_nat 27 \<and> same_storage s s'
    \<and> list_pop s' (head s' 27) = Some (NULL, s') \<and> get_prev s' (base_ptr s) = Some 8 \<and> (\<exists>v. get_next s' (base_ptr s) = Some v)
    \<and> base_ptr s' = base_ptr s \<and> buckets_addr s' = buckets_addr s \<and> sbit s' 26 0 = (\<not> sbit s 26 0)"
proof -
  have l: "layout s" and bl: "bucket_limit s = of_nat 27" and li: "lists s 27 27 {} ((\<lambda>_. [])(27 := [0]))"
    using f by (simp_all add: one_free_def)
  note D = layoutD [OF l]
  have w: "wf_tree 27 {}" by (simp add: wf_tree_def)
  let ?p = "base_ptr s" and ?h = "head s 27"
  obtain s1 where 1: "list_pop s ?h = Some (?p, s1)" "?p \<noteq> NULL" "lists s1 27 27 {} ((\<lambda>_. [])(27 := [0], 27 := []))" "links_only 27 {} s s1"
    using lists_pop [OF l w li] by (auto simp: nptr_0)
  note S1 = links_only_same [OF 1(4)]
  have l1: "layout s1" using S1(4) l by simp
  have h1: "pv s1 ?h = ?h" using listsD(4) [OF 1(3), of 27] S1(1) by simp
  have u: "unat (?p + of_nat 16) = unat (mem_start_brk s) + 16"
    using unat_add_of_nat32 [of ?p 16] D(2,3) by simp
  then have "unat (?p + of_nat 16) + 1 < 2 ^ 32" using D(3) by simp
  from update_max_ptr_ok [OF l1 this] u S1(9) obtain s2 where 2: "update_max_ptr s1 (?p + of_nat 16) = (True, s2)" "layout s2" "bytes s2 = bytes s1"
    "same_storage s1 s2" "base_ptr s2 = base_ptr s1" "buckets_addr s2 = buckets_addr s1" "bucket_limit s2 = bucket_limit s1"
    "node_is_split s2 = node_is_split s1" by (fastforce simp: MAX_HEAP_def)
  have nfp: "node_for_ptr s2 ?p (of_nat 27) = node 27 0"
    using node_for_ptr_eq [of 27 0 s2] 2(5) S1(8) by (simp add: nptr_0)
  have nz: "node 27 0 \<noteq> NULL" using node_arith(3) [of 26 0] by simp
  obtain s3 where 3: "flip_parent_is_split s2 (node 27 0) = Some s3" "s3\<lparr>node_is_split := node_is_split s2\<rparr> = s2"
    "sbit s3 26 0 = (\<not> sbit s2 26 0)" using flip_node [of 26 0 s2] by auto
  obtain ns where ns: "s3 = s2\<lparr>node_is_split := ns\<rparr>" using flip_kept [OF 3(2)] by blast
  have "in_storage s3 ?p 4"
    using D(2,3,6) ns 2(4) S1 by (simp add: in_storage_def same_storage_def MAX_HEAP_def word_le_nat_alt)
  then have ok: "word_ok s3 ?p" by (simp add: word_ok_def)
  let ?s = "s3\<lparr>bytes := st32 (bytes s3) ?p 8\<rparr>"
  have "split_down s3 (node 27 0) (of_nat 27) (of_nat 27) = Some s3" by (subst split_down.simps) simp
  then have "take_block s1 8 (of_nat 27) (of_nat 27) ?p = Some (?p + 8, ?s)"
    using 2(1) nfp nz 3(1) ST_ok [OF ok] bytes_needed_nat(1) [of 27 27]
    unfolding take_block_def by (simp add: Let_def HEADER_SIZE_def)
  then have m: "mm_malloc_buddy s 8 = Some (?p + 8, ?s)"
    using malloc_8 [OF l bl 1(1)] 1(2) by simp
  have st: "mem_start_brk s3 = mem_start_brk s" "same_storage s ?s" "base_ptr s3 = ?p" "buckets_addr s3 = buckets_addr s" "bytes s3 = bytes s1"
    using ns 2 S1 by (simp_all add: same_storage_def)
  have ls: "layout ?s" using 2(2) ns by simp
  have hd: "head ?s 27 = ?h" using st(4) by (simp add: head_def bucket_head_def)
  have uh: "unat ?h = unat (buckets_addr s) + 216" using unat_head [OF l, of 27] by simp
  have "apart4 ?p ?h" using uh D(2,3,4,5) by (intro apart4I) (auto simp: MAX_HEAP_def)
  then have "ld32 (bytes ?s) ?h = ?h" using h1 st(5) by (simp add: ld32_st32_apart pv_def)
  moreover have "word_ok ?s ?h"
    using cell_okD(1) [OF cells_places [OF ls w] relinked_refl placesI [of ?s 27 "{}" "Head 27"]] hd by simp
  ultimately have pop: "list_pop ?s (head ?s 27) = Some (NULL, ?s)" using hd by (simp add: list_pop_def get_prev_def LD_ok)
  have "word_ok ?s (?p + 4)"
  proof -
    have "unat (?p + of_nat 4) = unat ?p + 4" using unat_add_of_nat32 [of ?p 4] D(2,3) by simp
    then have "in_storage ?s (?p + 4) 4"
      using layoutD(2,3,6) [OF ls] D(2) st(1,3) by (simp add: in_storage_def MAX_HEAP_def word_le_nat_alt)
    then show ?thesis by (simp add: word_ok_def)
  qed
  then have "\<exists>v. get_next ?s ?p = Some v" "get_prev ?s ?p = Some 8"
    using ok by (simp_all add: get_next_def get_prev_def LD_ok)
  moreover have "sbit ?s 26 0 = (\<not> sbit s 26 0)"
  proof -
    have "sbit ?s = sbit s3" "sbit s2 = sbit s1" using 2(8) by (intro ext; simp add: sbit_def parent_is_split_def)+
    then show ?thesis using 3(3) S1(13) by simp
  qed
  moreover have "bucket_limit ?s = of_nat 27" using ns 2(7) S1(6) bl by simp
  ultimately show ?thesis using m ls st pop by (intro exI [of _ ?s]) simp
qed

text \<open>
  The second request finds the list empty and the bit clear although the block is in use: it takes the tree for a free block and
  unlinks it, following the header as a pointer.
\<close>

lemma second_block_fails:
  assumes l: "layout s" "bucket_limit s = of_nat 27" and pop: "list_pop s (head s 27) = Some (NULL, s)"
    and sb: "\<not> sbit s 26 0" and p: "get_prev s (base_ptr s) = Some 8" "get_next s (base_ptr s) = Some v"
    and far: "16 < unat (mem_start_brk s)" "16 < unat (buckets_addr s)"
  shows "mm_malloc_buddy s 8 = None"
proof -
  have "parent_is_split s (node 27 0) = Some False" using parent_is_split_node [of 26 0 s] sb by simp
  moreover have "node_for_ptr s (base_ptr s) (of_nat 27) = node 27 0"
    using node_for_ptr_eq [of 27 0 s] by (simp add: nptr_0)
  moreover have "set_next s 8 v = None"
    using far by (simp add: set_next_def ST_def in_storage_def in_buckets_def word_le_nat_alt)
  then have "list_remove_buddy s (base_ptr s) = None" using p by (simp add: list_remove_buddy_def)
  moreover have "(of_nat 26 :: addr) < bucket_limit s" using l(2) by (simp add: word_less_nat_alt)
  ultimately have "lower_bucket_limit s (of_nat 26) = None" using l(2) by (subst lower_bucket_limit.simps) simp
  then show ?thesis using malloc_8 [OF l pop] by simp
qed

text \<open>\<open>mm_init\<close> on a heap that was emptied while a block was in use.\<close>

lemma buddy_init_stale:
  assumes e: "empty_heap s" "parent_is_split s (of_nat (2 ^ 27 - 1)) = Some True"
    and far: "16 < unat (mem_start_brk s)" "16 < unat (buckets_addr s)"
  shows "\<exists>s1 p s2. mm_init_buddy s = Some (0, s1) \<and> mm_malloc_buddy s1 8 = Some (p, s2) \<and> p \<noteq> NULL \<and> mm_malloc_buddy s2 8 = None"
proof -
  obtain s1 where 1: "mm_init_buddy s = Some (0, s1)" "one_free s1" "same_storage s s1" "node_is_split s1 = node_is_split s"
    "buckets_addr s1 = buckets_addr s" using mm_init_lists [OF e(1)] by blast
  have "sbit s 26 0" using e(2) by (simp add: sbit_def node_def)
  then have sb: "sbit s1 26 0" using 1(4) by (simp add: sbit_def parent_is_split_def)
  obtain s2 v where 2: "mm_malloc_buddy s1 8 = Some (base_ptr s1 + 8, s2)" "layout s2" "bucket_limit s2 = of_nat 27" "same_storage s1 s2"
    "list_pop s2 (head s2 27) = Some (NULL, s2)" "get_prev s2 (base_ptr s2) = Some 8" "get_next s2 (base_ptr s2) = Some v"
    "base_ptr s2 = base_ptr s1" "buckets_addr s2 = buckets_addr s1" "\<not> sbit s2 26 0"
    using first_block [OF 1(2)] sb by metis
  have "mm_malloc_buddy s2 8 = None"
    by (rule second_block_fails [OF 2(2,3,5,10,6,7)]) (use far 1(3,5) 2(4,9) in \<open>simp_all add: same_storage_def\<close>)
  moreover have "base_ptr s1 + 8 \<noteq> NULL"
  proof -
    have l1: "layout s1" using 1(2) by (simp add: one_free_def)
    have "unat (base_ptr s1 + of_nat 8) = unat (base_ptr s1) + 8"
      using layoutD(2,3) [OF l1] by (intro unat_add_of_nat32) simp
    then show ?thesis by auto
  qed
  ultimately show ?thesis using 1(1) 2(1) by blast
qed

lemma one_free_pop: "one_free s \<Longrightarrow> \<exists>t. list_pop s (bucket_head s (of_nat 27)) = Some (base_ptr s, t) \<and> base_ptr s \<noteq> NULL"
proof -
  assume f: "one_free s"
  then have "layout s" "wf_tree 27 {}" "lists s 27 27 {} ((\<lambda>_. [])(27 := [0]))" by (simp_all add: one_free_def wf_tree_def)
  from lists_pop [OF this] show ?thesis by (auto simp: nptr_0 head_def)
qed

text \<open>The history of two traces, the first of which leaves a block allocated.\<close>

lemma buddy_reinit:
  assumes f: "fresh_heap s" and far: "16 < unat (mem_start_brk s)" "16 < unat (buckets_addr s)"
  shows "\<exists>s1 p s2 s3 q s4. mm_init_buddy s = Some (0, s1) \<and> mm_malloc_buddy s1 8 = Some (p, s2) \<and> p \<noteq> NULL
    \<and> mm_init_buddy (mem_reset_brk s2) = Some (0, s3) \<and> mm_malloc_buddy s3 8 = Some (q, s4) \<and> q \<noteq> NULL
    \<and> mm_malloc_buddy s4 8 = None"
proof -
  obtain s1 where 1: "mm_init_buddy s = Some (0, s1)" "one_free s1" "same_storage s s1" "node_is_split s1 = node_is_split s"
    "buckets_addr s1 = buckets_addr s" using mm_init_lists [of s] f by (auto simp: fresh_heap_def)
  have "\<not> sbit s1 26 0"
    using f 1(4) by (simp add: fresh_heap_def sbit_def parent_is_split_def Let_def split: Option.bind_splits)
  then obtain s2 where 2: "mm_malloc_buddy s1 8 = Some (base_ptr s1 + 8, s2)" "layout s2" "same_storage s1 s2" "sbit s2 26 0"
    "base_ptr s2 = base_ptr s1" "buckets_addr s2 = buckets_addr s1" using first_block [OF 1(2)] by blast
  let ?r = "mem_reset_brk s2"
  have "empty_heap ?r"
  proof -
    note D = layoutD [OF 2(2)]
    have "mem_start_brk s2 \<le> mem_max_addr s2" using D(1,6) by (simp add: word_le_nat_alt)
    then have "geom ?r" using D(1) by (simp add: geom_def mem_reset_brk_def)
    then show ?thesis using 2(2) D(2) by (auto simp: empty_heap_def layout_def geom_def mem_reset_brk_def)
  qed
  moreover have "parent_is_split ?r (of_nat (2 ^ 27 - 1)) = Some True"
    using 2(4) by (simp add: sbit_def node_def parent_is_split_def mem_reset_brk_def)
  moreover have "16 < unat (mem_start_brk ?r)" "16 < unat (buckets_addr ?r)"
    using far 1(3,5) 2(3,6) by (simp_all add: same_storage_def mem_reset_brk_def)
  ultimately obtain s3 q s4 where "mm_init_buddy ?r = Some (0, s3)" "mm_malloc_buddy s3 8 = Some (q, s4)" "q \<noteq> NULL"
    "mm_malloc_buddy s4 8 = None" using buddy_init_stale by blast
  moreover have "base_ptr s1 + 8 \<noteq> NULL"
  proof -
    have "unat (base_ptr s1 + of_nat 8) = unat (base_ptr s1) + 8"
      using layoutD(2,3) [OF 2(2)] 2(5) by (intro unat_add_of_nat32) simp
    then show ?thesis by auto
  qed
  ultimately show ?thesis using 1(1) 2(1) by blast
qed

section \<open>The size \<open>mm_realloc\<close> copies\<close>

text \<open>It is read from the payload, not from the header: when the first payload word is 0, nothing is copied.\<close>

lemma memcpy_nothing: "in_storage s q 0 \<Longrightarrow> in_storage s p 0 \<Longrightarrow> memcpy s q p 0 = Some s"
  using linear [of "unat q" "unat p"] by (simp add: memcpy_def)

lemma buddy_realloc_zero_word:
  assumes r: "repr_buddy s Lm" and p: "Lm p = Some cs" "take 4 cs = replicate 4 0" and sz: "unat sz + 8 < 2 ^ 32"
  shows "mm_realloc_buddy s p sz = do {
    (q, s) \<leftarrow> mm_malloc_buddy s sz;
    if q = NULL then Some (NULL, s)
    else do {
      s \<leftarrow> mm_free_buddy s p;
      Some (q, s) } }"
proof -
  obtain q s1 where m: "mm_malloc_buddy s sz = Some (q, s1)"
    and q: "if q = NULL then repr_buddy s1 Lm else Lm q = None \<and> (\<exists>ds. unat sz \<le> length ds \<and> repr_buddy s1 (Lm(q \<mapsto> ds)))"
    using buddy_malloc_ok [OF r sz] by blast
  show ?thesis
  proof (cases "q = NULL")
    case False
    with q obtain ds where d: "Lm q = None" "repr_buddy s1 (Lm(q \<mapsto> ds))" by auto
    then have lp: "(Lm(q \<mapsto> ds)) p = Some cs" using p(1) by auto
    have "length cs \<ge> 4" using arg_cong [OF p(2), of length] by simp
    then have b: "bytes s1 (p + of_nat k) = 0" if "k < 4" for k
      using buddy.live_bytes [OF d(2) lp, of k] that nth_take [of k 4 cs] p(2) by simp
    have "ld32 (bytes s1) p = ld32 (\<lambda>_. 0) p" by (rule ld32_cong) (simp add: b)
    also have "\<dots> = 0" by (simp add: ld32_def)
    finally have z: "ld32 (bytes s1) p = 0" .
    have "in_storage s1 p (length cs)" by (rule buddy.live_limits(3) [OF d(2) lp])
    with \<open>4 \<le> length cs\<close> have i: "in_storage s1 p 4" "in_storage s1 p 0" by (simp_all add: in_storage_def)
    have "(Lm(q \<mapsto> ds)) q = Some ds" by simp
    then have "in_storage s1 q 0" using buddy.live_limits(3) [OF d(2)] by (fastforce simp: in_storage_def)
    with i z m False show ?thesis by (simp add: mm_realloc_buddy_def LD_def memcpy_nothing)
  qed (use m in \<open>simp add: mm_realloc_buddy_def\<close>)
qed

end
