(* ===== verification/Unfinished_List.thy ===== *)
theory Unfinished_List
  imports Block_Updates
begin

text \<open>
  \<open>src/malloc/refer/explicit-0509.c\<close>, an explicit list its author gave up and kept for the record: it calls \<open>list_add\<close>, \<open>list_remove\<close>
  and \<open>add_block\<close>, which the file does not define, and \<open>mm_malloc\<close> reads a variable nothing was assigned to. The three functions
  and the value of \<open>extendsize\<close> are parameters. A comment at the end of the file holds the bodies of \<open>list_add\<close> and \<open>list_remove\<close>; with
  them \<open>mm_init\<close> is followed to where it fails.
\<close>

section \<open>The code\<close>

record mm_unf = mem +
  heap_listp_unf :: addr

definition PREV_FREE_unf :: "mm_unf \<Rightarrow> addr \<Rightarrow> addr option" where "PREV_FREE_unf s bp = GET s bp"
definition NEXT_FREE_unf :: "mm_unf \<Rightarrow> addr \<Rightarrow> addr option" where "NEXT_FREE_unf s bp = GET s (bp + WSIZE)"

text \<open>What the file calls and does not define.\<close>

record missing =
  list_add_unf :: "mm_unf \<Rightarrow> addr \<Rightarrow> mm_unf option"
  list_remove_unf :: "mm_unf \<Rightarrow> addr \<Rightarrow> mm_unf option"
  add_block_unf :: "mm_unf \<Rightarrow> addr \<Rightarrow> mm_unf option"

definition coalesce_unf :: "missing \<Rightarrow> mm_unf \<Rightarrow> addr \<Rightarrow> (addr \<times> mm_unf) option" where
  "coalesce_unf x s bp = do {
     pb \<leftarrow> PREV_BLKP s bp;
     pf \<leftarrow> FTRP s pb;
     prev_alloc \<leftarrow> GET_ALLOC s pf;
     nb \<leftarrow> NEXT_BLKP s bp;
     next_alloc \<leftarrow> GET_ALLOC s (HDRP nb);
     sz \<leftarrow> GET_SIZE s (HDRP bp);
     (bp, s) \<leftarrow> (if prev_alloc \<noteq> 0 \<and> next_alloc = 0 then do {
       nb \<leftarrow> NEXT_BLKP s bp;
       nsz \<leftarrow> GET_SIZE s (HDRP nb);
       let sz = sz + nsz;
       nb \<leftarrow> NEXT_BLKP s bp;
       s \<leftarrow> list_remove_unf x s nb;
       s \<leftarrow> PUT s (HDRP bp) (PACK sz 0);
       f \<leftarrow> FTRP s bp;
       s \<leftarrow> PUT s f (PACK sz 0);
       Some (bp, s) }
     else if prev_alloc = 0 \<and> next_alloc \<noteq> 0 then do {
       pb \<leftarrow> PREV_BLKP s bp;
       psz \<leftarrow> GET_SIZE s (HDRP pb);
       let sz = sz + psz;
       pb \<leftarrow> PREV_BLKP s bp;
       s \<leftarrow> list_remove_unf x s pb;
       f \<leftarrow> FTRP s bp;
       s \<leftarrow> PUT s f (PACK sz 0);
       pb \<leftarrow> PREV_BLKP s bp;
       s \<leftarrow> PUT s (HDRP pb) (PACK sz 0);
       bp \<leftarrow> PREV_BLKP s bp;
       Some (bp, s) }
     else do {
       pb \<leftarrow> PREV_BLKP s bp;
       psz \<leftarrow> GET_SIZE s (HDRP pb);
       nb \<leftarrow> NEXT_BLKP s bp;
       nf \<leftarrow> FTRP s nb;
       nsz \<leftarrow> GET_SIZE s nf;
       let sz = sz + (psz + nsz);
       pb \<leftarrow> PREV_BLKP s bp;
       s \<leftarrow> list_remove_unf x s pb;
       nb \<leftarrow> NEXT_BLKP s bp;
       s \<leftarrow> list_remove_unf x s nb;
       pb \<leftarrow> PREV_BLKP s bp;
       s \<leftarrow> PUT s (HDRP pb) (PACK sz 0);
       nb \<leftarrow> NEXT_BLKP s bp;
       nf \<leftarrow> FTRP s nb;
       s \<leftarrow> PUT s nf (PACK sz 0);
       bp \<leftarrow> PREV_BLKP s bp;
       Some (bp, s) });
     s \<leftarrow> list_add_unf x s bp;
     Some (bp, s) }"

definition extend_heap_unf :: "missing \<Rightarrow> mm_unf \<Rightarrow> addr \<Rightarrow> (addr \<times> mm_unf) option" where
  "extend_heap_unf x s words =
     (let sz = (if words mod 2 \<noteq> 0 then (words + 1) * WSIZE else words * WSIZE);
          (bp, s) = mem_sbrk s sz
      in if bp = - 1 then Some (NULL, s)
         else do {
           s \<leftarrow> PUT s (HDRP bp) (PACK sz 0);
           f \<leftarrow> FTRP s bp;
           s \<leftarrow> PUT s f (PACK sz 0);
           nb \<leftarrow> NEXT_BLKP s bp;
           s \<leftarrow> PUT s (HDRP nb) (PACK 0 1);
           coalesce_unf x s bp })"

definition mm_init_unf :: "missing \<Rightarrow> mm_unf \<Rightarrow> (int \<times> mm_unf) option" where
  "mm_init_unf x s =
     (let (p, s) = mem_sbrk s (6 * WSIZE); s = s\<lparr>heap_listp_unf := p\<rparr>
      in if p = - 1 then Some (- 1, s)
         else do {
           s \<leftarrow> PUT s (heap_listp_unf s) 0;
           s \<leftarrow> PUT s (heap_listp_unf s + 1 * WSIZE) (PACK (4 * DSIZE) 1);
           s \<leftarrow> PUT s (heap_listp_unf s + 2 * WSIZE) (heap_listp_unf s + 3 * WSIZE);
           s \<leftarrow> PUT s (heap_listp_unf s + 3 * WSIZE) (heap_listp_unf s + 2 * WSIZE);
           s \<leftarrow> PUT s (heap_listp_unf s + 4 * WSIZE) (PACK (4 * WSIZE) 1);
           s \<leftarrow> PUT s (heap_listp_unf s + 5 * WSIZE) (PACK 0 1);
           let s = s\<lparr>heap_listp_unf := heap_listp_unf s + 2 * WSIZE\<rparr>;
           (r, s) \<leftarrow> extend_heap_unf x s (CHUNKSIZE div WSIZE);
           if r = NULL then Some (- 1, s) else Some (0, s) })"

partial_function (option) find_fit_from_unf :: "mm_unf \<Rightarrow> addr \<Rightarrow> addr \<Rightarrow> addr option" where
  "find_fit_from_unf s asize bp = do {
     a \<leftarrow> GET_ALLOC s (HDRP bp);
     if a = 0 then do {
       n \<leftarrow> GET_SIZE s (HDRP bp);
       if n \<ge> asize then Some bp
       else do {
         q \<leftarrow> NEXT_FREE_unf s bp;
         find_fit_from_unf s asize q } }
     else Some NULL }"

definition find_fit_unf :: "mm_unf \<Rightarrow> addr \<Rightarrow> addr option" where
  "find_fit_unf s asize = do {
     bp \<leftarrow> NEXT_FREE_unf s (heap_listp_unf s);
     find_fit_from_unf s asize bp }"

definition place_unf :: "missing \<Rightarrow> mm_unf \<Rightarrow> addr \<Rightarrow> addr \<Rightarrow> mm_unf option" where
  "place_unf x s bp asize = do {
     csize \<leftarrow> GET_SIZE s (HDRP bp);
     if csize - asize \<ge> 2 * DSIZE then do {
       s \<leftarrow> PUT s (HDRP bp) (PACK asize 1);
       f \<leftarrow> FTRP s bp;
       s \<leftarrow> PUT s f (PACK asize 1);
       bp \<leftarrow> NEXT_BLKP s bp;
       s \<leftarrow> PUT s (HDRP bp) (PACK (csize - asize) 0);
       f \<leftarrow> FTRP s bp;
       s \<leftarrow> PUT s f (PACK (csize - asize) 0);
       add_block_unf x s bp }
     else do {
       s \<leftarrow> PUT s (HDRP bp) (PACK csize 1);
       f \<leftarrow> FTRP s bp;
       PUT s f (PACK csize 1) } }"

text \<open>\<open>extendsize\<close> is declared and never assigned.\<close>

definition mm_malloc_unf :: "missing \<Rightarrow> addr \<Rightarrow> mm_unf \<Rightarrow> addr \<Rightarrow> (addr \<times> mm_unf) option" where
  "mm_malloc_unf x extendsize s sz =
     (if sz = 0 then Some (NULL, s)
      else let asize = (if sz \<le> DSIZE then 2 * DSIZE
                        else DSIZE * ((sz + DSIZE + (DSIZE - 1)) div DSIZE)) in
      do {
        bp \<leftarrow> find_fit_unf s asize;
        if bp \<noteq> NULL then do {
          s \<leftarrow> place_unf x s bp asize;
          Some (bp, s) }
        else do {
          (bp, s) \<leftarrow> extend_heap_unf x s (extendsize div WSIZE);
          if bp = NULL then Some (NULL, s)
          else do {
            s \<leftarrow> place_unf x s bp asize;
            Some (bp, s) } } })"

definition mm_free_unf :: "missing \<Rightarrow> mm_unf \<Rightarrow> addr \<Rightarrow> mm_unf option" where
  "mm_free_unf x s bp = do {
     sz \<leftarrow> GET_SIZE s (HDRP bp);
     s \<leftarrow> PUT s (HDRP bp) (PACK sz 0);
     f \<leftarrow> FTRP s bp;
     s \<leftarrow> PUT s f (PACK sz 0);
     (_, s) \<leftarrow> coalesce_unf x s bp;
     Some s }"

definition mm_realloc_unf :: "missing \<Rightarrow> addr \<Rightarrow> mm_unf \<Rightarrow> addr \<Rightarrow> addr \<Rightarrow> (addr \<times> mm_unf) option" where
  "mm_realloc_unf x extendsize s oldptr sz = do {
     (newptr, s) \<leftarrow> mm_malloc_unf x extendsize s sz;
     if newptr = NULL then Some (NULL, s)
     else do {
       copySize \<leftarrow> GET_SIZE s (HDRP oldptr);
       let copySize = (if sz < copySize then sz else copySize);
       s \<leftarrow> memcpy s newptr oldptr copySize;
       s \<leftarrow> mm_free_unf x s oldptr;
       Some (newptr, s) } }"

lemma geom_heap_listp_unf [simp]: "geom (s\<lparr>heap_listp_unf := x\<rparr>) = geom s"
  by (simp add: geom_def)

lemma heap_listp_unf_put_word [simp]: "heap_listp_unf (put_word s i v) = heap_listp_unf s"
  by (simp add: put_word_def)

lemma hw_heap_listp_unf [simp]: "hw (s\<lparr>heap_listp_unf := x\<rparr>) = hw s" "hw (s\<lparr>mem_brk := y\<rparr>) = hw s"
  by (simp_all add: hw_def fun_eq_iff)

section \<open>The list functions of the comment\<close>

text \<open>The name of their parameter, \<open>bp\<close> there and \<open>p\<close> in the body of \<open>list_add\<close>, is taken to be one.\<close>

definition list_add_note :: "mm_unf \<Rightarrow> addr \<Rightarrow> mm_unf option" where
  "list_add_note s p = do {
     n \<leftarrow> NEXT_FREE_unf s (heap_listp_unf s);
     s \<leftarrow> PUT s (p + WSIZE) n;
     s \<leftarrow> PUT s p (heap_listp_unf s);
     n \<leftarrow> NEXT_FREE_unf s (heap_listp_unf s);
     s \<leftarrow> PUT s n p;
     PUT s (heap_listp_unf s + WSIZE) p }"

definition list_remove_note :: "mm_unf \<Rightarrow> addr \<Rightarrow> mm_unf option" where
  "list_remove_note s bp = do {
     n \<leftarrow> NEXT_FREE_unf s bp;
     p \<leftarrow> PREV_FREE_unf s bp;
     s \<leftarrow> PUT s n p;
     p \<leftarrow> PREV_FREE_unf s bp;
     n \<leftarrow> NEXT_FREE_unf s bp;
     PUT s (p + WSIZE) n }"

definition noted :: "(mm_unf \<Rightarrow> addr \<Rightarrow> mm_unf option) \<Rightarrow> missing" where
  "noted add_block = \<lparr>list_add_unf = list_add_note, list_remove_unf = list_remove_note, add_block_unf = add_block\<rparr>"

text \<open>
  \<open>coalesce\<close> on the first block of the heap: the prologue header says 32 bytes, so what is taken for the prologue's footer is the third
  word of the new block's payload, which nothing was stored to. When its last bit is 0, as in fresh storage, the prologue counts as
  free. Taking it off the list overwrites its real footer with a pointer, the address of the block before is then 16, and its header lies at 12.
\<close>

lemma tag_size_aligned: "8 dvd unat w \<Longrightarrow> tag_size w = w"
proof -
  assume "8 dvd unat w"
  then obtain k where "unat w = 8 * k" by (auto elim: dvdE)
  then have "of_nat (unat w) = bsize (2 * k)" by (simp add: bsize_def)
  then have "w = bsize (2 * k)" by simp
  then show ?thesis using tag_size_hdr [of "2 * k" False] by (simp add: hdr_def)
qed

lemma ptr_aligned:
  assumes "geom s"
  shows "8 dvd unat (ptr (mem_start_brk s) 2)"
proof -
  have "8 dvd unat (mem_start_brk s)" using assms by (simp add: geom_def)
  moreover have "unat (ptr (mem_start_brk s) 2) = unat (mem_start_brk s) + 8"
    using unat_ptr [OF assms, of 2] by (simp add: MAX_HEAP_def)
  ultimately show ?thesis by simp
qed

lemma coalesce_unf_first:
  assumes g: "geom s" and low: "16 \<le> unat (mem_start_brk s)"
    and h: "hw s 1 = hdr 8 True" "hw s 2 = ptr (mem_start_brk s) 3" "hw s 3 = ptr (mem_start_brk s) 2" "hw s 4 = hdr 4 True"
      "hw s 5 = hdr 1024 False" "tag_alloc (hw s 8) = 0" "hw s 1029 = hdr 0 True"
  shows "coalesce_unf (noted add_block) s (ptr (mem_start_brk s) 6) = None"
proof -
  let ?b = "mem_start_brk s"
  let ?s1 = "put_word (put_word s 2 (ptr ?b 3)) 4 (ptr ?b 2)"
  let ?s2 = "put_word ?s1 1028 (hdr 1032 False)"
  have r: "list_remove_note s (ptr ?b 2) = Some ?s1"
    using g h by (simp add: list_remove_note_def NEXT_FREE_unf_def PREV_FREE_unf_def ptr_simps heap_exec HEAPW_eq)
  have "tag_size (ptr ?b 2) = ptr ?b 2" using ptr_aligned [OF g] by (rule tag_size_aligned)
  then have p: "PREV_BLKP ?s2 (ptr ?b 6) = Some 16"
    using g by (simp add: PREV_BLKP_def ptr_simps heap_exec HEAPW_eq) (simp add: ptr_def)
  have q: "PUT ?s2 (HDRP 16) v = None" for v
    using low by (simp add: PUT_def HDRP_def WSIZE_def in_storage_def word_le_nat_alt)
  show ?thesis
    using g h r p q by (simp add: coalesce_unf_def noted_def blk_macros ptr_simps heap_exec HEAPW_eq Let_def)
qed

lemma mm_init_unf_fails:
  assumes g: "geom s" and e: "mem_brk s = mem_start_brk s" and low: "16 \<le> unat (mem_start_brk s)"
    and w: "unat (mem_max_addr s) + 4096 < 2 ^ 32" and z: "tag_alloc (hw s 8) = 0"
  shows "mm_init_unf (noted add_block) s = None"
proof -
  let ?b = "mem_start_brk s"
  let ?s0 = "s\<lparr>mem_brk := ptr ?b 6, heap_listp_unf := ptr ?b 0\<rparr>"
  let ?s1 = "(put_word (put_word (put_word (put_word (put_word (put_word ?s0 0 0) 1 (hdr 8 True))
      2 (ptr ?b 3)) 3 (ptr ?b 2)) 4 (hdr 4 True)) 5 (hdr 0 True))\<lparr>heap_listp_unf := ptr ?b 2\<rparr>"
  let ?s2 = "put_word (put_word (put_word (?s1\<lparr>mem_brk := ptr ?b 1030\<rparr>) 5 (hdr 1024 False)) 1028 (hdr 1024 False)) 1029 (hdr 0 True)"
  have sbrk: "mem_sbrk s (6 * WSIZE) = (ptr ?b 0, s\<lparr>mem_brk := ptr ?b 6\<rparr>)"
    using mem_sbrk_ptr [OF g, of 0 6] e w by (simp add: ptr_def bsize_def WSIZE_def HEAPW_eq)
  have g0: "geom ?s0" using geom_brk [OF g, of 6] by (simp add: HEAPW_eq)
  have p: "ptr ?b 0 + WSIZE = ptr ?b 1" "ptr ?b 0 + 2 * WSIZE = ptr ?b 2" "ptr ?b 0 + 3 * WSIZE = ptr ?b 3"
    "ptr ?b 0 + 4 * WSIZE = ptr ?b 4" "ptr ?b 0 + 5 * WSIZE = ptr ?b 5"
    by (simp_all add: ptr_def WSIZE_def)
  have t: "PACK (4 * DSIZE) 1 = hdr 8 True" "PACK (4 * WSIZE) 1 = hdr 4 True" "CHUNKSIZE div WSIZE = 1024"
    by (simp_all add: PACK_def hdr_def bsize_def DSIZE_def WSIZE_def CHUNKSIZE_def push_bit_eq_mult)
  have g1: "geom ?s1" using g0 by simp
  have "mem_sbrk ?s1 (bsize 1024) = (ptr ?b 6, ?s1\<lparr>mem_brk := ptr ?b 1030\<rparr>)"
    using mem_sbrk_ptr [OF g1, of 6 1024] w by (simp add: HEAPW_eq bsize_def)
  moreover have "(1024 :: addr) * WSIZE = bsize 1024" by (simp add: bsize_def WSIZE_def)
  moreover have g2: "geom (?s1\<lparr>mem_brk := ptr ?b 1030\<rparr>)" using geom_brk [OF g1, of 1030] by (simp add: HEAPW_eq)
  ultimately have "extend_heap_unf (noted add_block) ?s1 1024 = coalesce_unf (noted add_block) ?s2 (ptr ?b 6)"
    using ptr_not_m1 [OF g, of 6]
    by (simp add: extend_heap_unf_def Let_def blk_macros ptr_simps heap_exec HEAPW_eq)
  moreover have "coalesce_unf (noted add_block) ?s2 (ptr (mem_start_brk ?s2) 6) = None"
    by (rule coalesce_unf_first) (use g2 low z in \<open>simp_all add: heap_exec HEAPW_eq\<close>)
  ultimately have "extend_heap_unf (noted add_block) ?s1 1024 = None" by simp
  moreover have "mm_init_unf (noted add_block) s = do {
      (r, s) \<leftarrow> extend_heap_unf (noted add_block) ?s1 1024;
      if r = NULL then Some (- 1, s) else Some (0, s) }"
    using sbrk g0 p t ptr_not_m1 [OF g, of 0]
    by (simp add: mm_init_unf_def Let_def heap_exec ptr_simps HEAPW_eq)
  ultimately show ?thesis by simp
qed

end
