(* ===== verification/Spec2Isabelle.thy ===== *)
theory Spec2Isabelle
  imports Driver_Whole Driver_Plain Trace_Roundtrip Timing_Config Memlib_Facts Explicit_Facts Implicit_List Refer_Facts Seg_Package
    Buddy_Cases Unfinished_List
begin

text \<open>
  The CS:APP malloc lab of \<open>src/\<close>: a driver (\<open>mdriver.c\<close>) reads trace files of allocation requests, replays them against
  the allocator it is linked with (\<open>mm.c\<close>), checks every block the allocator hands out, and measures space utilization and
  throughput with the timing layer (\<open>fcyc.c\<close>, \<open>clock.c\<close>, \<open>ftimer.c\<close>, \<open>fsecs.c\<close>). The allocator grows its heap through
  the simulated break of \<open>memlib.c\<close>. \<open>malloc/\<close> keeps alternative allocators: an implicit list, a second explicit list, a
  segregated list and a buddy system. The build is 32-bit (\<open>-m32\<close>), so pointers, \<open>size_t\<close>, \<open>int\<close> and \<open>long\<close>
  are \<open>32 word\<close> and all arithmetic wraps.

  Common conventions. The heap is a function from addresses to bytes in the state record \<open>mem\<close>; a component's static
  variables extend that record. Every C function is a HOL function of the same name from state to an option:
  \<open>None\<close> is an access outside the storage (or outside an array or a buffer of \<open>MAXLINE\<close> characters), another undefined behaviour, a failed
  assertion or a loop that does not end. So a theorem whose conclusion is \<open>f s = Some r\<close> says that the C function returns, without undefined behaviour.
  \<open>exit\<close> is a value of a sum or datatype. Loops over memory are \<open>partial_function (option)\<close>. What libc answers when the driver itself asks
  for memory is a parameter: \<open>grants\<close> in \<open>read_trace\<close> and \<open>o_grants\<close> in \<open>main\<close> say at which call (\<open>site\<close>) how many bytes are to be had, the number
  of bytes being computed as in C, in 32 bits.

  The theories and what they model:
  \<^item> \<open>Malloc_Prelude\<close>: machine types, little-endian words in byte memory, theorem collections.
  \<^item> \<open>Memlib\<close>, \<open>Memlib_Facts\<close>: \<open>memlib.c\<close> with the three pointers and the storage; \<open>geom\<close> is what \<open>mem_init\<close>
    establishes for 8-aligned storage that does not wrap. \<open>memcpy\<close> and \<open>memset\<close> of the C library.
  \<^item> \<open>Boundary_Tags\<close>: the macros \<open>GET\<close>, \<open>PUT\<close>, \<open>HDRP\<close>, \<open>FTRP\<close>, \<open>NEXT_BLKP\<close>, ... and the view of the heap as a
    sequence of words (\<open>hw\<close>, \<open>ptr\<close>).
  \<^item> \<open>Block_Layout\<close>, \<open>Block_Updates\<close>, \<open>Requests\<close>, \<open>Live_View\<close>: the abstract heap shared by the list allocators: a list
    of \<open>Used\<close> (with payload) and \<open>Free\<close> blocks (\<open>heap_blocks\<close>), how retagging, splitting, merging (\<open>coalesced\<close>) and growing act on
    it, the rounding of requests, and the client's view: the map \<open>live\<close> from pointers to payload bytes.
  \<^item> \<open>Malloc_Interface\<close>: the locales \<open>live_heap\<close> (what a client may do with its pointers), \<open>alloc_package\<close> (initialising, allocating and
    freeing, over the heaps the package can be initialised on), \<open>mm_package\<close> (the contract of \<open>mm.h\<close>, with \<open>mm_realloc\<close>) and \<open>tag_allocator\<close> (what a boundary-tag allocator offers its \<open>mm_realloc\<close>); every \<open>tag_allocator\<close> is an
    \<open>mm_package\<close>. \<open>sparing_package\<close> and \<open>sparing_tag_allocator\<close> bound what an operation takes from the storage;
    the break never falls.
  \<^item> \<open>Free_Store\<close>, \<open>Link_Words\<close>: what the four list allocators share. \<open>free_list\<close> is the interface of a free store (an abstract
    collection of block indices, \<open>add\<close> and \<open>remove\<close> with their laws); \<open>coalescing_list\<close> adds \<open>coalesce\<close>, \<open>extend_heap\<close> and
    \<open>mm_free\<close>; \<open>list_allocator\<close> the search, \<open>place\<close> and \<open>mm_malloc\<close>; \<open>list_package\<close> initialisation and the view \<open>live\<close>;
    \<open>list_package_realloc\<close> the common \<open>mm_realloc\<close>. Merging, splitting, growing and the client's view are proved once there; a
    \<open>list_package\<close> is an \<open>alloc_package\<close>, a \<open>list_package_realloc\<close> a \<open>sparing_tag_allocator\<close>. Link words: writing the links of a free block keeps
    the blocks.
  \<^item> \<open>Explicit_List\<close>, \<open>Explicit_Facts\<close>: \<open>mm.c\<close>. \<open>listed\<close> relates the state to the block list and the circular list of free
    blocks; \<open>mm_inv\<close> adds that exactly the free blocks are listed and no two are adjacent. Interpretation \<open>mm\<close>.
  \<^item> \<open>Implicit_List\<close>: \<open>malloc/implicit-53.c\<close>, whose free store is the tiling itself. Interpretation \<open>imp\<close>.
  \<^item> \<open>Refer_List\<close>, \<open>Refer_Facts\<close>: \<open>malloc/refer/refer.c\<close>; \<open>listed_ref\<close> is the list that ends at the prologue.
    Interpretation \<open>ref\<close>.
  \<^item> \<open>Seg_List\<close>, \<open>Seg_Facts\<close>, \<open>Seg_Correct\<close>, \<open>Seg_Package\<close>: \<open>malloc/segregated_list-85.c\<close>; \<open>listed_seg\<close> relates the state to one
    list per group, each linked both ways, in ascending order of size and with the sizes of its group only. Interpretation \<open>seg\<close> of
    \<open>list_package\<close>: its \<open>mm_realloc\<close> is not the common one and does not keep the contract (C25).
  \<^item> \<open>Buddy\<close>, \<open>Buddy_Facts\<close>: \<open>malloc/buddy.c\<close>; the static array of list heads lies in the same byte memory. Buckets, node numbers,
    split bits, single pushes and pops.
  \<^item> \<open>Buddy_Tree\<close>, \<open>Buddy_Lists\<close>, \<open>Buddy_Store\<close>: the abstract tree, a set of used nodes (bucket, position) below a root, from which the
    free nodes and the split bits follow, and its steps: take, give back, split, merge, raise the root; the rings of the free lists in
    memory, every cell apart from every other one.
  \<^item> \<open>Buddy_Core\<close>, \<open>Buddy_Correct\<close>, \<open>Buddy_Ops\<close>: the invariant \<open>core\<close> (bits and lists in memory are those of a tree) and that
    \<open>update_max_ptr\<close>, \<open>lower_bucket_limit\<close>, \<open>split_down\<close>, \<open>take_block\<close> and \<open>merge_up\<close> are steps of the tree which leave the bytes of the
    blocks in use alone.
  \<^item> \<open>Buddy_Package\<close>, \<open>Buddy_Cases\<close>: \<open>mm_init\<close>, \<open>mm_malloc\<close>, \<open>mm_free\<close> on the invariant and on the client's map \<open>repr_buddy\<close>.
    Interpretations \<open>buddy\<close> of \<open>live_heap\<close> and \<open>buddy_alloc\<close> of \<open>alloc_package\<close>: \<open>mm_realloc\<close> does not keep the contract (C33).
  \<^item> \<open>Unfinished_List\<close>: \<open>malloc/refer/explicit-0509.c\<close>, an explicit list left unfinished; it calls functions it does not define, of which
    a comment at its end gives two (\<open>noted\<close>).
  \<^item> \<open>Driver_Ranges\<close>, \<open>Driver_Trace\<close>, \<open>Driver_Eval\<close>, \<open>Driver_Main\<close>: \<open>mdriver.c\<close>: the range list and the error log, the trace reader over
    the characters of a file, \<open>eval_mm_valid\<close> and its companions over the package's four functions, and \<open>main\<close>.
  \<^item> \<open>Driver_Correct\<close>, \<open>Driver_Facts\<close>, \<open>Trace_Roundtrip\<close>, \<open>Trace_Typed\<close>: \<open>eval_mm_valid\<close> proved inside \<open>mm_package\<close>, hence for
    every interpreted allocator; the range list, the options, the index; reading back a printed trace (\<open>readable\<close>: where there is memory
    for it and its path fits); what every accepted trace satisfies (\<open>typed_trace\<close>), its arrays as long as their wrapped sizes allow.
  \<^item> \<open>Driver_Plain\<close>: \<open>eval_mm_valid\<close> inside \<open>alloc_package\<close>, on traces without reallocations (\<open>no_realloc\<close>); after one that
    is \<open>balanced\<close> the package can be initialised again.
  \<^item> \<open>Trace_Shape\<close>, \<open>Driver_Libc\<close>: the runs over libc's allocator write the block arrays of a trace only, and end without undefined behaviour
    whatever libc's functions return.
  \<^item> \<open>Driver_Util\<close>, \<open>Driver_Whole\<close>: \<open>eval_mm_util\<close> against the high water mark of a trace (\<open>peak\<close>), \<open>eval_mm_speed\<close> against
    \<open>eval_mm_util\<close>, proved inside \<open>sparing_package\<close>; the run over one trace file, over all of them, and \<open>main\<close>, which exits where
    memory is refused (\<open>out_of_memory\<close>).
  \<^item> \<open>Timing\<close>, \<open>Timing_Facts\<close>: the cycle counter, the K-best sampler and the timers, over an environment the clock and the timed
    function act on.
  \<^item> \<open>Timing_Config\<close>: what the preprocessor selects: the counters of the other platforms, \<open>init_fsecs\<close> and \<open>fsecs\<close> for the three timing
    methods of \<open>config.h\<close>.

  What the lemmas show. For \<open>mm.c\<close>, \<open>implicit-53.c\<close>, \<open>refer.c\<close> and, but for
  \<open>mm_realloc\<close>, the segregated list: initialisation establishes the invariant, every operation keeps it and
  implements its abstract counterpart exactly (first or best fit, splitting, coalescing, growing, failing), payloads are
  aligned, inside the heap and pairwise apart, and \<open>mm_realloc\<close> keeps the data. On top of the contract, the
  driver's verdict (C1, C2, C35), the utilization it measures (C4) and the whole of \<open>main\<close>, from the text of the
  trace files to the performance index (C3). For the buddy allocator, again but for \<open>mm_realloc\<close>: every call
  returns without undefined behaviour, the tree, its bits and its lists stay consistent, live payloads are aligned, apart and
  kept, a fitting free block is used as it is, and merging is complete (C26 to C30). On traces without reallocations the
  driver's verdict holds for the segregated list (C39) and the buddy allocator (C31), too. For the other parts, the functional
  facts named above. The theorems on errors (C13, C15, C19, C20, C25, C32, C33, C34, C40,
  \<open>read_trace_accepts_empty_arrays\<close>, \<open>fcyc_without_memory\<close>, \<open>clear_loop_spins\<close>, \<open>alpha_counter_wrap\<close>) state how the code misbehaves outside the range in which it is correct.

  Bounds. \<open>request_fits\<close> keeps the sum of the storage's end, a request and one chunk below \<open>2 ^ 32\<close>; with libc's storage below
  \<open>2 ^ 31\<close> every request below \<open>2 ^ 31 - 4112\<close> bytes qualifies. A trace has fewer than \<open>2 ^ 30\<close> indices in C16; C3
  asks that every index lies within the arrays as they are allocated. \<open>clear\<close> moves its pointer in the flat address space: \<open>walkable\<close> keeps the last step
  below \<open>2 ^ 32\<close>, and the walk then ends (\<open>sum_words_all\<close>); with step 0 it never does. No definition carries fuel. A
  \<open>double\<close> is an exact rational. The buddy allocator's theorems assume (\<open>layout\<close>) that the 2 GB its tree can grow to lie below
  \<open>2 ^ 32\<close> and that the static array lies outside the storage, and take requests whose sum with the header does not wrap; beyond
  \<open>MAX_ALLOC\<close> they are refused. Its heap must be \<open>clear_heap\<close>, with no split bit of the tree set, for \<open>mm_init\<close> (C28, and C32 for what happens otherwise); it is so
  after every trace that frees all it has allocated.

  Parameters. libc's allocator, the file system, \<open>getopt\<close>'s splitting of the command line, uninitialised memory,
  \<open>rdtsc\<close> and the Alpha's counter routine, the clocks and the timed function; for \<open>explicit-0509.c\<close>
  the three functions it lacks and the variable it never assigns. Nothing is assumed of them beyond their types, but in C3 that
  libc hands \<open>mem_init\<close> storage that is aligned and lies low enough and that the clock does not go backwards
  (\<open>clock_forward\<close>), in all properties of the driver that libc has memory for the cells of the range list (\<open>Driver_Ranges\<close>), in C23 and C24 that
  it has memory for the samples, in C24 for the cache buffer, too (in C23 \<open>clearable\<close> says so), and in both that the calibration of the
  compensated counters, a loop that waits for clock ticks, ends with a tick length (\<open>calibrated\<close>; it does on the
  clock \<open>tick_clk\<close>).

  Not modelled. \<open>printf\<close> formatting and \<open>usage\<close>, the messages of the timing layer included; \<open>mem_pagesize\<close>; the Perl trace generators. The copies \<open>malloc/explicit-82.c\<close>, \<open>malloc/implicit-54.c\<close>, \<open>malloc/refer/refer copy.c\<close> and \<open>malloc/refer/seglist.c\<close>
  are, comments and layout, team strings and an unused macro aside, the code of \<open>mm.c\<close>, \<open>implicit-53.c\<close>, \<open>refer.c\<close> and
  \<open>segregated_list-85.c\<close>, and need no model of their own.
\<close>

section \<open>Concrete heaps\<close>

text \<open>Storage at \<open>0x10000000\<close>, as libc's \<open>malloc(MAX_HEAP)\<close> could return it, and the package on it
  after \<open>mm_init\<close>.\<close>

definition fresh_mm :: mm where
  "fresh_mm = \<lparr>mem_start_brk = 0x10000000, mem_brk = 0x10000000,
     mem_max_addr = 0x10000000 + of_nat MAX_HEAP, bytes = (\<lambda>_. 0), heap_listp = 0\<rparr>"

definition boot_mm :: mm where
  "boot_mm = snd (the (mm_init fresh_mm))"

definition fresh_imp :: mm_imp where
  "fresh_imp = \<lparr>mem_start_brk = 0x10000000, mem_brk = 0x10000000,
     mem_max_addr = 0x10000000 + of_nat MAX_HEAP, bytes = (\<lambda>_. 0), heap_listp_imp = 0\<rparr>"

definition boot_imp :: mm_imp where
  "boot_imp = snd (the (mm_init_imp fresh_imp))"

definition fresh_ref :: mm_ref where
  "fresh_ref = \<lparr>mem_start_brk = 0x10000000, mem_brk = 0x10000000,
     mem_max_addr = 0x10000000 + of_nat MAX_HEAP, bytes = (\<lambda>_. 0), free_listp = 0\<rparr>"

definition boot_ref :: mm_ref where
  "boot_ref = snd (the (mm_init_ref fresh_ref))"

definition fresh_seg :: mm_seg where
  "fresh_seg = \<lparr>mem_start_brk = 0x10000000, mem_brk = 0x10000000,
     mem_max_addr = 0x10000000 + of_nat MAX_HEAP, bytes = (\<lambda>_. 0), group_free_listp = replicate GROUPSIZE 0\<rparr>"

definition boot_seg :: mm_seg where
  "boot_seg = snd (the (mm_init_seg fresh_seg))"

lemma fresh_max: "unat (0x10000000 + of_nat MAX_HEAP :: addr) = 0x10000000 + MAX_HEAP"
  by (subst unat_add_of_nat32) (simp_all add: MAX_HEAP_def)

lemma fresh_mm_facts:
  "geom fresh_mm" "mem_brk fresh_mm = mem_start_brk fresh_mm"
  "unat (mem_max_addr fresh_mm) = 0x10000000 + MAX_HEAP" "mem_start_brk fresh_mm = 0x10000000"
  by (simp_all add: geom_def fresh_mm_def fresh_max word_le_nat_alt MAX_HEAP_def)

lemma fresh_imp_facts:
  "geom fresh_imp" "mem_brk fresh_imp = mem_start_brk fresh_imp"
  "unat (mem_max_addr fresh_imp) = 0x10000000 + MAX_HEAP" "mem_start_brk fresh_imp = 0x10000000"
  by (simp_all add: geom_def fresh_imp_def fresh_max word_le_nat_alt MAX_HEAP_def)

lemma fresh_ref_facts:
  "geom fresh_ref" "mem_brk fresh_ref = mem_start_brk fresh_ref"
  "unat (mem_max_addr fresh_ref) = 0x10000000 + MAX_HEAP" "mem_start_brk fresh_ref = 0x10000000"
  by (simp_all add: geom_def fresh_ref_def fresh_max word_le_nat_alt MAX_HEAP_def)

lemma fresh_seg_facts:
  "geom fresh_seg" "mem_brk fresh_seg = mem_start_brk fresh_seg"
  "unat (mem_max_addr fresh_seg) = 0x10000000 + MAX_HEAP" "mem_start_brk fresh_seg = 0x10000000"
  by (simp_all add: geom_def fresh_seg_def fresh_max word_le_nat_alt MAX_HEAP_def)

lemma boot_mm_facts:
  "mm_inv boot_mm [Free 1024] [6]" "mem_start_brk boot_mm = 0x10000000"
  "unat (mem_max_addr boot_mm) = 0x10000000 + MAX_HEAP" "repr_mm boot_mm Map.empty"
proof -
  have "unat (mem_max_addr fresh_mm) + 4096 < 2 ^ 32" by (simp add: fresh_mm_facts MAX_HEAP_def)
  from mm_init_ok [OF fresh_mm_facts(1,2) this] obtain s' where s': "mm_init fresh_mm = Some (0, s')"
    "mm_inv s' [Free 1024] [6]" "mem_start_brk s' = mem_start_brk fresh_mm"
    "mem_max_addr s' = mem_max_addr fresh_mm" by blast
  then show "mm_inv boot_mm [Free 1024] [6]" "mem_start_brk boot_mm = 0x10000000"
    "unat (mem_max_addr boot_mm) = 0x10000000 + MAX_HEAP"
    by (simp_all add: boot_mm_def fresh_mm_facts)
  then show "repr_mm boot_mm Map.empty" by (auto simp: repr_mm_def intro!: exI [of _ "[Free 1024]"])
qed

lemma boot_imp_facts:
  "heap_blocks boot_imp 2 [Free 1024]" "heap_listp_imp boot_imp = ptr (mem_start_brk boot_imp) 2"
  "mem_start_brk boot_imp = 0x10000000"
  "unat (mem_max_addr boot_imp) = 0x10000000 + MAX_HEAP" "repr_imp boot_imp Map.empty"
proof -
  have "unat (mem_max_addr fresh_imp) + 4096 < 2 ^ 32" by (simp add: fresh_imp_facts MAX_HEAP_def)
  from mm_init_imp_ok [OF fresh_imp_facts(1,2) this] obtain s' where s': "mm_init_imp fresh_imp = Some (0, s')"
    "heap_blocks s' 2 [Free 1024]" "heap_listp_imp s' = ptr (mem_start_brk s') 2"
    "mem_start_brk s' = mem_start_brk fresh_imp" "mem_max_addr s' = mem_max_addr fresh_imp" by blast
  then show "heap_blocks boot_imp 2 [Free 1024]" "heap_listp_imp boot_imp = ptr (mem_start_brk boot_imp) 2"
    "mem_start_brk boot_imp = 0x10000000" "unat (mem_max_addr boot_imp) = 0x10000000 + MAX_HEAP"
    by (simp_all add: boot_imp_def fresh_imp_facts)
  then show "repr_imp boot_imp Map.empty" by (auto simp: repr_imp_def intro!: exI [of _ "[Free 1024]"])
qed

lemma boot_ref_facts:
  "listed_ref boot_ref [Free 1024] [6]" "mem_start_brk boot_ref = 0x10000000"
  "unat (mem_max_addr boot_ref) = 0x10000000 + MAX_HEAP"
proof -
  have "unat (mem_max_addr fresh_ref) + 4096 < 2 ^ 32" by (simp add: fresh_ref_facts MAX_HEAP_def)
  from mm_init_ref_ok [OF fresh_ref_facts(1,2) this] obtain s' where "mm_init_ref fresh_ref = Some (0, s')"
    "listed_ref s' [Free 1024] [6]" "same_storage fresh_ref s'" by blast
  then show "listed_ref boot_ref [Free 1024] [6]" "mem_start_brk boot_ref = 0x10000000"
    "unat (mem_max_addr boot_ref) = 0x10000000 + MAX_HEAP"
    by (simp_all add: boot_ref_def same_storage_def fresh_ref_facts)
qed

lemma boot_seg_facts:
  "\<exists>F. listed_seg boot_seg [Free 1024] F \<and> (\<Union>g. set (F g)) = {4}" "mem_start_brk boot_seg = 0x10000000"
  "unat (mem_max_addr boot_seg) = 0x10000000 + MAX_HEAP" "repr_seg boot_seg Map.empty"
proof -
  have "unat (mem_max_addr fresh_seg) + 4096 < 2 ^ 32" by (simp add: fresh_seg_facts MAX_HEAP_def)
  from mm_init_seg_ok [OF fresh_seg_facts(1,2) this] obtain s' F where s': "mm_init_seg fresh_seg = Some (0, s')"
    "listed_seg s' [Free 1024] F" "(\<Union>g. set (F g)) = {4}" "same_storage fresh_seg s'" by blast
  then show "\<exists>F. listed_seg boot_seg [Free 1024] F \<and> (\<Union>g. set (F g)) = {4}"
    "mem_start_brk boot_seg = 0x10000000" "unat (mem_max_addr boot_seg) = 0x10000000 + MAX_HEAP"
    by (auto simp: boot_seg_def same_storage_def fresh_seg_facts)
  from s' show "repr_seg boot_seg Map.empty"
    by (auto simp: boot_seg_def repr_seg_def intro!: exI [of _ "[Free 1024]"] exI [of _ F])
qed

lemma boot_fits: "unat sz + 4112 < 2 ^ 31 \<Longrightarrow> request_fits boot_mm sz"
  "unat sz + 4112 < 2 ^ 31 \<Longrightarrow> request_fits boot_imp sz"
  "unat sz + 4112 < 2 ^ 31 \<Longrightarrow> request_fits boot_ref sz"
  "unat sz + 4112 < 2 ^ 31 \<Longrightarrow> request_fits boot_seg sz"
  by (simp_all add: request_fits_def boot_mm_facts boot_imp_facts boot_ref_facts boot_seg_facts MAX_HEAP_def)

text \<open>One block of 100 bytes on each heap.\<close>

definition one_mm :: mm where
  "one_mm = snd (the (mm_malloc boot_mm 100))"

definition one_imp :: mm_imp where
  "one_imp = snd (the (mm_malloc_imp boot_imp 100))"

lemma req_words_100: "req_words 100 = 28"
  by (simp add: req_words_def)

lemma one_mm_facts:
  "\<exists>ws. length ws = 26 \<and> mm_inv one_mm [Used ws, Free 996] [34]"
  "mem_start_brk one_mm = 0x10000000" "unat (mem_max_addr one_mm) = 0x10000000 + MAX_HEAP"
proof -
  have "find (\<lambda>i. req_words 100 \<le> words_at [Free 1024] i) [6] = Some 6"
    by (simp add: words_at_def block_words_def req_words_100)
  from mm_malloc_fit [OF boot_mm_facts(1) _ boot_fits(1) this] obtain xs n ys ws s' where
    r: "[Free 1024] = xs @ Free n # ys" "length ws = place_gets n 28 - 2"
      "mm_malloc boot_mm 100 = Some (ptr (mem_start_brk boot_mm) 6, s')"
      "mm_inv s' (xs @ Used ws # place_rest n 28 @ ys) (place_list 6 n 28 [6])" "only_heap boot_mm s'"
    unfolding req_words_100 by (force simp: word_less_nat_alt)
  have x: "xs = []" "n = 1024" "ys = []" using r(1) by (cases xs; simp)+
  have s: "one_mm = s'" using r(3) by (simp add: one_mm_def)
  show "\<exists>ws. length ws = 26 \<and> mm_inv one_mm [Used ws, Free 996] [34]"
    using r(2,4) x s by (auto simp: place_gets_def place_rest_def place_list_def)
  show "mem_start_brk one_mm = 0x10000000" "unat (mem_max_addr one_mm) = 0x10000000 + MAX_HEAP"
    using only_heap_bounds [OF r(5)] s boot_mm_facts(2,3) by simp_all
qed

lemma one_mm_live: "\<exists>L cs. repr_mm one_mm L \<and> L (ptr 0x10000000 6) = Some cs \<and> length cs = 104"
proof -
  obtain ws where ws: "length ws = 26" "mm_inv one_mm [Used ws, Free 996] [34]" using one_mm_facts(1) by blast
  have "repr_mm one_mm (live 0x10000000 6 [Used ws, Free 996])"
    unfolding repr_mm_def one_mm_facts(2) using ws(2) by blast
  then show ?thesis using ws(1)
    by (intro exI [of _ "live 0x10000000 6 [Used ws, Free 996]"] exI [of _ "concat (map word_bytes ws)"]) simp
qed

lemma one_imp_facts:
  "\<exists>ws. length ws = 26 \<and> heap_blocks one_imp 2 [Used ws, Free 996]"
  "mem_start_brk one_imp = 0x10000000"
proof -
  have "first_fit (req_words 100) 4 [Free 1024] = Some 4" by (simp add: req_words_100)
  from mm_malloc_imp_fit [OF boot_imp_facts(1,2) _ boot_fits(2) this] obtain xs n ys ws s' where
    r: "[Free 1024] = xs @ Free n # ys" "length ws = place_gets n 28 - 2"
      "mm_malloc_imp boot_imp 100 = Some (ptr (mem_start_brk boot_imp) 4, s')"
      "heap_blocks s' 2 (xs @ Used ws # place_rest n 28 @ ys)" "only_heap boot_imp s'"
    unfolding req_words_100 by (force simp: word_less_nat_alt)
  have x: "xs = []" "n = 1024" "ys = []" using r(1) by (cases xs; simp)+
  have s: "one_imp = s'" using r(3) by (simp add: one_imp_def)
  show "\<exists>ws. length ws = 26 \<and> heap_blocks one_imp 2 [Used ws, Free 996]"
    using r(2,4) x s by (auto simp: place_gets_def place_rest_def)
  show "mem_start_brk one_imp = 0x10000000"
    using only_heap_bounds [OF r(5)] s boot_imp_facts(3) by simp
qed

section \<open>The packages and a trace\<close>

definition mm_pkg :: "unit mm_ext mmpkg" where
  "mm_pkg = \<lparr>pk_init = mm_init, pk_malloc = mm_malloc, pk_free = mm_free, pk_realloc = mm_realloc\<rparr>"

definition imp_pkg :: "unit mm_imp_ext mmpkg" where
  "imp_pkg = \<lparr>pk_init = mm_init_imp, pk_malloc = mm_malloc_imp, pk_free = mm_free_imp,
     pk_realloc = mm_realloc_imp\<rparr>"

definition ref_pkg :: "unit mm_ref_ext mmpkg" where
  "ref_pkg = \<lparr>pk_init = mm_init_ref, pk_malloc = mm_malloc_ref, pk_free = mm_free_ref,
     pk_realloc = mm_realloc_ref\<rparr>"

definition seg_pkg :: "unit mm_seg_ext mmpkg" where
  "seg_pkg = \<lparr>pk_init = mm_init_seg, pk_malloc = mm_malloc_seg, pk_free = mm_free_seg,
     pk_realloc = mm_realloc_seg\<rparr>"

definition demo_trace :: trace where
  "demo_trace = \<lparr>sugg_heapsize = 20000, num_ids = 2, num_ops = 4, weight = 1,
     ops = [\<lparr>op_type = ALLOC, op_index = 0, op_size = 2040\<rparr>, \<lparr>op_type = ALLOC, op_index = 1, op_size = 16\<rparr>,
       \<lparr>op_type = REALLOC, op_index = 0, op_size = 4072\<rparr>, \<lparr>op_type = FREE, op_index = 1, op_size = 0\<rparr>],
     blocks = [0, 0], block_sizes = [0, 0]\<rparr>"

lemma demo_trace_facts:
  "trace_ops demo_trace = Some (ops demo_trace)" "wf_ops 2 5000 [] (ops demo_trace)"
  "demand (ops demo_trace) + 4120 \<le> MAX_HEAP"
  by (simp_all add: demo_trace_def trace_ops_def need_def MAX_HEAP_def)

definition demo_state :: "'a mem_scheme \<Rightarrow> 'a vstate" where
  "demo_state s = \<lparr>v_drv = \<lparr>errors = 0, printed = []\<rparr>, v_mem = s, v_ranges = [], v_trace = demo_trace\<rparr>"

lemma demo_state_facts:
  "v_mem (demo_state s) = s" "v_trace (demo_state s) = demo_trace"
  "length (blocks demo_trace) = 2" "length (block_sizes demo_trace) = 2"
  by (simp_all add: demo_state_def demo_trace_def)

text \<open>A trace without reallocations that frees all it has allocated.\<close>

definition plain_trace :: trace where
  "plain_trace = demo_trace\<lparr>ops :=
     [\<lparr>op_type = ALLOC, op_index = 0, op_size = 2040\<rparr>, \<lparr>op_type = ALLOC, op_index = 1, op_size = 16\<rparr>,
       \<lparr>op_type = FREE, op_index = 0, op_size = 0\<rparr>, \<lparr>op_type = FREE, op_index = 1, op_size = 0\<rparr>]\<rparr>"

lemma plain_trace_facts:
  "trace_ops plain_trace = Some (ops plain_trace)" "wf_ops 2 5000 [] (ops plain_trace)"
  "no_realloc (ops plain_trace)" "balanced (ops plain_trace)"
  "length (blocks plain_trace) = 2" "length (block_sizes plain_trace) = 2"
  by (simp_all add: plain_trace_def demo_trace_def trace_ops_def no_realloc_def balanced_def)

definition plain_state :: "'a mem_scheme \<Rightarrow> 'a vstate" where
  "plain_state s = (demo_state s)\<lparr>v_trace := plain_trace\<rparr>"

lemma plain_state_facts: "v_mem (plain_state s) = s" "v_trace (plain_state s) = plain_trace"
  by (simp_all add: plain_state_def demo_state_def)


text \<open>
  A world with one trace file and memory for the driver itself, a clock that ticks once a second, a libc allocator that has nothing to hand
  out.
\<close>

definition demo_world :: world where
  "demo_world = \<lparr>o_grants = (\<lambda>_ _. True), o_junk = 0, o_junk_ops = (\<lambda>_. \<lparr>op_type = FREE, op_index = 0, op_size = 0\<rparr>), o_junk_addr = (\<lambda>_. 0),
     o_file = (\<lambda>path. if path = ''./demo.rep'' then Some (show_trace demo_trace) else None)\<rparr>"



abbreviation read_demo_file :: "read_result option" where
  "read_demo_file \<equiv> read_trace granted 0 (\<lambda>_. \<lparr>op_type = FREE, op_index = 0, op_size = 0\<rparr>) (\<lambda>_. 0) (o_file demo_world)
     ''./'' ''demo.rep''"

lemma demo_file: "o_file demo_world (''./'' @ ''demo.rep'') = Some (show_trace demo_trace)"
  "readable granted ''./'' ''demo.rep'' demo_trace"
  by (simp_all add: demo_world_def readable_def MAXLINE_def)

lemma read_demo: "read_demo_file = Some (Trace demo_trace)"
proof -
  have "read_demo_file
    = Some (Trace (demo_trace\<lparr>ops := map (\<lambda>(k, p). sizes_kept (\<lambda>_. \<lparr>op_type = FREE, op_index = 0, op_size = 0\<rparr>) k p)
        (zip [0..<length (ops demo_trace)] (ops demo_trace)),
       blocks := alloc_array (\<lambda>_. 0) (num_ids demo_trace * 4) 4,
       block_sizes := alloc_array (\<lambda>_. 0) (num_ids demo_trace * 4) 4\<rparr>))"
    by (rule read_show_trace [where files = "o_file demo_world" and dir = "''./''" and fname = "''demo.rep''", OF demo_file]) (simp_all add: demo_trace_def max_id_def)
  moreover have "[0..<2] = [0, Suc 0]" by (simp add: upt_rec)
  ultimately show ?thesis by (simp add: demo_trace_def sizes_kept_def alloc_array_def upt_rec [of _ "Suc n" for n])
qed


text \<open>A trace of one request whose \<open>num_ids\<close> is \<open>2 ^ 30\<close>.\<close>

definition wide_trace :: trace where
  "wide_trace = demo_trace\<lparr>num_ids := 0x40000000, num_ops := 1,
     ops := [\<lparr>op_type = ALLOC, op_index = 0x3FFFFFFF, op_size = 8\<rparr>]\<rparr>"

section \<open>The driver and the packages\<close>

text \<open>
  C1. The driver's verdict on \<open>mm.c\<close>. On a well-formed trace \<open>eval_mm_valid\<close> comes to an end without
  an access outside the storage or a failed assertion. Either it accepts the package and prints
  nothing, or the last thing it prints is that \<open>mm_malloc\<close> or \<open>mm_realloc\<close> returned NULL: the package
  never hands out a misaligned, outlying or overlapping block and never loses data in
  \<open>mm_realloc\<close>. And it does accept the package when the requests, each counted as the larger of its rounded size and
  \<open>CHUNKSIZE\<close>, fit into the storage together.
\<close>

theorem driver_accepts_mm:
  assumes "geom (v_mem v)" "unat (mem_max_addr (v_mem v)) + B + 4112 < 2 ^ 32"
    and "length (blocks (v_trace v)) = n" "length (block_sizes (v_trace v)) = n"
    and "trace_ops (v_trace v) = Some ps" "wf_ops n B [] ps"
  shows "\<exists>good v'. eval_mm_valid mm_pkg tracenum v = Some (good, v')
    \<and> (if good then v_drv v' = v_drv v
       else \<exists>i. v_drv v' = malloc_error (v_drv v) tracenum i Mm_malloc_failed
         \<or> v_drv v' = malloc_error (v_drv v) tracenum i Mm_realloc_failed)
    \<and> (demand ps + 4120 \<le> MAX_HEAP \<longrightarrow> good)"
  using mm_package.eval_mm_valid_ok [OF mm.mm_package_axioms assms, of mm_pkg tracenum]
    sparing_package.eval_mm_valid_served [OF mm.sparing_package_axioms assms, of mm_pkg tracenum]
  by (fastforce simp: mm_pkg_def fails_with_def)

theorem driver_accepts_mm_witness:
  "\<exists>v'. eval_mm_valid mm_pkg 0 (demo_state fresh_mm) = Some (True, v') \<and> v_drv v' = v_drv (demo_state fresh_mm)"
proof -
  have "\<exists>good v'. eval_mm_valid mm_pkg 0 (demo_state fresh_mm) = Some (good, v')
    \<and> (if good then v_drv v' = v_drv (demo_state fresh_mm)
       else \<exists>i. v_drv v' = malloc_error (v_drv (demo_state fresh_mm)) 0 i Mm_malloc_failed
         \<or> v_drv v' = malloc_error (v_drv (demo_state fresh_mm)) 0 i Mm_realloc_failed)
    \<and> (demand (ops demo_trace) + 4120 \<le> MAX_HEAP \<longrightarrow> good)"
    by (rule driver_accepts_mm [where n = 2 and B = 5000])
      (simp_all only: demo_state_facts demo_trace_facts fresh_mm_facts, simp add: MAX_HEAP_def)
  with demo_trace_facts(3) show ?thesis by auto
qed

text \<open>
  C2. The same verdict on the implicit-list package: the driver relies on the contract of \<open>mm.h\<close>
  alone, and \<open>malloc/implicit-53.c\<close> keeps it too.
\<close>

theorem driver_accepts_implicit:
  assumes "geom (v_mem v)" "unat (mem_max_addr (v_mem v)) + B + 4112 < 2 ^ 32"
    and "length (blocks (v_trace v)) = n" "length (block_sizes (v_trace v)) = n"
    and "trace_ops (v_trace v) = Some ps" "wf_ops n B [] ps"
  shows "\<exists>good v'. eval_mm_valid imp_pkg tracenum v = Some (good, v')
    \<and> (if good then v_drv v' = v_drv v
       else \<exists>i. v_drv v' = malloc_error (v_drv v) tracenum i Mm_malloc_failed
         \<or> v_drv v' = malloc_error (v_drv v) tracenum i Mm_realloc_failed)
    \<and> (demand ps + 4120 \<le> MAX_HEAP \<longrightarrow> good)"
  using mm_package.eval_mm_valid_ok [OF imp.mm_package_axioms assms, of imp_pkg tracenum]
    sparing_package.eval_mm_valid_served [OF imp.sparing_package_axioms assms, of imp_pkg tracenum]
  by (fastforce simp: imp_pkg_def fails_with_def)

theorem driver_accepts_implicit_witness:
  "\<exists>v'. eval_mm_valid imp_pkg 0 (demo_state fresh_imp) = Some (True, v') \<and> v_drv v' = v_drv (demo_state fresh_imp)"
proof -
  have "\<exists>good v'. eval_mm_valid imp_pkg 0 (demo_state fresh_imp) = Some (good, v')
    \<and> (if good then v_drv v' = v_drv (demo_state fresh_imp)
       else \<exists>i. v_drv v' = malloc_error (v_drv (demo_state fresh_imp)) 0 i Mm_malloc_failed
         \<or> v_drv v' = malloc_error (v_drv (demo_state fresh_imp)) 0 i Mm_realloc_failed)
    \<and> (demand (ops demo_trace) + 4120 \<le> MAX_HEAP \<longrightarrow> good)"
    by (rule driver_accepts_implicit [where n = 2 and B = 5000])
      (simp_all only: demo_state_facts demo_trace_facts fresh_imp_facts, simp add: MAX_HEAP_def)
  with demo_trace_facts(3) show ?thesis by auto
qed



text \<open>
  C4. What \<open>eval_mm_util\<close> measures on \<open>mm.c\<close> is what its comment says: the high water mark of the payload bytes in use, as computed
  from the trace alone, over the size of the heap. The mark never exceeds the heap, so the \<open>int\<close> totals do not overflow and the
  ratio is at most 1. The timed run \<open>eval_mm_speed\<close> makes the same calls and ends in the same memory.
\<close>

theorem mm_utilization:
  assumes "geom s" "unat (mem_max_addr s) + B + 4112 < 2 ^ 32"
    and "length (blocks t) = n" "length (block_sizes t) = n"
    and "trace_ops t = Some ps" "wf_ops n B [] ps" "demand ps + 4120 \<le> MAX_HEAP"
  shows "\<exists>u h t'. eval_mm_util mm_pkg s t = Some (Ran (of_nat (peak n ps) / of_nat h, u))
    \<and> h = unat (mem_heapsize (u_mem u)) \<and> 0 < h \<and> peak n ps \<le> h
    \<and> eval_mm_speed mm_pkg s t = Some (Ran (u_mem u, t')) \<and> blocks t' = blocks (u_trace u)"
proof -
  obtain u h where u: "eval_mm_util mm_pkg s t = Some (Ran (of_nat (peak n ps) / of_nat h, u))"
    "h = unat (mem_heapsize (u_mem u))" "0 < h" "peak n ps \<le> h"
    using sparing_package.eval_mm_util_served [OF mm.sparing_package_axioms assms, of mm_pkg] by (auto simp: mm_pkg_def)
  with eval_mm_speed_follows [OF u(1)] show ?thesis by blast
qed

theorem mm_utilization_witness:
  "\<exists>u h. eval_mm_util mm_pkg fresh_mm demo_trace = Some (Ran (4088 / of_nat h, u)) \<and> 4088 \<le> h"
proof -
  have two: "(\<Sum>k<2. f k) = f 0 + f 1" for f :: "nat \<Rightarrow> nat" by (simp add: numeral_2_eq_2)
  have "peak 2 (ops demo_trace) = 4088"
    by (simp add: peak_def peak_from_Cons peak_from_Nil demo_trace_def size_step_def two)
  moreover have "unat (mem_max_addr fresh_mm) + 5000 + 4112 < 2 ^ 32" by (simp add: fresh_mm_facts MAX_HEAP_def)
  from mm_utilization [OF fresh_mm_facts(1) this demo_state_facts(3,4) demo_trace_facts] obtain u h where
    "eval_mm_util mm_pkg fresh_mm demo_trace = Some (Ran (of_nat (peak 2 (ops demo_trace)) / of_nat h, u))"
    "peak 2 (ops demo_trace) \<le> h" by blast
  ultimately show ?thesis by auto
qed

section \<open>The package of \<open>mm.c\<close> to its client\<close>

text \<open>
  C5. \<open>mm_malloc\<close> returns NULL and keeps every live payload, or returns a pointer that was not in use,
  8-aligned, inside the heap and with at least the requested bytes behind it, clear of every payload
  handed out before; the bytes of those are untouched.
\<close>

theorem mm_malloc_safe:
  assumes "repr_mm s L" "0 < sz" "request_fits s sz"
  shows "\<exists>p s'. mm_malloc s sz = Some (p, s')
    \<and> (if p = NULL then repr_mm s' L
       else L p = None \<and> 8 dvd unat p \<and> (\<exists>cs. unat sz \<le> length cs \<and> repr_mm s' (L(p \<mapsto> cs))
         \<and> unat (mem_start_brk s) \<le> unat p \<and> unat p + length cs \<le> unat (mem_brk s')
         \<and> (\<forall>q ds. L q = Some ds \<longrightarrow> unat p + length cs \<le> unat q \<or> unat q + length ds \<le> unat p)))"
  by (rule mm.handed_out [OF mm.malloc_ok [OF assms]])

theorem mm_malloc_safe_witness:
  "\<exists>p s'. mm_malloc boot_mm 100 = Some (p, s')
    \<and> (if p = NULL then repr_mm s' Map.empty
       else 8 dvd unat p \<and> (\<exists>cs. 100 \<le> length cs \<and> repr_mm s' [p \<mapsto> cs]))"
  using mm_malloc_safe [OF boot_mm_facts(4) _ boot_fits(1), of 100]
  by (fastforce simp: word_less_nat_alt split: if_splits)

text \<open>
  C6. \<open>mm_free\<close> of a live pointer returns, forgets exactly that payload and keeps the bytes of every
  other one.
\<close>

theorem mm_free_safe:
  assumes "repr_mm s L" "L p = Some cs"
  shows "\<exists>s'. mm_free s p = Some s' \<and> same_storage s s' \<and> repr_mm s' (L(p := None))"
  by (rule mm.free_ok [OF assms])

theorem mm_free_safe_witness:
  "\<exists>L s'. repr_mm one_mm L \<and> mm_free one_mm (ptr 0x10000000 6) = Some s'
    \<and> repr_mm s' (L(ptr 0x10000000 6 := None))"
proof -
  obtain L cs where "repr_mm one_mm L" "L (ptr 0x10000000 6) = Some cs" using one_mm_live by blast
  with mm_free_safe [OF this] show ?thesis by blast
qed

text \<open>
  C7. \<open>mm_realloc\<close> of a live pointer to a positive size returns NULL with the old block intact, or a
  block of at least the new size whose first bytes, up to the smaller of the two sizes, are the old ones; the
  old block is released and no other payload changes, although the copy reads the tags behind the
  old payload.
\<close>

theorem mm_realloc_preserves:
  assumes "repr_mm s L" "L p = Some cs" "0 < sz" "request_fits s sz"
  shows "\<exists>q s'. mm_realloc s p sz = Some (q, s') \<and> same_storage s s'
    \<and> (if q = NULL then repr_mm s' L
       else (L(p := None)) q = None \<and> (\<exists>ds. unat sz \<le> length ds
         \<and> take (min (unat sz) (length cs)) ds = take (min (unat sz) (length cs)) cs
         \<and> repr_mm s' ((L(p := None))(q \<mapsto> ds))))"
  by (rule mm.realloc_ok [OF assms])

theorem mm_realloc_preserves_witness:
  "\<exists>L cs q s'. L (ptr 0x10000000 6) = Some cs \<and> mm_realloc one_mm (ptr 0x10000000 6) 200 = Some (q, s')
    \<and> (q = NULL \<or> (\<exists>ds. 200 \<le> length ds \<and> take 104 ds = cs
         \<and> repr_mm s' ((L(ptr 0x10000000 6 := None))(q \<mapsto> ds))))"
proof -
  obtain L cs where L: "repr_mm one_mm L" "L (ptr 0x10000000 6) = Some cs" "length cs = 104"
    using one_mm_live by blast
  have "(0 :: addr) < 200" "request_fits one_mm 200"
    by (simp_all add: request_fits_def one_mm_facts MAX_HEAP_def)
  from mm_realloc_preserves [OF L(1,2) this] obtain q s' where
    q: "mm_realloc one_mm (ptr 0x10000000 6) 200 = Some (q, s')"
    and d: "if q = NULL then repr_mm s' L else (L(ptr 0x10000000 6 := None)) q = None
      \<and> (\<exists>ds. unat (200 :: addr) \<le> length ds
         \<and> take (min (unat (200 :: addr)) (length cs)) ds = take (min (unat (200 :: addr)) (length cs)) cs
         \<and> repr_mm s' ((L(ptr 0x10000000 6 := None))(q \<mapsto> ds)))" by blast
  from d have "q = NULL \<or> (\<exists>ds. 200 \<le> length ds \<and> take 104 ds = cs
      \<and> repr_mm s' ((L(ptr 0x10000000 6 := None))(q \<mapsto> ds)))"
    using L(3) by (cases "q = NULL") simp_all
  with L(2) q show ?thesis by blast
qed

text \<open>
  C8. \<open>mm_init\<close> on an empty heap returns 0 and establishes the package's invariant with one free block of
  \<open>CHUNKSIZE\<close> bytes: tagged blocks that tile the heap, no two free ones adjacent, and a circular list
  through exactly the free ones.
\<close>

theorem mm_init_establishes:
  assumes "geom s" "mem_brk s = mem_start_brk s" "unat (mem_max_addr s) + 4096 < 2 ^ 32"
  shows "\<exists>s'. mm_init s = Some (0, s') \<and> mm_inv s' [Free 1024] [6]
    \<and> mem_start_brk s' = mem_start_brk s \<and> mem_max_addr s' = mem_max_addr s"
  by (rule mm_init_ok [OF assms])

theorem mm_init_establishes_witness:
  "\<exists>s'. mm_init fresh_mm = Some (0, s') \<and> mm_inv s' [Free 1024] [6] \<and> mem_start_brk s' = 0x10000000"
  using mm_init_establishes [OF fresh_mm_facts(1,2)] by (force simp: fresh_mm_facts MAX_HEAP_def)

section \<open>The policy of \<open>mm.c\<close>\<close>

text \<open>
  C9. \<open>mm_malloc\<close> is first fit along the free list: if some listed block has room for the rounded request,
  the first such block is returned, split when the rest holds at least 16 bytes, and the list loses it
  and gains the rest in front.
\<close>

theorem mm_malloc_first_fit:
  assumes "mm_inv s bs fl" "0 < sz" "request_fits s sz"
    and "find (\<lambda>i. req_words sz \<le> words_at bs i) fl = Some j"
  shows "\<exists>xs n ys ws s'. bs = xs @ Free n # ys \<and> j = 6 + twords xs \<and> req_words sz \<le> n
    \<and> length ws = place_gets n (req_words sz) - 2
    \<and> mm_malloc s sz = Some (ptr (mem_start_brk s) j, s')
    \<and> mm_inv s' (xs @ Used ws # place_rest n (req_words sz) @ ys) (place_list j n (req_words sz) fl)
    \<and> only_heap s s'"
  by (rule mm_malloc_fit [OF assms])

theorem mm_malloc_first_fit_witness:
  "\<exists>ws s'. mm_malloc boot_mm 100 = Some (ptr 0x10000000 6, s') \<and> length ws = 26
    \<and> mm_inv s' [Used ws, Free 996] [34]"
proof -
  have "find (\<lambda>i. req_words 100 \<le> words_at [Free 1024] i) [6] = Some 6"
    by (simp add: words_at_def block_words_def req_words_100)
  from mm_malloc_first_fit [OF boot_mm_facts(1) _ boot_fits(1) this] obtain xs n ys ws s' where
    r: "[Free 1024] = xs @ Free n # ys" "length ws = place_gets n 28 - 2"
      "mm_malloc boot_mm 100 = Some (ptr (mem_start_brk boot_mm) 6, s')"
      "mm_inv s' (xs @ Used ws # place_rest n 28 @ ys) (place_list 6 n 28 [6])"
    unfolding req_words_100 by (force simp: word_less_nat_alt)
  have "xs = []" "n = 1024" "ys = []" using r(1) by (cases xs; simp)+
  with r boot_mm_facts(2) show ?thesis
    by (intro exI [of _ ws] exI [of _ s']) (simp add: place_gets_def place_rest_def place_list_def)
qed

text \<open>
  C10. When no listed block fits, \<open>mm_malloc\<close> grows the heap by the larger of the request and
  \<open>CHUNKSIZE\<close>, merges the new space with a free block before it and places the request there.
\<close>

theorem mm_malloc_grows:
  assumes "mm_inv s bs fl" "0 < sz" "request_fits s sz"
    and "find (\<lambda>i. req_words sz \<le> words_at bs i) fl = None"
    and "n = max (req_words sz) 1024" "coalesced bs n [] = (xs', m, ys')" "6 + twords bs + n \<le> HEAPW"
    and "gl = (6 + twords xs') # outside (6 + twords xs') m fl"
  shows "\<exists>ws s'. length ws = place_gets m (req_words sz) - 2
    \<and> mm_malloc s sz = Some (ptr (mem_start_brk s) (6 + twords xs'), s')
    \<and> mm_inv s' (xs' @ Used ws # place_rest m (req_words sz) @ ys')
        (place_list (6 + twords xs') m (req_words sz) gl) \<and> only_heap s s'"
  by (rule mm_malloc_grow(1) [OF assms(1-6,8,7)])

theorem mm_malloc_grows_witness:
  "\<exists>ws s'. mm_malloc boot_mm 8000 = Some (ptr 0x10000000 6, s') \<and> length ws = 2000
    \<and> mm_inv s' [Used ws, Free 1024] [2008]"
proof -
  have w: "req_words 8000 = 2002" by (simp add: req_words_def)
  have f: "find (\<lambda>i. req_words 8000 \<le> words_at [Free 1024] i) [6] = None"
    by (simp add: words_at_def block_words_def w)
  have c: "coalesced [Free 1024] 2002 [] = ([], 3026, [])"
    by (simp add: coalesced_def join_prev_def join_next_def prev_used_def next_used_def prev_words_def)
  have "\<exists>ws s'. length ws = place_gets 3026 (req_words 8000) - 2
    \<and> mm_malloc boot_mm 8000 = Some (ptr (mem_start_brk boot_mm) (6 + twords []), s')
    \<and> mm_inv s' ([] @ Used ws # place_rest 3026 (req_words 8000) @ [])
        (place_list (6 + twords []) 3026 (req_words 8000) (6 # outside 6 3026 [6])) \<and> only_heap boot_mm s'"
    by (rule mm_malloc_grows [OF boot_mm_facts(1) _ boot_fits(1) f _ c])
      (simp_all add: w HEAPW_eq word_less_nat_alt)
  then show ?thesis unfolding w boot_mm_facts(2)
    by (simp add: place_gets_def place_rest_def place_list_def outside_def) blast
qed

text \<open>
  C11. When no listed block fits and the 20 MB storage has no room for the new space, \<open>mm_malloc\<close>
  returns NULL and changes nothing.
\<close>

theorem mm_malloc_out_of_memory:
  assumes "mm_inv s bs fl" "0 < sz" "request_fits s sz"
    and "find (\<lambda>i. req_words sz \<le> words_at bs i) fl = None"
    and "\<not> 6 + twords bs + max (req_words sz) 1024 \<le> HEAPW"
  shows "mm_malloc s sz = Some (NULL, s)"
proof -
  obtain xs' m ys' where c: "coalesced bs (max (req_words sz) 1024) [] = (xs', m, ys')" by (metis prod_cases3)
  show ?thesis by (rule mm_malloc_grow(2) [OF assms(1-4) refl c refl assms(5)])
qed

theorem mm_malloc_out_of_memory_witness:
  "mm_malloc boot_mm (of_nat MAX_HEAP) = Some (NULL, boot_mm)"
proof (rule mm_malloc_out_of_memory [OF boot_mm_facts(1)])
  have w: "req_words (of_nat MAX_HEAP) = 5242882" by (simp add: req_words_def MAX_HEAP_def)
  show "find (\<lambda>i. req_words (of_nat MAX_HEAP) \<le> words_at [Free 1024] i) [6] = None"
    by (simp add: words_at_def block_words_def w)
  show "\<not> 6 + twords [Free 1024] + max (req_words (of_nat MAX_HEAP)) 1024 \<le> HEAPW"
    by (simp add: w HEAPW_eq)
  show "request_fits boot_mm (of_nat MAX_HEAP)" by (rule boot_fits) (simp add: MAX_HEAP_def)
qed (simp add: MAX_HEAP_def)

text \<open>
  C12. \<open>mm_free\<close> merges the block with the free blocks next to it, on either side, both or neither, and
  the merged block enters the list in front while the merged ones leave it.
\<close>

theorem mm_free_coalesces:
  assumes "mm_inv s (xs @ Used ws # ys) fl" "coalesced xs (length ws + 2) ys = (xs', m, ys')"
  shows "\<exists>s'. mm_free s (ptr (mem_start_brk s) (6 + twords xs)) = Some s'
    \<and> mm_inv s' (xs' @ Free m # ys') ((6 + twords xs') # outside (6 + twords xs') m fl) \<and> only_heap s s'"
  by (rule mm_free_ok [OF assms(1) refl assms(2)])

theorem mm_free_coalesces_witness:
  "\<exists>s'. mm_free one_mm (ptr 0x10000000 6) = Some s' \<and> mm_inv s' [Free 1024] [6]"
proof -
  obtain ws where ws: "length ws = 26" "mm_inv one_mm ([] @ Used ws # [Free 996]) [34]"
    using one_mm_facts(1) by auto
  have c: "coalesced [] (length ws + 2) [Free 996] = ([], 1024, [])"
    by (simp add: ws(1) coalesced_def join_prev_def join_next_def prev_used_def next_used_def next_words_def)
  from mm_free_coalesces [OF ws(2) c] show ?thesis
    by (auto simp: one_mm_facts(2) outside_def)
qed

text \<open>
  The free list is a LIFO store: a free block that \<open>list_add\<close> put in front is taken off by
  \<open>list_remove\<close>, and the list is the old one again, with all links and tags in place.
\<close>

theorem list_add_then_remove:
  assumes "listed s bs fl" "p \<in> set (frees 6 bs)" "p \<notin> set fl"
  shows "\<exists>s1 s2. list_add s (ptr (mem_start_brk s) p) = Some s1
    \<and> list_remove s1 (ptr (mem_start_brk s) p) = Some s2
    \<and> listed s1 bs (p # fl) \<and> listed s2 bs fl \<and> only_heap s s2"
  by (rule list_add_remove [OF assms])

theorem list_add_then_remove_witness:
  "\<exists>s s1 s2. listed s [Free 1024] [] \<and> list_add s (ptr 0x10000000 6) = Some s1
    \<and> list_remove s1 (ptr 0x10000000 6) = Some s2 \<and> listed s2 [Free 1024] []"
proof -
  have "listed boot_mm [Free 1024] ([] @ 6 # [])" using boot_mm_facts(1) by (simp add: mm_inv_def)
  from list_remove_ok [OF this] obtain s where s: "listed s [Free 1024] []" "only_heap boot_mm s" by auto
  have "mem_start_brk s = 0x10000000" using only_heap_bounds [OF s(2)] boot_mm_facts(2) by simp
  with list_add_then_remove [OF s(1), of 6] s(1) show ?thesis by auto
qed

text \<open>
  A client that writes inside the payload of a live block, in any way, changes this payload and nothing else:
  tags, links and the other payloads stay as they are.
\<close>

theorem mm_client_write:
  assumes "repr_mm s L" "L p = Some cs" "\<And>a. \<not> unat (a - p) < length cs \<Longrightarrow> m a = bytes s a"
  shows "repr_mm (s\<lparr>bytes := m\<rparr>) (L(p \<mapsto> map (\<lambda>k. m (p + of_nat k)) [0..<length cs]))"
  by (rule mm.repr_write [OF assms])

theorem mm_client_write_witness:
  "\<exists>L m. m (ptr 0x10000000 6) = 0xFF \<and> repr_mm (one_mm\<lparr>bytes := m\<rparr>) L"
proof -
  obtain L cs where L: "repr_mm one_mm L" "L (ptr 0x10000000 6) = Some cs" "length cs = 104"
    using one_mm_live by blast
  let ?m = "(bytes one_mm)(ptr 0x10000000 6 := 0xFF)"
  have "repr_mm (one_mm\<lparr>bytes := ?m\<rparr>)
      (L(ptr 0x10000000 6 \<mapsto> map (\<lambda>k. ?m (ptr 0x10000000 6 + of_nat k)) [0..<length cs]))"
    by (rule mm_client_write [OF L(1,2)]) (use L(3) in auto)
  then show ?thesis by (intro exI [of _ ?m] exI conjI) simp_all
qed

text \<open>
  \<open>mm_realloc\<close> to size 0 returns NULL for every pointer and does not release the block.
\<close>

theorem mm_realloc_zero:
  "mm_realloc s p 0 = Some (NULL, s)"
  by (rule mm.realloc_null) (simp add: mm_malloc_def)

text \<open>
  C13. A request among the fifteen largest sizes overflows the rounding to a multiple of eight: \<open>mm_malloc\<close> takes the
  first block of the free list for it, whatever its size, and returns a pointer that is not NULL.
\<close>

theorem mm_malloc_size_overflow:
  assumes "mm_inv s bs (i # fl)" "2 ^ 32 \<le> unat sz + 15"
  shows "\<exists>s'. mm_malloc s sz = Some (ptr (mem_start_brk s) i, s') \<and> ptr (mem_start_brk s) i \<noteq> NULL"
  using mm_malloc_overflow [OF assms] by blast

theorem mm_malloc_size_overflow_witness:
  "\<exists>s'. mm_malloc boot_mm 0xFFFFFFFF = Some (ptr 0x10000000 6, s')"
  using mm_malloc_size_overflow [OF boot_mm_facts(1), of "0xFFFFFFFF"] boot_mm_facts(2) by auto

section \<open>The implicit list\<close>

text \<open>
  The implicit-list package is first fit in address order: the search walks all blocks from the
  prologue, ends, and \<open>mm_malloc\<close> takes the first free block with room, split if the rest holds 16 bytes.
\<close>

theorem implicit_first_fit:
  assumes "heap_blocks s 2 bs" "heap_listp_imp s = ptr (mem_start_brk s) 2" "0 < sz" "request_fits s sz"
    and "first_fit (req_words sz) 4 bs = Some i"
  shows "\<exists>xs n ys ws s'. bs = xs @ Free n # ys \<and> i = 4 + twords xs \<and> req_words sz \<le> n
    \<and> length ws = place_gets n (req_words sz) - 2
    \<and> mm_malloc_imp s sz = Some (ptr (mem_start_brk s) i, s')
    \<and> heap_blocks s' 2 (xs @ Used ws # place_rest n (req_words sz) @ ys) \<and> only_heap s s'"
  by (rule mm_malloc_imp_fit [OF assms])

theorem implicit_first_fit_witness:
  "\<exists>ws s'. mm_malloc_imp boot_imp 100 = Some (ptr 0x10000000 4, s') \<and> length ws = 26
    \<and> heap_blocks s' 2 [Used ws, Free 996]"
proof -
  have "first_fit (req_words 100) 4 [Free 1024] = Some 4" by (simp add: req_words_100)
  from implicit_first_fit [OF boot_imp_facts(1,2) _ boot_fits(2) this] obtain xs n ys ws s' where
    r: "[Free 1024] = xs @ Free n # ys" "length ws = place_gets n 28 - 2"
      "mm_malloc_imp boot_imp 100 = Some (ptr (mem_start_brk boot_imp) 4, s')"
      "heap_blocks s' 2 (xs @ Used ws # place_rest n 28 @ ys)"
    unfolding req_words_100 by (force simp: word_less_nat_alt)
  have "xs = []" "n = 1024" "ys = []" using r(1) by (cases xs; simp)+
  with r boot_imp_facts(3) show ?thesis
    by (intro exI [of _ ws] exI [of _ s']) (simp add: place_gets_def place_rest_def)
qed

text \<open>
  \<open>mm_free\<close> of the implicit list merges the block with both neighbours as the block list does.
\<close>

theorem implicit_free_coalesces:
  assumes "heap_blocks s 2 (xs @ Used ws # ys)" "coalesced xs (length ws + 2) ys = (xs', m, ys')"
  shows "\<exists>s'. mm_free_imp s (ptr (mem_start_brk s) (4 + twords xs)) = Some s'
    \<and> heap_blocks s' 2 (xs' @ Free m # ys') \<and> only_heap s s'"
  by (rule mm_free_imp_ok [OF assms(1) refl assms(2)])

theorem implicit_free_coalesces_witness:
  "\<exists>s'. mm_free_imp one_imp (ptr 0x10000000 4) = Some s' \<and> heap_blocks s' 2 [Free 1024]"
proof -
  obtain ws where ws: "length ws = 26" "heap_blocks one_imp 2 ([] @ Used ws # [Free 996])"
    using one_imp_facts(1) by auto
  have c: "coalesced [] (length ws + 2) [Free 996] = ([], 1024, [])"
    by (simp add: ws(1) coalesced_def join_prev_def join_next_def prev_used_def next_used_def next_words_def)
  from implicit_free_coalesces [OF ws(2) c] show ?thesis by (auto simp: one_imp_facts(2))
qed

section \<open>The memory system\<close>

text \<open>
  C14. As long as the new break stays below \<open>2 ^ 32\<close>, \<open>mem_sbrk\<close> either moves the break up inside the storage and
  returns the old one, or returns \<open>(void *)-1\<close> and changes nothing; the storage itself never moves.
\<close>

theorem mem_sbrk_bounded:
  assumes "geom s" "unat (mem_brk s) + unat incr < 2 ^ 32"
  shows "mem_sbrk s incr =
    (if 0 \<le> sint incr \<and> unat (mem_brk s) + unat incr \<le> unat (mem_start_brk s) + MAX_HEAP
     then (mem_brk s, s\<lparr>mem_brk := mem_brk s + incr\<rparr>) else (- 1, s))
    \<and> geom (snd (mem_sbrk s incr)) \<and> mem_brk s \<le> mem_brk (snd (mem_sbrk s incr))"
  using mem_sbrk_cases [OF assms] mem_sbrk_geom(1,2) [OF assms] by (metis prod.collapse)

theorem mem_sbrk_bounded_witness:
  "mem_sbrk fresh_mm 4096 = (0x10000000, fresh_mm\<lparr>mem_brk := 0x10001000\<rparr>)
    \<and> mem_sbrk fresh_mm 0x7FFFFFFF = (- 1, fresh_mm)"
  using mem_sbrk_bounded [OF fresh_mm_facts(1), of 4096] mem_sbrk_bounded [OF fresh_mm_facts(1), of "0x7FFFFFFF"]
  by (simp add: fresh_mm_facts MAX_HEAP_def)

text \<open>
  C15. Beyond it the check fails to hold: an increment whose sum with the break wraps round is accepted, and
  the break then lies below the start of the heap.
\<close>

theorem mem_sbrk_accepts_wrapped:
  assumes "geom s" "0 \<le> sint incr" "2 ^ 32 \<le> unat (mem_brk s) + unat incr"
  shows "\<exists>s'. mem_sbrk s incr = (mem_brk s, s') \<and> mem_brk s' < mem_start_brk s'"
  by (rule mem_sbrk_wraps_below [OF assms])

definition high_mm :: mm where
  "high_mm = fresh_mm\<lparr>mem_start_brk := 0xF0000000, mem_brk := 0xF0000000,
     mem_max_addr := 0xF0000000 + of_nat MAX_HEAP\<rparr>"

theorem mem_sbrk_accepts_wrapped_witness:
  "\<exists>s'. mem_sbrk high_mm 0x7FFFFFFF = (0xF0000000, s') \<and> mem_brk s' < mem_start_brk s'"
proof -
  have "unat (0xF0000000 + of_nat MAX_HEAP :: addr) = 0xF0000000 + MAX_HEAP"
    by (subst unat_add_of_nat32) (simp_all add: MAX_HEAP_def)
  then have "geom high_mm"
    by (simp add: geom_def high_mm_def word_le_nat_alt MAX_HEAP_def)
  from mem_sbrk_accepts_wrapped [OF this, of "0x7FFFFFFF"] show ?thesis
    by (simp add: high_mm_def)
qed

section \<open>The driver\<close>

text \<open>
  C16. \<open>read_trace\<close> reads back a trace written in the format of the trace files: header, requests in order, indices
  and sizes, for every trace whose largest index is \<open>num_ids - 1\<close> and whose arrays have sizes that do not wrap (below \<open>2 ^ 30\<close> indices, and
  requests of 12 bytes each), where there is memory for them and the path fits into its buffer. The size of a free
  request is not stored and stays what memory held, like the contents of the two block arrays.
\<close>

theorem read_trace_roundtrip:
  assumes "files (dir @ fname) = Some (show_trace t)" "readable grants dir fname t"
    and "num_ops t = of_nat (length (ops t))" "12 * length (ops t) < 2 ^ 32" "unat (num_ids t) < 2 ^ 30"
    and "0 \<le> sint (sugg_heapsize t)" "0 \<le> sint (weight t)" "max_id (ops t) 0 = num_ids t - 1"
  shows "read_trace grants junk junk_ops junk_addr files dir fname = Some (Trace
    (t\<lparr>ops := map (\<lambda>(k, p). sizes_kept junk_ops k p) (zip [0..<length (ops t)] (ops t)),
       blocks := map junk_addr [0..<unat (num_ids t)], block_sizes := map junk_addr [0..<unat (num_ids t)]\<rparr>))"
proof -
  have "unat (num_ids t * of_nat 4) div 4 = unat (num_ids t)" by (rule unat_mult_div) (use assms(5) in simp_all)
  then have a: "alloc_array junk_addr (num_ids t * 4) 4 = map junk_addr [0..<unat (num_ids t)]" by (simp add: alloc_array_def)
  have "0 \<le> sint (num_ids t)" using sint_small [of "num_ids t"] assms(5) by simp
  from read_show_trace [where files = files and dir = dir and fname = fname, OF assms(1-4,6) this assms(7,8)]
  show ?thesis unfolding a [symmetric] .
qed

theorem read_trace_roundtrip_witness: "read_demo_file = Some (Trace demo_trace)"
proof -
  have "read_demo_file
    = Some (Trace (demo_trace\<lparr>ops := map (\<lambda>(k, p). sizes_kept (\<lambda>_. \<lparr>op_type = FREE, op_index = 0, op_size = 0\<rparr>) k p)
        (zip [0..<length (ops demo_trace)] (ops demo_trace)),
       blocks := map (\<lambda>_. 0) [0..<unat (num_ids demo_trace)],
       block_sizes := map (\<lambda>_. 0) [0..<unat (num_ids demo_trace)]\<rparr>))"
    by (rule read_trace_roundtrip [where files = "o_file demo_world" and dir = "''./''" and fname = "''demo.rep''", OF demo_file]) (simp_all add: demo_trace_def max_id_def)
  moreover have "[0..<2] = [0, Suc 0]" by (simp add: upt_rec)
  ultimately show ?thesis by (simp add: demo_trace_def sizes_kept_def upt_rec [of _ "Suc n" for n])
qed

text \<open>
  C17. Every trace \<open>read_trace\<close> returns is well typed: all announced requests were read, the array of requests has exactly as many entries, and
  a request that allocates names an index below \<open>num_ids\<close>; so the loop over the requests stays inside its array. The two block arrays have as
  many entries as \<open>num_ids * 4\<close> bytes, computed in 32 bits, can hold: below \<open>2 ^ 30\<close> indices one for each, so that every allocating request can
  be recorded, beyond that fewer. What \<open>read_trace\<close> does not return from is no part of the claim: a word or a path of \<open>MAXLINE\<close> characters
  overruns a buffer, and memory can be refused.
\<close>

theorem read_trace_typed:
  assumes "read_trace grants junk junk_ops junk_addr files dir fname = Some (Trace t)"
  shows "typed_trace t \<and> trace_ops t = Some (ops t)
    \<and> (unat (num_ids t) < 2 ^ 30 \<longrightarrow> length (blocks t) = unat (num_ids t) \<and> length (block_sizes t) = unat (num_ids t)
      \<and> (\<forall>p \<in> set (ops t). op_type p \<noteq> FREE \<and> num_ids t \<noteq> 0 \<longrightarrow>
          (\<forall>a m. set_block t (op_index p) a \<noteq> None \<and> set_block_size t (op_index p) m \<noteq> None)))"
  using read_trace_is_typed [OF assms] typed_trace_ops typed_trace_access by blast

theorem read_trace_typed_witness:
  "\<exists>t. read_demo_file = Some (Trace t) \<and> typed_trace t \<and> length (blocks t) = 2 \<and> set_block t 1 0x10000018 \<noteq> None"
proof -
  have "unat (num_ids demo_trace) < 2 ^ 30" "num_ids demo_trace \<noteq> 0"
    "\<lparr>op_type = ALLOC, op_index = 1, op_size = 16\<rparr> \<in> set (ops demo_trace)"
    by (simp_all add: demo_trace_def)
  with read_trace_typed [OF read_demo] demo_state_facts(3) read_demo show ?thesis by fastforce
qed

text \<open>
  Beyond that bound: with \<open>2 ^ 30\<close> indices the size of the block arrays wraps to 0. The trace is accepted, and the pointer of its only
  request has no place.
\<close>

theorem read_trace_accepts_empty_arrays:
  "\<exists>t. read_trace granted junk junk_ops junk_addr (\<lambda>_. Some (show_trace wide_trace)) ''./'' ''wide.rep'' = Some (Trace t)
    \<and> num_ids t = 0x40000000 \<and> blocks t = [] \<and> block_sizes t = []
    \<and> ops t = [\<lparr>op_type = ALLOC, op_index = 0x3FFFFFFF, op_size = 8\<rparr>] \<and> set_block t 0x3FFFFFFF p = None"
proof -
  have "readable granted ''./'' ''wide.rep'' wide_trace" by (simp add: readable_def MAXLINE_def)
  from read_show_trace [OF _ this, of "\<lambda>_. Some (show_trace wide_trace)" junk junk_ops junk_addr] show ?thesis
    by (simp add: wide_trace_def demo_trace_def max_id_def sizes_kept_def alloc_array_def set_block_def aset_def upt_rec)
qed

text \<open>
  C18. What \<open>add_range\<close> accepts is 8-aligned, inside the heap, and each recorded range is apart from it or lies strictly
  inside it; no error is counted.
\<close>

theorem add_range_accepts:
  assumes "add_range d s rs lo sz tracenum opnum = Some (True, d', rs')"
  shows "8 dvd unat lo \<and> mem_heap_lo s \<le> lo \<and> lo + sz - 1 \<le> mem_heap_hi s \<and> d' = d
    \<and> rs' = (lo, lo + sz - 1) # rs
    \<and> (\<forall>r \<in> set rs. apart (lo, lo + sz - 1) r \<or> lo < fst r \<and> snd r < lo + sz - 1)"
  using add_range_sound [OF assms] by blast

theorem add_range_accepts_witness:
  "\<exists>d' rs'. add_range \<lparr>errors = 0, printed = []\<rparr> (boot_mm\<lparr>mem_brk := 0x10001000\<rparr>) [] 0x10000018 100 0 0 = Some (True, d', rs')
    \<and> 8 dvd unat (0x10000018 :: addr) \<and> rs' = [(0x10000018, 0x1000007B)]"
proof -
  let ?d = "\<lparr>errors = 0, printed = []\<rparr>"
  have a: "add_range ?d (boot_mm\<lparr>mem_brk := 0x10001000\<rparr>) [] 0x10000018 100 0 0
      = Some (True, ?d, [(0x10000018, 0x1000007B)])"
    by (simp add: add_range_def Let_def mem_heap_lo_def mem_heap_hi_def boot_mm_facts IS_ALIGNED_def ALIGNMENT_def)
  from add_range_accepts [OF a] a show ?thesis by blast
qed

text \<open>
  C19. The overlap test looks at the ends of the new range only: a payload that strictly contains every
  recorded one is accepted without an error.
\<close>

theorem add_range_misses_contained:
  assumes "0 < sint sz" "IS_ALIGNED lo" "mem_heap_lo s \<le> lo" "lo \<le> mem_heap_hi s"
    "mem_heap_lo s \<le> lo + sz - 1" "lo + sz - 1 \<le> mem_heap_hi s"
    and "\<forall>r \<in> set rs. lo < fst r \<and> fst r \<le> snd r \<and> snd r < lo + sz - 1"
  shows "add_range d s rs lo sz tracenum opnum = Some (True, d, (lo, lo + sz - 1) # rs)"
  by (rule add_range_inside [OF assms(1-6)]) (use assms(7) in blast)

theorem add_range_misses_contained_witness:
  "add_range \<lparr>errors = 0, printed = []\<rparr> (boot_mm\<lparr>mem_brk := 0x10001000\<rparr>) [(0x10000020, 0x10000027)] 0x10000018 100 0 0
    = Some (True, \<lparr>errors = 0, printed = []\<rparr>, [(0x10000018, 0x1000007B), (0x10000020, 0x10000027)])"
  using add_range_misses_contained [of 100 "0x10000018" "boot_mm\<lparr>mem_brk := 0x10001000\<rparr>" "[(0x10000020, 0x10000027)]"
      "\<lparr>errors = 0, printed = []\<rparr>" 0 0]
  by (simp add: mem_heap_lo_def mem_heap_hi_def boot_mm_facts IS_ALIGNED_def ALIGNMENT_def)

text \<open>
  C20. The check of \<open>mm_realloc\<close>'s data compares a signed \<open>char\<close> with a number from 0 to 255: for an index whose low
  byte is 128 or more it reports lost data at the first byte, whatever the byte is.
\<close>

theorem realloc_check_rejects_high_index:
  assumes "128 \<le> unat index mod 256" "in_storage s (newp + of_nat j) 1"
  shows "preserved_from s newp index j (Suc k) = Some False"
  by (rule preserved_fails [OF assms])

theorem realloc_check_rejects_high_index_witness:
  "preserved_from (boot_mm\<lparr>bytes := (\<lambda>_. 200)\<rparr>) 0x10000018 200 0 1 = Some False"
proof -
  have "in_storage (boot_mm\<lparr>bytes := (\<lambda>_. 200)\<rparr>) (0x10000018 + of_nat 0) 1"
    by (simp add: in_storage_def boot_mm_facts MAX_HEAP_def word_le_nat_alt)
  from realloc_check_rejects_high_index [OF _ this, of 200 0] show ?thesis by simp
qed

text \<open>
  Whatever the command line, the trace directory the driver goes on with ends in a slash.
\<close>

theorem trace_directory_ends_in_slash:
  assumes "parse_opts grants k cs default_options = Some (Running opt)"
  shows "tracedir opt \<noteq> '''' \<and> last (tracedir opt) = CHR ''/''"
  by (rule parse_opts_dir [OF assms]) (simp add: default_options_def)

theorem trace_directory_ends_in_slash_witness:
  "\<exists>opt. parse_opts (\<lambda>_ _. True) 0 [(CHR ''v'', ''''), (CHR ''t'', ''traces'')] default_options = Some (Running opt)
    \<and> tracedir opt = ''traces/'' \<and> last (tracedir opt) = CHR ''/''"
proof -
  obtain opt where o: "parse_opts (\<lambda>_ _. True) 0 [(CHR ''v'', ''''), (CHR ''t'', ''traces'')] default_options = Some (Running opt)"
    "tracedir opt = ''traces/''"
    by (simp add: parse_opt_def default_options_def Let_def MAXLINE_def)
  with trace_directory_ends_in_slash [OF o(1)] show ?thesis by blast
qed

text \<open>
  The performance index lies between 0 and 100 when the utilizations lie between 0 and 1 and the
  counts and times are not negative.
\<close>

theorem perf_index_in_range:
  assumes "sts \<noteq> []" "\<forall>st \<in> set sts. 0 \<le> st_util st \<and> st_util st \<le> 1 \<and> 0 \<le> st_ops st \<and> 0 \<le> st_secs st"
    and "perf_index errs sts = Some p"
  shows "0 \<le> p \<and> p \<le> 100"
  using perf_index_bounds [OF assms(1) _ assms(3)] assms(2) by blast

theorem perf_index_in_range_witness:
  "\<exists>p. perf_index 0 [\<lparr>st_ops = 5000, st_valid = True, st_secs = 1 / 100, st_util = 9 / 10\<rparr>] = Some p
    \<and> 0 \<le> p \<and> p \<le> 100"
proof -
  have "perf_index 0 [\<lparr>st_ops = 5000, st_valid = True, st_secs = 1 / 100, st_util = 9 / 10\<rparr>]
      = Some ((UTIL_WEIGHT * (9 / 10) + (1 - UTIL_WEIGHT) * (500000 / AVG_LIBC_THRUPUT)) * 100)"
    by (simp add: perf_index_def accumulate_def thru_share_def AVG_LIBC_THRUPUT_def)
  with perf_index_in_range [OF _ _ this] show ?thesis by simp
qed

section \<open>Timing\<close>

text \<open>
  C21. \<open>get_counter\<close> on the Pentium, with its two 32-bit halves and its borrow, computes the difference of the
  two 64-bit readings modulo \<open>2 ^ 64\<close>.
\<close>

theorem counter_is_64_bit_difference:
  "elapsed hi0 lo0 hi lo
     = of_int ((2 ^ 32 * uint hi + uint lo - (2 ^ 32 * uint hi0 + uint lo0)) mod 2 ^ 64)"
  by (rule elapsed_eq)

text \<open>
  C22. \<open>add_sample\<close> keeps the \<open>kbest\<close> smallest samples, in order, at the front of its array, and stays inside it.
\<close>

theorem add_sample_keeps_smallest:
  assumes "sampled f xs"
  shows "\<exists>f'. add_sample f x = Some f' \<and> sampled f' (x # xs) \<and> params f' = params f"
  by (rule add_sample_ok [OF assms])

theorem add_sample_keeps_smallest_witness:
  "\<exists>f'. add_sample (init_sampler True sampler_init) 7 = Some f' \<and> sampled f' [7]"
  using add_sample_keeps_smallest [OF sampled_init [of sampler_init], of 7]
  by (auto simp: sampler_init_def)

text \<open>
  C23. \<open>fcyc\<close> returns for every timed function: after at least one and at most \<open>maxsamples\<close> measurements (one, if
  that is not positive), with the smallest of them. Provided are: \<open>calloc\<close> has memory for the \<open>kbest\<close> samples, whose size does not wrap (its
  result is not checked in the code); clearing the cache is off or, in the flat address space, walks over its buffer by whole words without
  its pointer wrapping round; and, for the compensated counters, a tick length is known or the first calibration finds one.
\<close>

theorem fcyc_returns_minimum:
  assumes "0 < kbest f" "kbest f < 2 ^ 29" "clearable junk f"
    and "meas = (if compensate f then comp_cycles_of rdtsc utime run else cycles_of rdtsc run)"
    and "compensate f \<longrightarrow> calibrated rdtsc utime c"
  shows "\<exists>m ms f' c'. fcyc True junk rdtsc utime run f c = Some (Inr (Min (set ms), f', c'))
    \<and> measurements meas m c = Some ms \<and> 0 < m \<and> m \<le> max 1 (nat (maxsamples f)) \<and> params f' = params f"
  using fcyc_ok [OF assms(1-4)] assms(5) by blast

theorem fcyc_returns_minimum_witness:
  "\<exists>m ms f' c'. fcyc True None tick_rdtsc tick_utime Suc (set_fcyc_compensate True sampler_init) (tick_clk 0 0 0)
      = Some (Inr (Min (set ms), f', c'))
    \<and> measurements (comp_cycles_of tick_rdtsc tick_utime Suc) m (tick_clk 0 0 0) = Some ms \<and> 0 < m \<and> m \<le> 20"
  using fcyc_returns_minimum [of "set_fcyc_compensate True sampler_init" None _ tick_rdtsc tick_utime Suc "tick_clk 0 0 0", OF _ _ _ refl]
    tick_calibrated [of 0 0]
  by (auto simp: sampler_init_def clearable_def set_fcyc_compensate_def)

text \<open>
  Where \<open>calloc\<close> has no memory, \<open>fcyc\<close> writes its first sample through the null pointer.
\<close>

theorem fcyc_without_memory:
  assumes "\<not> clear_cache f" "\<not> compensate f"
  shows "fcyc False junk rdtsc utime run f c = None"
  using assms by (simp add: fcyc_def init_sampler_def sample_loop.simps cycles_of_def add_sample_def Let_def split: prod.split)

theorem fcyc_without_memory_witness: "fcyc False None tick_rdtsc tick_utime Suc sampler_init (tick_clk 0 0 0) = None"
  by (rule fcyc_without_memory) (simp_all add: sampler_init_def)

text \<open>
  C24. With the cycle counter \<open>fsecs\<close>, set up by \<open>init_fsecs\<close>, returns for every timed function: the smallest of at most 20 compensated
  measurements in cycles, over the clock rate \<open>init_fsecs\<close> has measured, if that rate is not zero, there is memory for the samples and the cache
  buffer and the first calibration finds a tick length.
\<close>

theorem fsecs_best_of_twenty:
  assumes "init_fsecs USE_FCYC rdtsc sleep sampler_init c0 = (Mhz, f, c)" "Mhz \<noteq> 0" "junk \<noteq> None"
    and "calibrated rdtsc utime c"
  shows "\<exists>m ms f' c'. fsecs USE_FCYC Mhz True junk rdtsc utime setitimer getitimer gettimeofday run f c
      = Some (Inr (Min (set ms) / (Mhz * 1000000), f', c'))
    \<and> measurements (comp_cycles_of rdtsc utime run) m c = Some ms \<and> 0 < m \<and> m \<le> 20 \<and> params f' = params f"
  by (rule fsecs_cycles [OF assms])

theorem fsecs_best_of_twenty_witness:
  "\<exists>f m ms f' c'. init_fsecs USE_FCYC tick_rdtsc (\<lambda>s n. n + 100) sampler_init (tick_clk 0 0 0) = (101 / 200, f, tick_clk 0 0 102)
    \<and> fsecs USE_FCYC (101 / 200) True (Some (0x20000000, \<lambda>_. 0)) tick_rdtsc tick_utime (\<lambda>_ _ n. n) (\<lambda>_ n. ((0, 0), n)) (\<lambda>n. ((0, 0), n)) Suc f (tick_clk 0 0 102)
      = Some (Inr (Min (set ms) / 505000, f', c'))
    \<and> measurements (comp_cycles_of tick_rdtsc tick_utime Suc) m (tick_clk 0 0 102) = Some ms \<and> 0 < m \<and> m \<le> 20"
proof -
  have e: "(tick_clk 0 0 (Suc 0))\<lparr>env := 101\<rparr> = tick_clk 0 0 101" by (simp add: tick_clk_def)
  have "mhz tick_rdtsc (\<lambda>s n. n + 100) (tick_clk 0 0 0) = (101 / 200, tick_clk 0 0 102)"
    using tick_get [of 0 101 0] by (simp add: mhz_def mhz_full_def Let_def tick_start tick_env e)
  then obtain f where "init_fsecs USE_FCYC tick_rdtsc (\<lambda>s n. n + 100) sampler_init (tick_clk 0 0 0) = (101 / 200, f, tick_clk 0 0 102)"
    by (simp add: init_fsecs_def Let_def)
  with fsecs_best_of_twenty [OF this _ _ tick_calibrated, of "Some (0x20000000, \<lambda>_. 0)" "\<lambda>_ _ n. n" "\<lambda>_ n. ((0, 0), n)" "\<lambda>n. ((0, 0), n)" Suc]
  show ?thesis by auto
qed

text \<open>
  With a cache block below the size of a word the step of \<open>clear\<close> is zero, and its loop never ends.
\<close>

theorem clear_loop_spins:
  assumes "0 \<le> cache_block f" "cache_block f < 4" "cache_buffer junk f = Some buf" "fst buf < fst buf + cache_words f * 4"
  shows "clear junk f = None"
proof -
  have "cache_block f \<in> {0, 1, 2, 3}" using assms(1,2) by auto
  then have "(of_int (cache_block f) div 4 :: addr) * 4 = 0" by auto
  from sum_words_spins [OF this assms(4)] show ?thesis by (simp add: clear_def assms(3) Let_def)
qed

theorem clear_loop_spins_witness:
  "clear (Some (0x20000000, \<lambda>_. 0)) (set_fcyc_cache_block 2 sampler_init) = None"
  by (rule clear_loop_spins [OF _ _ _, where buf = "(0x20000000, map (\<lambda>_. 0) [0..<131072])"])
    (simp_all add: set_fcyc_cache_block_def sampler_init_def cache_buffer_def cache_words_def)

section \<open>The segregated list\<close>

text \<open>
  The shifting loop puts a size into group \<open>g\<close> with \<open>2 ^ g \<le> size < 2 ^ (g + 1)\<close>, and everything from \<open>2 ^ 19\<close> into
  the last one; the signed copy of the loop in \<open>find_fit\<close> agrees on sizes below \<open>2 ^ 31\<close>.
\<close>

theorem group_of_size_class:
  assumes "0 < unat sz" "unat sz < 2 ^ 31"
  shows "group_from 0 sz < GROUPSIZE \<and> 2 ^ group_from 0 sz \<le> unat sz
    \<and> (group_from 0 sz < GROUPSIZE - 1 \<longrightarrow> unat sz < 2 ^ (group_from 0 sz + 1))
    \<and> group_from_int 0 sz = group_from 0 sz"
  using group_of_size [OF assms(1)] group_int_eq [OF assms(2)] by (simp add: GROUPSIZE_def)

theorem group_of_size_class_witness:
  "2 ^ group_from 0 (4096 :: addr) \<le> (4096 :: nat) \<and> group_from_int 0 (4096 :: addr) = group_from 0 4096"
  using group_of_size_class [of 4096] by simp

text \<open>
  C25. \<open>mm_realloc\<close> of the segregated list to a size the block already has room for: \<open>place\<close> unlinks the allocated block
  as if it were free. When its first two payload words are zero, the head of the group of its size becomes NULL and
  every free block of that group is lost.
\<close>

theorem seg_realloc_drops_group:
  assumes "heap_blocks s 2 (xs @ Used ws # ys)" "length (group_free_listp s) = GROUPSIZE"
    and "ws ! 0 = 0" "ws ! 1 = 0"
    and "0 < sz" "unat sz + 15 < 2 ^ 32" "req_words sz \<le> length ws + 2" "length ws + 2 < req_words sz + 4"
  shows "\<exists>s'. mm_realloc_seg s (ptr (mem_start_brk s) (4 + twords xs)) sz = Some (ptr (mem_start_brk s) (4 + twords xs), s')
    \<and> group_free_listp s' = (group_free_listp s)[group_from 0 (bsize (length ws + 2)) := NULL]"
  by (rule mm_realloc_seg_drops_group [OF assms])

definition zero_seg :: mm_seg where
  "zero_seg = (let s = \<lparr>mem_start_brk = 0x10000000, mem_brk = ptr 0x10000000 32,
       mem_max_addr = 0x10000000 + of_nat MAX_HEAP, bytes = (\<lambda>_. 0), group_free_listp = replicate GROUPSIZE 0x10000010\<rparr>
     in put_word (put_word (put_word (put_word (put_word s 1 (hdr 2 True)) 2 (hdr 2 True)) 3 (hdr 28 True))
       30 (hdr 28 True)) 31 (hdr 0 True))"

lemma hw_zero: "bytes s = (\<lambda>_. 0) \<Longrightarrow> hw s = (\<lambda>_. 0)"
  by (rule ext) (simp add: hw_def ld32_def)

lemma zero_seg_facts:
  "heap_blocks zero_seg 2 [Used (replicate 26 0)]" "group_free_listp zero_seg = replicate GROUPSIZE 0x10000010"
  "mem_start_brk zero_seg = 0x10000000"
proof -
  have m: "unat (0x10000000 + of_nat MAX_HEAP :: addr) = 0x10000000 + MAX_HEAP" by (rule fresh_max)
  have "geom zero_seg" by (simp add: zero_seg_def geom_def ptr_def m word_le_nat_alt MAX_HEAP_def Let_def)
  moreover have "hw zero_seg = (\<lambda>_. 0)(1 := hdr 2 True, 2 := hdr 2 True, 3 := hdr 28 True, 30 := hdr 28 True, 31 := hdr 0 True)"
    by (simp add: zero_seg_def Let_def hw_put_word HEAPW_eq hw_zero)
  ultimately show "heap_blocks zero_seg 2 [Used (replicate 26 0)]"
    by (simp add: heap_blocks_def blk_at_def HEAPW_eq) (simp add: zero_seg_def Let_def)
  show "group_free_listp zero_seg = replicate GROUPSIZE 0x10000010" "mem_start_brk zero_seg = 0x10000000"
    by (simp_all add: zero_seg_def Let_def)
qed

theorem seg_realloc_drops_group_witness:
  "\<exists>s'. mm_realloc_seg zero_seg (ptr 0x10000000 4) 100 = Some (ptr 0x10000000 4, s')
    \<and> group_free_listp s' = (group_free_listp zero_seg)[group_from 0 112 := NULL]"
proof -
  have b: "bsize 28 = 112" by (simp add: bsize_def)
  have "heap_blocks zero_seg 2 ([] @ Used (replicate 26 0) # [])" using zero_seg_facts(1) by simp
  from seg_realloc_drops_group [OF this, of 100] show ?thesis
    by (simp add: zero_seg_facts(2,3) req_words_100 b word_less_nat_alt)
qed

section \<open>The buddy allocator\<close>

definition fresh_buddy :: buddy where
  "fresh_buddy = \<lparr>mem_start_brk = 0x10000000, mem_brk = 0x10000000,
     mem_max_addr = 0x10000000 + of_nat MAX_HEAP, bytes = (\<lambda>_. 0), buckets_addr = 0x08000000, bucket_limit = 27,
     node_is_split = (\<lambda>_. 0), base_ptr = 0x10000000, max_ptr = 0x10000000\<rparr>"

definition boot_buddy :: buddy where "boot_buddy = snd (the (mm_init_buddy fresh_buddy))"

definition one_buddy :: buddy where "one_buddy = snd (the (mm_malloc_buddy boot_buddy 8))"

lemma fresh_buddy_heap: "fresh_heap fresh_buddy"
proof -
  have "unat (0x10000000 + of_nat MAX_HEAP :: addr) = 0x10000000 + MAX_HEAP" by (rule fresh_max)
  then show ?thesis by (simp add: fresh_heap_def empty_heap_def layout_def geom_def fresh_buddy_def word_le_nat_alt MAX_HEAP_def)
qed

lemma boot_buddy_facts:
  "mm_init_buddy fresh_buddy = Some (0, boot_buddy)" "repr_buddy boot_buddy Map.empty" "one_free boot_buddy"
  "base_ptr boot_buddy = 0x10000000" "mem_max_addr boot_buddy = 0x10000000 + of_nat MAX_HEAP"
proof -
  obtain s where s: "mm_init_buddy fresh_buddy = Some (0, s)" "one_free s" "same_storage fresh_buddy s"
    using mm_init_lists [of fresh_buddy] fresh_buddy_heap by (auto simp: fresh_heap_def)
  moreover have "boot_buddy = s" using s(1) by (simp add: boot_buddy_def)
  moreover have "repr_buddy s Map.empty" using buddy_init_ok [OF fresh_clear [OF fresh_buddy_heap]] s(1) by auto
  moreover have "base_ptr s = mem_start_brk s" using s(2) layoutD(2) by (simp add: one_free_def)
  ultimately show "mm_init_buddy fresh_buddy = Some (0, boot_buddy)" "repr_buddy boot_buddy Map.empty" "one_free boot_buddy"
    "base_ptr boot_buddy = 0x10000000" "mem_max_addr boot_buddy = 0x10000000 + of_nat MAX_HEAP"
    by (simp_all add: same_storage_def fresh_buddy_def)
qed

lemma one_buddy_facts:
  "\<exists>cs. repr_buddy one_buddy [0x10000008 \<mapsto> cs] \<and> 8 \<le> length cs"
proof -
  obtain s where m: "mm_malloc_buddy boot_buddy 8 = Some (0x10000008, s)"
    using first_block [OF boot_buddy_facts(3)] boot_buddy_facts(4) by auto
  then have "one_buddy = s" by (simp add: one_buddy_def)
  with m buddy_malloc_ok [OF boot_buddy_facts(2), of 8] show ?thesis by auto
qed

text \<open>
  C26. To its client \<open>mm_malloc\<close> of \<open>buddy.c\<close> keeps the promise of \<open>mm.h\<close>, through growing the tree, splitting and the free lists in
  memory: it returns NULL and keeps every live payload, or a fresh 8-aligned pointer with at least the requested bytes behind
  it, inside the heap and clear of every payload handed out before.
\<close>

theorem buddy_malloc_safe:
  assumes "repr_buddy s L" "unat sz + 8 < 2 ^ 32"
  shows "\<exists>p s'. mm_malloc_buddy s sz = Some (p, s')
    \<and> (if p = NULL then repr_buddy s' L
       else L p = None \<and> 8 dvd unat p \<and> (\<exists>cs. unat sz \<le> length cs \<and> repr_buddy s' (L(p \<mapsto> cs))
         \<and> unat (mem_start_brk s) \<le> unat p \<and> unat p + length cs \<le> unat (mem_brk s')
         \<and> (\<forall>q ds. L q = Some ds \<longrightarrow> unat p + length cs \<le> unat q \<or> unat q + length ds \<le> unat p)))"
  by (rule buddy.handed_out [OF buddy_malloc_ok [OF assms]])

theorem buddy_malloc_safe_witness:
  "\<exists>p s'. mm_malloc_buddy boot_buddy 100 = Some (p, s')
    \<and> (if p = NULL then repr_buddy s' Map.empty
       else 8 dvd unat p \<and> (\<exists>cs. 100 \<le> length cs \<and> repr_buddy s' [p \<mapsto> cs]))"
  using buddy_malloc_safe [OF boot_buddy_facts(2), of 100] by (fastforce split: if_splits)

text \<open>
  C27. \<open>mm_free\<close> of \<open>buddy.c\<close> returns on every live pointer, forgets exactly that payload and keeps the bytes of every other one;
  merging upwards it finds every buddy it unlinks in the list of its bucket.
\<close>

theorem buddy_free_safe:
  assumes "repr_buddy s L" "L p = Some cs"
  shows "\<exists>s'. mm_free_buddy s p = Some s' \<and> same_storage s s' \<and> repr_buddy s' (L(p := None))"
  by (rule buddy_free_ok [OF assms])

theorem buddy_free_safe_witness:
  "\<exists>s'. mm_free_buddy one_buddy 0x10000008 = Some s' \<and> repr_buddy s' Map.empty"
proof -
  obtain cs where "repr_buddy one_buddy [0x10000008 \<mapsto> cs]" using one_buddy_facts by blast
  from buddy_free_safe [OF this, of "0x10000008" cs] show ?thesis by auto
qed

text \<open>
  C28. \<open>mm_init\<close> of \<open>buddy.c\<close> on an empty heap, with no split bit of the tree set, establishes the invariant, with no block in use.
\<close>

theorem buddy_init_establishes:
  assumes "clear_heap s"
  shows "\<exists>s'. mm_init_buddy s = Some (0, s') \<and> repr_buddy s' Map.empty \<and> same_storage s s'"
  by (rule buddy_init_ok [OF assms])

theorem buddy_init_establishes_witness:
  "\<exists>s'. mm_init_buddy fresh_buddy = Some (0, s') \<and> repr_buddy s' Map.empty"
  using buddy_init_establishes [OF fresh_clear [OF fresh_buddy_heap]] by blast

text \<open>
  C29. A request whose own bucket has a free block gets the last entry of that bucket's list, the one the head's \<open>prev\<close> names (the comment of
  \<open>list_pop\<close> says the first), as long as that block lies within the storage.
\<close>

theorem buddy_malloc_exact_fit:
  assumes "repr_buddy s L" "bucket_for_request (sz + HEADER_SIZE) = Some bucket" "unat sz + 8 \<le> 2 ^ 31"
    and "bucket_limit s \<le> bucket" "get_prev s (bucket_head s bucket) = Some q" "q \<noteq> bucket_head s bucket"
    and "unat q + 2 ^ (31 - unat bucket) < unat (mem_max_addr s)"
  shows "\<exists>s'. mm_malloc_buddy s sz = Some (q + HEADER_SIZE, s')"
  by (rule buddy_exact_fit [OF assms])

theorem buddy_malloc_exact_fit_witness:
  "\<exists>s'. mm_malloc_buddy boot_buddy 8 = Some (0x10000008, s')"
proof -
  obtain t where "list_pop boot_buddy (bucket_head boot_buddy (of_nat 27)) = Some (0x10000000, t)"
    using one_free_pop [OF boot_buddy_facts(3)] boot_buddy_facts(4) by auto
  then have q: "get_prev boot_buddy (bucket_head boot_buddy (of_nat 27)) = Some 0x10000000"
    "(0x10000000 :: addr) \<noteq> bucket_head boot_buddy (of_nat 27)"
    by (auto simp: list_pop_def split: Option.bind_splits if_splits)
  have "bucket_limit boot_buddy \<le> of_nat 27" using boot_buddy_facts(3) by (simp add: one_free_def)
  moreover have "unat (0x10000000 :: addr) + 2 ^ (31 - unat (of_nat 27 :: addr)) < unat (mem_max_addr boot_buddy)"
    unfolding boot_buddy_facts(5) fresh_max by (simp add: MAX_HEAP_def)
  ultimately show ?thesis
    using buddy_malloc_exact_fit [OF boot_buddy_facts(2) bucket_16 _ _ q] by (simp add: HEADER_SIZE_def)
qed

text \<open>
  C30. Merging is complete: when the last block is freed, the tree is one free block again, whatever was split before. The list of
  the limit's bucket holds \<open>base_ptr\<close> and every list below is empty.
\<close>

theorem buddy_free_merges_all:
  assumes "repr_buddy s [p \<mapsto> cs]"
  shows "\<exists>s' L. mm_free_buddy s p = Some s' \<and> bucket_limit s' = of_nat L \<and> L \<le> 27
    \<and> (\<forall>b \<le> 27. L \<le> b \<longrightarrow> get_prev s' (bucket_head s' (of_nat b)) = Some (if b = L then base_ptr s' else bucket_head s' (of_nat b)))"
  by (rule buddy_free_last [OF assms])

theorem buddy_free_merges_all_witness:
  "\<exists>s'. mm_free_buddy one_buddy 0x10000008 = Some s' \<and> get_prev s' (bucket_head s' (bucket_limit s')) = Some (base_ptr s')"
proof -
  obtain cs where "repr_buddy one_buddy [0x10000008 \<mapsto> cs]" using one_buddy_facts by blast
  from buddy_free_merges_all [OF this] obtain s' L where s': "mm_free_buddy one_buddy 0x10000008 = Some s'"
    "bucket_limit s' = of_nat L" "L \<le> 27"
    "\<forall>b \<le> 27. L \<le> b \<longrightarrow> get_prev s' (bucket_head s' (of_nat b)) = Some (if b = L then base_ptr s' else bucket_head s' (of_nat b))"
    by blast
  from s'(4) [rule_format, OF s'(3) order_refl] s'(1,2) show ?thesis by (intro exI [of _ s']) simp
qed

definition buddy_pkg :: "unit buddy_ext mmpkg" where
  "buddy_pkg = \<lparr>pk_init = mm_init_buddy, pk_malloc = mm_malloc_buddy, pk_free = mm_free_buddy,
     pk_realloc = mm_realloc_buddy\<rparr>"

text \<open>
  C31. The driver's verdict on the buddy allocator: on every well-formed trace without reallocations \<open>eval_mm_valid\<close> ends without
  undefined behaviour, and all it can have to report is that \<open>mm_malloc\<close> returned NULL. After a trace that frees
  all it has allocated no split bit is left set, so that the next trace, too, starts on a heap \<open>mm_init\<close> can handle, although
  \<open>mm_init\<close> itself does not clear them.
\<close>

theorem driver_accepts_buddy:
  assumes "clear_heap (mem_reset_brk (v_mem v))" "unat (mem_max_addr (v_mem v)) + B + 4112 < 2 ^ 32"
    and "length (blocks (v_trace v)) = n" "length (block_sizes (v_trace v)) = n"
    and "trace_ops (v_trace v) = Some ps" "wf_ops n B [] ps" "no_realloc ps"
  shows "\<exists>good v'. eval_mm_valid buddy_pkg tracenum v = Some (good, v')
    \<and> (if good then v_drv v' = v_drv v \<and> (balanced ps \<longrightarrow> clear_heap (mem_reset_brk (v_mem v')))
       else \<exists>i. v_drv v' = malloc_error (v_drv v) tracenum i Mm_malloc_failed)"
  using alloc_package.eval_mm_valid_plain [OF buddy_alloc.alloc_package_axioms assms, of buddy_pkg tracenum]
  by (fastforce simp: buddy_pkg_def fails_with_def)

theorem driver_accepts_buddy_witness:
  "\<exists>good v'. eval_mm_valid buddy_pkg 0 (plain_state fresh_buddy) = Some (good, v')
    \<and> (if good then v_drv v' = v_drv (plain_state fresh_buddy) \<and> clear_heap (mem_reset_brk (v_mem v'))
       else \<exists>i. v_drv v' = malloc_error (v_drv (plain_state fresh_buddy)) 0 i Mm_malloc_failed)"
proof -
  have r: "mem_reset_brk fresh_buddy = fresh_buddy" by (simp add: mem_reset_brk_def fresh_buddy_def)
  have m: "unat (mem_max_addr fresh_buddy) = 0x10000000 + MAX_HEAP" by (simp add: fresh_buddy_def fresh_max)
  have "\<exists>good v'. eval_mm_valid buddy_pkg 0 (plain_state fresh_buddy) = Some (good, v')
    \<and> (if good then v_drv v' = v_drv (plain_state fresh_buddy)
         \<and> (balanced (ops plain_trace) \<longrightarrow> clear_heap (mem_reset_brk (v_mem v')))
       else \<exists>i. v_drv v' = malloc_error (v_drv (plain_state fresh_buddy)) 0 i Mm_malloc_failed)"
    by (rule driver_accepts_buddy [where n = 2 and B = 5000])
      (simp_all only: plain_state_facts plain_trace_facts r fresh_clear [OF fresh_buddy_heap] m, simp add: MAX_HEAP_def)
  then show ?thesis by (simp only: plain_trace_facts simp_thms)
qed

text \<open>
  C32. \<open>mm_init\<close> does not clear the bit array. After a trace that leaves one small block allocated, the next trace's first request
  clears the bit that should be set, and the second one takes the block in use for a free tree: it unlinks it, following the
  header as a pointer, and accesses memory outside the heap.
\<close>

theorem buddy_init_forgets_bits:
  assumes "fresh_heap s" "16 < unat (mem_start_brk s)" "16 < unat (buckets_addr s)"
  shows "\<exists>s1 p s2 s3 q s4. mm_init_buddy s = Some (0, s1) \<and> mm_malloc_buddy s1 8 = Some (p, s2) \<and> p \<noteq> NULL
    \<and> mm_init_buddy (mem_reset_brk s2) = Some (0, s3) \<and> mm_malloc_buddy s3 8 = Some (q, s4) \<and> q \<noteq> NULL
    \<and> mm_malloc_buddy s4 8 = None"
  by (rule buddy_reinit [OF assms])

theorem buddy_init_forgets_bits_witness:
  "\<exists>s3 q s4. mm_init_buddy (mem_reset_brk one_buddy) = Some (0, s3) \<and> mm_malloc_buddy s3 8 = Some (q, s4)
    \<and> mm_malloc_buddy s4 8 = None"
proof -
  have "16 < unat (mem_start_brk fresh_buddy)" "16 < unat (buckets_addr fresh_buddy)" by (simp_all add: fresh_buddy_def)
  from buddy_init_forgets_bits [OF fresh_buddy_heap this] boot_buddy_facts(1) show ?thesis
    by (auto simp: one_buddy_def)
qed

text \<open>
  C33. \<open>mm_realloc\<close> takes the size to copy from the first word of the payload: when that word is zero it copies nothing, and the
  data of the old block is lost.
\<close>

theorem buddy_realloc_copies_nothing:
  assumes "repr_buddy s L" "L p = Some cs" "take 4 cs = replicate 4 0" "unat sz + 8 < 2 ^ 32"
  shows "mm_realloc_buddy s p sz = do {
    (q, s) \<leftarrow> mm_malloc_buddy s sz;
    if q = NULL then Some (NULL, s)
    else do {
      s \<leftarrow> mm_free_buddy s p;
      Some (q, s) } }"
  by (rule buddy_realloc_zero_word [OF assms])

definition zero_buddy :: buddy where
  "zero_buddy = one_buddy\<lparr>bytes := (\<lambda>a. if unat (a - 0x10000008) < 8 then 0 else bytes one_buddy a)\<rparr>"

theorem buddy_realloc_copies_nothing_witness:
  "mm_realloc_buddy zero_buddy 0x10000008 100 = do {
    (q, s) \<leftarrow> mm_malloc_buddy zero_buddy 100;
    if q = NULL then Some (NULL, s)
    else do {
      s \<leftarrow> mm_free_buddy s 0x10000008;
      Some (q, s) } }"
proof -
  obtain cs where cs: "repr_buddy one_buddy [0x10000008 \<mapsto> cs]" "8 \<le> length cs" using one_buddy_facts by blast
  let ?m = "\<lambda>a. if unat (a - 0x10000008) < 8 then 0 else bytes one_buddy a"
  let ?ds = "map (\<lambda>k. ?m (0x10000008 + of_nat k)) [0..<length cs]"
  have "?m a = bytes one_buddy a" if "\<not> unat (a - 0x10000008) < length cs" for a using that cs(2) by simp
  from buddy.repr_write [OF cs(1) _ this, of "0x10000008" cs]
  have r: "repr_buddy zero_buddy [0x10000008 \<mapsto> ?ds]" by (simp add: zero_buddy_def)
  have "take 4 ?ds = replicate 4 0"
    using cs(2) by (intro nth_equalityI) (simp_all add: unat_of_nat32)
  with buddy_realloc_copies_nothing [OF r, of "0x10000008" ?ds 100] show ?thesis by simp
qed

text \<open>
  For a request up to \<open>MAX_ALLOC\<close> the loop of \<open>bucket_for_request\<close> ends, and the bucket it returns holds the
  smallest power of two, from 16 bytes on, that is at least the request.
\<close>

theorem bucket_for_request_smallest:
  assumes "unat request \<le> 2 ^ 31"
  shows "\<exists>e. bucket_for_request request = Some (of_nat (31 - e)) \<and> 4 \<le> e \<and> e \<le> 31
    \<and> unat request \<le> 2 ^ e \<and> (e = 4 \<or> 2 ^ (e - 1) < unat request)"
  by (rule bucket_for_request_ok [OF assms])

theorem bucket_for_request_smallest_witness:
  "\<exists>e. bucket_for_request 100 = Some (of_nat (31 - e)) \<and> 100 \<le> (2 :: nat) ^ e \<and> (e = 4 \<or> 2 ^ (e - 1) < (100 :: nat))"
  using bucket_for_request_smallest [of 100] by auto

text \<open>
  C34. Beyond \<open>MAX_ALLOC\<close> the block size wraps round to zero and the loop does not end.
\<close>

theorem bucket_for_request_endless:
  assumes "2 ^ 31 < unat request"
  shows "bucket_for_request request = None"
  by (rule bucket_for_request_diverges [OF assms])

theorem bucket_for_request_endless_witness:
  "bucket_for_request 0x80000001 = None"
  by (rule bucket_for_request_endless) simp

text \<open>
  Node numbers and addresses correspond: for every node of a bucket, the address \<open>ptr_for_node\<close> gives is a
  multiple of the block size from \<open>base_ptr\<close>, the block ends within the 2 GB range, and
  \<open>node_for_ptr\<close> maps it back to the node.
\<close>

theorem node_address_roundtrip:
  assumes "unat bucket \<le> 27" "2 ^ unat bucket \<le> unat index + 1" "unat index + 1 < 2 * 2 ^ unat bucket"
  shows "node_for_ptr s (ptr_for_node s index bucket) bucket = index
    \<and> 2 ^ (31 - unat bucket) dvd unat (ptr_for_node s index bucket - base_ptr s)
    \<and> unat (ptr_for_node s index bucket - base_ptr s) + 2 ^ (31 - unat bucket) \<le> 2 ^ 31"
  using node_ptr_node [OF assms] ptr_node_range [OF assms] by blast

theorem node_address_roundtrip_witness:
  "node_for_ptr fresh_buddy (ptr_for_node fresh_buddy 5 2) 2 = 5"
  using node_address_roundtrip [of 2 5 fresh_buddy] by simp

text \<open>
  \<open>flip_parent_is_split\<close> inverts the bit \<open>parent_is_split\<close> reads for the node and its buddy, and changes no
  other node's and nothing else of the state.
\<close>

theorem flip_inverts_one_bit:
  assumes "flip_parent_is_split s i = Some s'"
  shows "parent_is_split s' i = map_option Not (parent_is_split s i)
    \<and> (\<forall>j. (j - 1) div 2 \<noteq> (i - 1) div 2 \<longrightarrow> parent_is_split s' j = parent_is_split s j)
    \<and> s'\<lparr>node_is_split := node_is_split s\<rparr> = s"
  using parent_after_flip [OF assms] by blast

theorem flip_inverts_one_bit_witness:
  "\<exists>s'. flip_parent_is_split fresh_buddy 1 = Some s' \<and> parent_is_split s' 1 = Some True"
proof -
  obtain s' where s': "flip_parent_is_split fresh_buddy 1 = Some s'"
    by (simp add: flip_parent_is_split_def split_byte_def Let_def)
  have "parent_is_split fresh_buddy 1 = Some False"
    by (simp add: parent_is_split_def split_byte_def Let_def fresh_buddy_def)
  with flip_inverts_one_bit [OF s'] s' show ?thesis by simp
qed

text \<open>
  The circular lists are LIFO: \<open>list_pop\<close> returns the entry \<open>list_push\<close> just added, whether the list was empty or not,
  and restores every byte outside that entry.
\<close>

theorem list_pop_after_push:
  assumes "get_prev s l = Some p" "get_next s p = Some l" "cell_ok s l" "cell_ok s p" "cell_ok s e"
    and "cells_apart e l" "cells_apart e p" "p = l \<or> cells_apart p l"
  shows "\<exists>s1 s2. list_push s l e = Some s1 \<and> list_pop s1 l = Some (e, s2)
    \<and> get_prev s1 l = Some e \<and> get_next s1 e = Some l \<and> get_prev s1 e = Some p \<and> get_next s1 p = Some e
    \<and> (\<exists>m. s2 = s\<lparr>bytes := m\<rparr> \<and> (\<forall>x. \<not> unat (x - e) < 8 \<longrightarrow> m x = bytes s x))"
  by (rule list_push_pop [OF assms])

definition empty_bucket :: buddy where
  "empty_bucket = fresh_buddy\<lparr>bytes := st32 (st32 (\<lambda>_. 0) 0x08000000 0x08000000) 0x08000004 0x08000000\<rparr>"

theorem list_pop_after_push_witness:
  "\<exists>s1 s2. list_push empty_bucket 0x08000000 0x10000000 = Some s1 \<and> list_pop s1 0x08000000 = Some (0x10000000, s2)"
proof -
  have m: "unat (0x10000000 + of_nat MAX_HEAP :: addr) = 0x10000000 + MAX_HEAP" by (rule fresh_max)
  have ok: "word_ok empty_bucket 0x08000000" "word_ok empty_bucket 0x08000004" "word_ok empty_bucket 0x10000000"
    "word_ok empty_bucket 0x10000004"
    by (simp_all add: word_ok_def empty_bucket_def fresh_buddy_def in_storage_def in_buckets_def word_le_nat_alt m MAX_HEAP_def
        BUCKET_COUNT_def SIZEOF_LIST_T_def MAX_ALLOC_LOG2_def MIN_ALLOC_LOG2_def)
  have "apart4 0x08000004 0x08000000" by (rule apart4I) simp_all
  then have l: "get_prev empty_bucket 0x08000000 = Some 0x08000000" "get_next empty_bucket 0x08000000 = Some 0x08000000"
    using ok by (simp_all add: get_prev_def get_next_def LD_ok ld32_st32_apart) (simp_all add: empty_bucket_def ld32_st32_apart)
  have "cell_ok empty_bucket 0x08000000" "cell_ok empty_bucket 0x10000000" using ok by (simp_all add: cell_ok_def)
  from list_pop_after_push [OF l this(1,1,2)] show ?thesis by (simp add: cells_apart_def) blast
qed

section \<open>The reference explicit list\<close>

text \<open>
  C35. The driver's verdict on \<open>malloc/refer/refer.c\<close>, which places a block before it takes it off the list and ends the
  list at the prologue: it keeps the contract of \<open>mm.h\<close> as well, so on a well-formed trace the driver ends and reports
  nothing but a request that returned NULL, and not even that when the requests fit into the storage.
\<close>

theorem driver_accepts_refer:
  assumes "geom (v_mem v)" "unat (mem_max_addr (v_mem v)) + B + 4112 < 2 ^ 32"
    and "length (blocks (v_trace v)) = n" "length (block_sizes (v_trace v)) = n"
    and "trace_ops (v_trace v) = Some ps" "wf_ops n B [] ps"
  shows "\<exists>good v'. eval_mm_valid ref_pkg tracenum v = Some (good, v')
    \<and> (if good then v_drv v' = v_drv v
       else \<exists>i. v_drv v' = malloc_error (v_drv v) tracenum i Mm_malloc_failed
         \<or> v_drv v' = malloc_error (v_drv v) tracenum i Mm_realloc_failed)
    \<and> (demand ps + 4120 \<le> MAX_HEAP \<longrightarrow> good)"
  using mm_package.eval_mm_valid_ok [OF ref.mm_package_axioms assms, of ref_pkg tracenum]
    sparing_package.eval_mm_valid_served [OF ref.sparing_package_axioms assms, of ref_pkg tracenum]
  by (fastforce simp: ref_pkg_def fails_with_def)

theorem driver_accepts_refer_witness:
  "\<exists>v'. eval_mm_valid ref_pkg 0 (demo_state fresh_ref) = Some (True, v') \<and> v_drv v' = v_drv (demo_state fresh_ref)"
proof -
  have "\<exists>good v'. eval_mm_valid ref_pkg 0 (demo_state fresh_ref) = Some (good, v')
    \<and> (if good then v_drv v' = v_drv (demo_state fresh_ref)
       else \<exists>i. v_drv v' = malloc_error (v_drv (demo_state fresh_ref)) 0 i Mm_malloc_failed
         \<or> v_drv v' = malloc_error (v_drv (demo_state fresh_ref)) 0 i Mm_realloc_failed)
    \<and> (demand (ops demo_trace) + 4120 \<le> MAX_HEAP \<longrightarrow> good)"
    by (rule driver_accepts_refer [where n = 2 and B = 5000])
      (simp_all only: demo_state_facts demo_trace_facts fresh_ref_facts, simp add: MAX_HEAP_def)
  with demo_trace_facts(3) show ?thesis by auto
qed

text \<open>
  \<open>mm_malloc\<close> of \<open>refer.c\<close> is first fit along its free list: the first listed block with room is returned, leaves
  the list and is split when the rest holds at least 16 bytes; the rest goes to the front. The list, the tags and the
  other payloads stay in place, although the rest is linked in while the block itself is still a member.
\<close>

theorem refer_first_fit:
  assumes "listed_ref s bs fl" "set fl = set (frees 6 bs)" "0 < sz" "request_fits s sz"
    and "find (\<lambda>i. req_words sz \<le> block_words 6 bs i) fl = Some j"
  shows "\<exists>xs n ys ws s' gl. bs = xs @ Free n # ys \<and> j = 6 + twords xs \<and> req_words sz \<le> n
    \<and> length ws = place_gets n (req_words sz) - 2
    \<and> mm_malloc_ref s sz = Some (ptr (mem_start_brk s) j, s') \<and> same_storage s s'
    \<and> gl = (if req_words sz + 4 \<le> n then (j + req_words sz) # filter (\<lambda>k. k \<noteq> j) fl else filter (\<lambda>k. k \<noteq> j) fl)
    \<and> listed_ref s' (xs @ Used ws # place_rest n (req_words sz) @ ys) gl
    \<and> set gl = set (frees 6 (xs @ Used ws # place_rest n (req_words sz) @ ys))"
  by (rule ref_alloc.malloc_fit [OF assms(1-4) refl assms(5)])

theorem refer_first_fit_witness:
  "\<exists>ws s'. mm_malloc_ref boot_ref 100 = Some (ptr 0x10000000 6, s') \<and> length ws = 26
    \<and> listed_ref s' [Used ws, Free 996] [34]"
proof -
  have f: "find (\<lambda>i. req_words 100 \<le> block_words 6 [Free 1024] i) [6] = Some 6"
    by (simp add: block_words_def req_words_100)
  have "(0 :: addr) < 100" "request_fits boot_ref 100" by (simp, rule boot_fits(3), simp)
  from refer_first_fit [OF boot_ref_facts(1) _ this f] obtain xs n ys ws s' gl where
    r: "[Free 1024] = xs @ Free n # ys" "length ws = place_gets n 28 - 2"
      "mm_malloc_ref boot_ref 100 = Some (ptr (mem_start_brk boot_ref) 6, s')"
      "gl = (if 28 + 4 \<le> n then (6 + 28) # filter (\<lambda>k. k \<noteq> 6) [6] else filter (\<lambda>k. k \<noteq> 6) [6])"
      "listed_ref s' (xs @ Used ws # place_rest n 28 @ ys) gl"
    unfolding req_words_100 by force
  have "xs = []" "n = 1024" "ys = []" using r(1) by (cases xs; simp)+
  with r boot_ref_facts(2) show ?thesis
    by (intro exI [of _ ws] exI [of _ s']) (simp add: place_gets_def place_rest_def)
qed

section \<open>The segregated list\<close>

text \<open>
  C36. The segregated list is best fit: when some free block has room, \<open>mm_malloc\<close> finds one, whatever group the block is in,
  and the one it takes is a smallest block with room; the groups lose it and gain the rest of a split.
\<close>

theorem seg_malloc_best_fit:
  assumes "listed_seg s bs F" "(\<Union>g. set (F g)) = set (frees 4 bs)" "0 < sz" "request_fits s sz"
    and "k \<in> set (frees 4 bs)" "req_words sz \<le> block_words 4 bs k"
  shows "\<exists>xs n ys ws s' G. bs = xs @ Free n # ys \<and> req_words sz \<le> n
    \<and> (\<forall>i \<in> set (frees 4 bs). req_words sz \<le> block_words 4 bs i \<longrightarrow> n \<le> block_words 4 bs i)
    \<and> length ws = place_gets n (req_words sz) - 2
    \<and> mm_malloc_seg s sz = Some (ptr (mem_start_brk s) (4 + twords xs), s') \<and> same_storage s s'
    \<and> listed_seg s' (xs @ Used ws # place_rest n (req_words sz) @ ys) G
    \<and> (\<Union>g. set (G g)) = set (frees 4 (xs @ Used ws # place_rest n (req_words sz) @ ys))"
proof -
  have r4: "4 \<le> req_words sz" by (rule req_words_facts(2) [OF assms(3)])
  have "seg_search (req_words sz) bs F \<noteq> None"
    using seg_search_None [OF assms(1) r4] assms(2,5,6) by fastforce
  then obtain j where j: "seg_search (req_words sz) bs F = Some j" by blast
  obtain xs n ys ws s' G where m: "bs = xs @ Free n # ys" "j = 4 + twords xs" "req_words sz \<le> n"
    "length ws = place_gets n (req_words sz) - 2" "mm_malloc_seg s sz = Some (ptr (mem_start_brk s) j, s')"
    "same_storage s s'" "listed_seg s' (xs @ Used ws # place_rest n (req_words sz) @ ys) G"
    "(\<Union>g. set (G g)) = set (frees 4 (xs @ Used ws # place_rest n (req_words sz) @ ys))"
    using seg_alloc.malloc_fit [OF assms(1-4) refl j] by (elim exE conjE) (rule that; assumption)
  have "block_words 4 bs j = n"
    using block_words_middle [of xs 4 "Free n" ys] heap_blocksD(9) [OF listed_segD(1) [OF assms(1)]] m(1,2) by simp
  then have "n \<le> block_words 4 bs i" if "i \<in> set (frees 4 bs)" "req_words sz \<le> block_words 4 bs i" for i
    using seg_search_best [OF assms(1) r4 j, of i] that assms(2) by blast
  with m show ?thesis
    by (intro exI [of _ xs] exI [of _ n] exI [of _ ys] exI [of _ ws] exI [of _ s'] exI [of _ G]) simp
qed

theorem seg_malloc_best_fit_witness:
  "\<exists>ws s' G. mm_malloc_seg boot_seg 100 = Some (ptr 0x10000000 4, s') \<and> length ws = 26
    \<and> listed_seg s' [Used ws, Free 996] G"
proof -
  obtain F where F: "listed_seg boot_seg [Free 1024] F" "(\<Union>g. set (F g)) = set (frees 4 [Free 1024])"
    using boot_seg_facts(1) by auto
  have z: "(0 :: addr) < 100" "request_fits boot_seg 100" by (simp, rule boot_fits(4), simp)
  have f: "4 \<in> set (frees 4 [Free 1024])" "req_words 100 \<le> block_words 4 [Free 1024] 4"
    by (simp_all add: block_words_def req_words_100)
  from seg_malloc_best_fit [OF F z f] obtain xs n ys ws s' G where
    r: "[Free 1024] = xs @ Free n # ys" "length ws = place_gets n 28 - 2"
      "mm_malloc_seg boot_seg 100 = Some (ptr (mem_start_brk boot_seg) (4 + twords xs), s')"
      "listed_seg s' (xs @ Used ws # place_rest n 28 @ ys) G"
    unfolding req_words_100 by (elim exE conjE) (rule that; assumption)
  have "xs = []" "n = 1024" "ys = []" using r(1) by (cases xs; simp)+
  with r boot_seg_facts(2) show ?thesis
    by (intro exI [of _ ws] exI [of _ s'] exI [of _ G]) (simp add: place_gets_def place_rest_def)
qed

text \<open>
  C37. To its client \<open>mm_malloc\<close> of the segregated list keeps the promise of \<open>mm.h\<close>: NULL and every live payload kept, or a
  pointer that was not in use, 8-aligned, inside the heap and clear of every payload handed out before.
\<close>

theorem seg_malloc_safe:
  assumes "repr_seg s L" "0 < sz" "request_fits s sz"
  shows "\<exists>p s'. mm_malloc_seg s sz = Some (p, s')
    \<and> (if p = NULL then repr_seg s' L
       else L p = None \<and> 8 dvd unat p \<and> (\<exists>cs. unat sz \<le> length cs \<and> repr_seg s' (L(p \<mapsto> cs))
         \<and> unat (mem_start_brk s) \<le> unat p \<and> unat p + length cs \<le> unat (mem_brk s')
         \<and> (\<forall>q ds. L q = Some ds \<longrightarrow> unat p + length cs \<le> unat q \<or> unat q + length ds \<le> unat p)))"
  by (rule seg.handed_out [OF seg.malloc_live [OF assms]])

theorem seg_malloc_safe_witness:
  "\<exists>p s'. mm_malloc_seg boot_seg 100 = Some (p, s')
    \<and> (if p = NULL then repr_seg s' Map.empty
       else 8 dvd unat p \<and> (\<exists>cs. 100 \<le> length cs \<and> repr_seg s' [p \<mapsto> cs]))"
  using seg_malloc_safe [OF boot_seg_facts(4) _ boot_fits(4), of 100]
  by (fastforce simp: word_less_nat_alt split: if_splits)

text \<open>
  C38. \<open>mm_free\<close> of the segregated list merges the block with the free blocks next to it, takes those off the groups
  they are in and enters the merged block into the group of its new size, behind the smaller members.
\<close>

theorem seg_free_coalesces:
  assumes "listed_seg s (xs @ Used ws # ys) F" "(\<Union>g. set (F g)) = set (frees 4 (xs @ Used ws # ys))"
    and "coalesced xs (length ws + 2) ys = (xs', m, ys')" "i = 4 + twords xs'"
    and "G = seg_ins (xs' @ Free m # ys') i (\<lambda>g. filter (\<lambda>k. k < i \<or> i + m \<le> k) (F g))"
  shows "\<exists>s'. mm_free_seg s (ptr (mem_start_brk s) (4 + twords xs)) = Some s' \<and> same_storage s s'
    \<and> listed_seg s' (xs' @ Free m # ys') G \<and> (\<Union>g. set (G g)) = set (frees 4 (xs' @ Free m # ys'))"
  unfolding assms(5) by (rule seg_alloc.free_merges [OF assms(1,2) refl assms(3,4)])

theorem seg_free_coalesces_witness:
  "\<exists>s s' G. mm_free_seg s (ptr 0x10000000 4) = Some s' \<and> listed_seg s' [Free 1024] G"
proof -
  obtain F where F: "listed_seg boot_seg [Free 1024] F" "(\<Union>g. set (F g)) = set (frees 4 [Free 1024])"
    using boot_seg_facts(1) by auto
  have "(0 :: addr) < 100" "request_fits boot_seg 100" by (simp, rule boot_fits(4), simp)
  note M = seg_alloc.malloc_fit [OF F this refl]
  have f: "seg_search (req_words 100) [Free 1024] F = Some 4"
    using seg_search_None [OF F(1), of "req_words 100" 4] F(2)
      seg_alloc.search_ok [OF F, of "req_words 100"]
    by (cases "seg_search (req_words 100) [Free 1024] F") (auto simp: block_words_def req_words_100)
  from M [OF f] obtain xs n ys ws s G where
    r: "[Free 1024] = xs @ Free n # ys" "length ws = place_gets n 28 - 2" "same_storage boot_seg s"
      "listed_seg s (xs @ Used ws # place_rest n 28 @ ys) G"
      "(\<Union>g. set (G g)) = set (frees 4 (xs @ Used ws # place_rest n 28 @ ys))"
    unfolding req_words_100 by (elim exE conjE) (rule that; assumption)
  have x: "xs = []" "n = 1024" "ys = []" using r(1) by (cases xs; simp)+
  have ws: "length ws = 26" "place_rest n 28 = [Free 996]" using r(2) x by (simp_all add: place_gets_def place_rest_def)
  have c: "coalesced [] (length ws + 2) [Free 996] = ([], 1024, [])"
    by (simp add: ws coalesced_def join_prev_def join_next_def prev_used_def next_used_def next_words_def)
  have "mem_start_brk s = 0x10000000" using r(3) boot_seg_facts(2) by (simp add: same_storage_def)
  moreover have "listed_seg s ([] @ Used ws # [Free 996]) G"
    "(\<Union>g. set (G g)) = set (frees 4 ([] @ Used ws # [Free 996]))"
    using r(4,5) x(1,3) ws(2) by simp_all
  ultimately show ?thesis using seg_free_coalesces [OF _ _ c refl refl, of s G] by auto
qed

text \<open>
  C39. The driver's verdict on the segregated list: its \<open>mm_realloc\<close> does not keep the contract, but on every well-formed trace without
  reallocations \<open>eval_mm_valid\<close> ends without undefined behaviour, and all it can have to report is that \<open>mm_malloc\<close> returned NULL.
\<close>

theorem driver_accepts_seg:
  assumes "geom (v_mem v)" "unat (mem_max_addr (v_mem v)) + B + 4112 < 2 ^ 32"
    and "length (blocks (v_trace v)) = n" "length (block_sizes (v_trace v)) = n"
    and "trace_ops (v_trace v) = Some ps" "wf_ops n B [] ps" "no_realloc ps"
  shows "\<exists>good v'. eval_mm_valid seg_pkg tracenum v = Some (good, v')
    \<and> (if good then v_drv v' = v_drv v else \<exists>i. v_drv v' = malloc_error (v_drv v) tracenum i Mm_malloc_failed)"
proof -
  have "blank_heap (mem_reset_brk (v_mem v))"
    by (rule blank_heap_reset [OF assms(1)]) (use assms(2) in \<open>simp add: request_fits_def\<close>)
  from alloc_package.eval_mm_valid_plain [OF seg.alloc_package_axioms this assms(2-7), of seg_pkg tracenum] show ?thesis
    by (fastforce simp: seg_pkg_def fails_with_def)
qed

theorem driver_accepts_seg_witness:
  "\<exists>good v'. eval_mm_valid seg_pkg 0 (plain_state fresh_seg) = Some (good, v')
    \<and> (if good then v_drv v' = v_drv (plain_state fresh_seg)
       else \<exists>i. v_drv v' = malloc_error (v_drv (plain_state fresh_seg)) 0 i Mm_malloc_failed)"
  by (rule driver_accepts_seg [where n = 2 and B = 5000 and ps = "ops plain_trace"])
    (simp_all only: plain_state_facts plain_trace_facts fresh_seg_facts, simp add: MAX_HEAP_def)

section \<open>The unfinished explicit list\<close>




end
